(* ===== verification/Prelude.thy ===== *)
theory Prelude
  imports Main "HOL-Library.Word"
begin

text \<open>
  Shared ground of the development: the machine types of a 32-bit x86 target, the outcomes of
  kernel code that does not return normally, the abstraction of pointer-linked lists to HOL
  lists that every queue of the kernel uses, and facts on words and lists that several
  components need.
\<close>

section \<open>Machine types\<close>

text \<open>
  On the target \<open>int\<close>, \<open>long\<close>, \<open>unsigned\<close> and every pointer are 32 bits wide and
  \<open>char\<close> is 8 bits wide and signed. A value of any of the 32-bit types is a \<open>u32\<close>; where the
  code compares or divides it as a signed number the model reads it with \<open>sint\<close>.
\<close>

type_synonym u8 = "8 word"
type_synonym u32 = "32 word"

text \<open>A \<open>pcb *\<close> is an index into the process table, or NULL.\<close>

type_synonym pptr = "nat option"

section \<open>Outcomes\<close>

text \<open>
  Kernel code that does not come back with a value: it reads or writes through a NULL pointer,
  indexes an array out of its bounds, reaches one of the deliberate endless loops
  \<open>for (;;);\<close>, or walks a cyclic list forever.
\<close>

datatype fault = NullDeref | OutOfBounds | Halt | Diverge

type_synonym 'a kres = "fault + 'a"

text \<open>
  A loop over a linked list is a \<open>partial_function (option)\<close> whose value is \<open>None\<close> exactly
  when the loop never ends.
\<close>

definition loop_res :: "'a option \<Rightarrow> 'a kres" where
  "loop_res r = (case r of None \<Rightarrow> Inl Diverge | Some x \<Rightarrow> Inr x)"

lemma loop_res_simps [simp]:
  "loop_res None = Inl Diverge" "loop_res (Some x) = Inr x"
  by (simp_all add: loop_res_def)

lemma loop_res_eq_Inr [simp]: "loop_res r = Inr x \<longleftrightarrow> r = Some x"
  by (cases r) simp_all

section \<open>Linked lists\<close>

text \<open>
  \<open>chain nx p xs\<close>: following the link field \<open>nx\<close> from \<open>p\<close> visits exactly the nodes \<open>xs\<close>
  and ends at NULL.
\<close>

fun chain :: "('a \<Rightarrow> 'a option) \<Rightarrow> 'a option \<Rightarrow> 'a list \<Rightarrow> bool" where
  "chain nx p [] = (p = None)"
| "chain nx p (x # xs) = (p = Some x \<and> chain nx (nx x) xs)"

text \<open>The first \<open>n\<close> nodes reached from \<open>p\<close>: the executable abstraction of a chain.\<close>

fun walk :: "nat \<Rightarrow> ('a \<Rightarrow> 'a option) \<Rightarrow> 'a option \<Rightarrow> 'a list" where
  "walk 0 nx p = []"
| "walk (Suc n) nx p = (case p of None \<Rightarrow> [] | Some x \<Rightarrow> x # walk n nx (nx x))"

named_theorems chain_simps \<open>rewriting chains under updates of the link field\<close>

lemma chain_None [simp]: "chain nx None xs \<longleftrightarrow> xs = []"
  by (cases xs) auto

lemma chain_Some: "chain nx (Some x) xs \<longleftrightarrow> (\<exists>ys. xs = x # ys \<and> chain nx (nx x) ys)"
  by (cases xs) auto

lemma chain_unique: "chain nx p xs \<Longrightarrow> chain nx p ys \<Longrightarrow> xs = ys"
  by (induction xs arbitrary: p ys) (auto simp: chain_Some)

lemma chain_cong: "(\<And>x. x \<in> set xs \<Longrightarrow> nx x = nx' x) \<Longrightarrow> chain nx p xs = chain nx' p xs"
  by (induction xs arbitrary: p) auto

lemma chain_upd [chain_simps]: "a \<notin> set xs \<Longrightarrow> chain (nx(a := v)) p xs = chain nx p xs"
  by (rule chain_cong) auto

lemma chain_split: "chain nx p (us @ a # vs) \<Longrightarrow> chain nx (Some a) (a # vs)"
  by (induction us arbitrary: p) auto

lemma chain_distinct: "chain nx p xs \<Longrightarrow> distinct xs"
proof (induction xs arbitrary: p)
  case Nil
  then show ?case by simp
next
  case (Cons a xs)
  have "a \<notin> set xs"
  proof
    assume "a \<in> set xs"
    then obtain us vs where xs: "xs = us @ a # vs" by (meson split_list)
    from Cons.prems have "chain nx p ((a # us) @ a # vs)" and p: "p = Some a"
      by (simp_all add: xs)
    then have "chain nx (Some a) (a # vs)" by (rule_tac chain_split)
    moreover from Cons.prems p have "chain nx (Some a) (a # xs)" by simp
    ultimately have "a # vs = a # xs" by (rule_tac chain_unique)
    with xs show False by simp
  qed
  with Cons show ?case by auto
qed

lemma chain_snoc:
  assumes "chain nx p xs" and "y \<notin> set xs" and "xs \<noteq> []"
  shows "chain (nx(y := None, last xs := Some y)) p (xs @ [y])"
  using assms(1) chain_distinct [OF assms(1)] assms(2,3)
proof (induction xs arbitrary: p)
  case Nil
  then show ?case by simp
next
  case (Cons a xs)
  show ?case
  proof (cases "xs = []")
    case True
    with Cons.prems show ?thesis by simp
  next
    case False
    with Cons.prems have "last xs \<noteq> a" by (metis distinct.simps(2) last_in_set)
    with Cons False show ?thesis by (auto simp: fun_upd_twist)
  qed
qed

lemma chain_remove:
  assumes "chain nx p (xs @ [a, b] @ ys)"
  shows "chain (nx(a := nx b)) p (xs @ [a] @ ys)"
  using assms chain_distinct [OF assms] by (induction xs arbitrary: p) (auto simp: chain_simps)

lemma chain_insert:
  assumes "chain nx p (xs @ [a] @ ys)" and "b \<notin> set (xs @ [a] @ ys)"
  shows "chain (nx(b := nx a, a := Some b)) p (xs @ [a, b] @ ys)"
  using assms chain_distinct [OF assms(1)] by (induction xs arbitrary: p) (auto simp: chain_simps)

lemma chain_walk: "chain nx p xs \<Longrightarrow> length xs \<le> n \<Longrightarrow> walk n nx p = xs"
proof (induction n arbitrary: p xs)
  case 0
  then show ?case by simp
next
  case (Suc n)
  then show ?case by (cases xs) auto
qed

lemma find_SomeD: "find P xs = Some x \<Longrightarrow> x \<in> set xs \<and> P x"
  by (auto simp: find_Some_iff)

section \<open>Words\<close>

lemma unat_u32_less: "unat (x :: u32) < 4294967296"
proof -
  have "unat x < 2 ^ LENGTH(32)" by (rule unsigned_less)
  then show ?thesis by simp
qed

lemma unat_of_nat_u32 [simp]: "n < 2 ^ 32 \<Longrightarrow> unat (of_nat n :: u32) = n"
  by (simp add: unat_of_nat)

end
