(* ===== verification/Pcb.thy ===== *)
theory Pcb
  imports Prelude
begin

text \<open>
  The declarations of \<open>h/xeroskernel.h\<close> that the kernel's components share: limits, process
  states, the device and process control structures, the frames a process stack holds, and the
  scheduler's state (the process table of \<open>create.c\<close> with the queue heads of \<open>disp.c\<close> and
  \<open>sleep.c\<close>). The constants are simplifier rules: a proof sees their values.
\<close>

section \<open>Constants\<close>

definition MAX_PROC :: nat where [simp]: "MAX_PROC = 64"
definition MAX_DEV :: nat where [simp]: "MAX_DEV = 3"
definition MAX_SIG :: nat where [simp]: "MAX_SIG = 32"
definition MAX_FDT :: nat where [simp]: "MAX_FDT = 4"
definition PROC_STACK :: u32 where [simp]: "PROC_STACK = 16384"
definition MILLISECONDS_TICK :: u32 where [simp]: "MILLISECONDS_TICK = 10"
definition CREATE_FAILURE :: u32 where [simp]: "CREATE_FAILURE = - 1"

definition STATE_STOPPED :: u32 where [simp]: "STATE_STOPPED = 0"
definition STATE_READY :: u32 where [simp]: "STATE_READY = 1"
definition STATE_WAIT :: u32 where [simp]: "STATE_WAIT = 21"
definition STATE_SLEEP :: u32 where [simp]: "STATE_SLEEP = 22"
definition STATE_RUNNING :: u32 where [simp]: "STATE_RUNNING = 23"
definition STATE_BLOCKED :: u32 where [simp]: "STATE_BLOCKED = 24"

definition fd_OPEN :: u32 where [simp]: "fd_OPEN = 1"
definition fd_CLOSE :: u32 where [simp]: "fd_CLOSE = 0"
definition ECHO_ON :: u32 where [simp]: "ECHO_ON = 1"
definition ECHO_OFF :: u32 where [simp]: "ECHO_OFF = 0"

section \<open>Structures\<close>

text \<open>
  A \<open>devsw\<close> holds five function pointers. Each points to the routine of one driver family, so
  a pointer is the family's name; \<open>None\<close> is the null pointer of a table entry no
  initialisation has filled. A \<open>devsw *\<close> is an index into \<open>devtable\<close>.
\<close>

datatype driver = ZeroDrv | RandDrv | KbdDrv

record devsw =
  dvnum :: u32
  dvopen :: "driver option"
  dvclose :: "driver option"
  dvread :: "driver option"
  dvwrite :: "driver option"
  dvioctl :: "driver option"

record fdStruct =
  device :: "nat option"
  status :: u32
  dataBuffer :: u32

record pcb =
  esp :: u32
  pnext :: pptr
  pprev :: pptr
  state :: u32
  pid :: u32
  ret :: u32
  args :: u32
  otherpid :: u32
  buffer :: u32
  bufferlen :: u32
  sleepdiff :: u32
  cpuTime :: u32
  sigtab :: "nat \<Rightarrow> u32"
  sigmask :: u32
  currSigLvl :: u32
  waitpid :: u32
  fdt :: "nat \<Rightarrow> fdStruct"

record processStatuses =
  ps_entries :: u32
  ps_pid :: "nat \<Rightarrow> u32"
  ps_status :: "nat \<Rightarrow> u32"
  ps_cpuTime :: "nat \<Rightarrow> u32"

text \<open>
  The saved registers of a process, at the address its \<open>esp\<close> holds, and the block of
  \<open>sigtramp\<close> arguments a signal pushes. \<open>cf_returnAddr\<close> is the word after the interrupt
  frame, where \<open>create\<close> leaves the address a process function returns to.
\<close>

record context_frame =
  cf_edi :: u32
  cf_esi :: u32
  cf_ebp :: u32
  cf_esp :: u32
  cf_ebx :: u32
  cf_edx :: u32
  cf_ecx :: u32
  cf_eax :: u32
  cf_iret_eip :: u32
  cf_iret_cs :: u32
  cf_eflags :: u32
  cf_returnAddr :: u32

record signal_frame =
  sf_return_useless :: u32
  sf_handler :: u32
  sf_cf :: u32
  sf_old_sp :: u32
  sf_old_ret :: u32
  sf_sigLvl :: u32

section \<open>Platform\<close>

text \<open>
  What the kernel takes from its start-up code, from \<open>i386.h\<close> and from the linker: the bounds of
  free memory and of the hole below the first megabyte's end, the kernel code segment, and the
  addresses of the two functions whose address the kernel stores in a frame.
\<close>

record platform =
  freemem :: u32
  maxaddr :: u32
  HOLESTART :: u32
  HOLEEND :: u32
  getCS :: u32
  addr_sysstop :: u32
  addr_sigtramp :: u32

text \<open>The address check the system calls share: in the hole, or beyond the end of memory.\<close>

definition bad_addr :: "platform \<Rightarrow> u32 \<Rightarrow> bool" where
  "bad_addr pl a \<longleftrightarrow> (HOLESTART pl \<le> a \<and> a \<le> HOLEEND pl) \<or> maxaddr pl < a"

section \<open>Scheduler state\<close>

record sched =
  proctab :: "nat \<Rightarrow> pcb"
  head :: pptr
  tail :: pptr
  sleepQ :: pptr

text \<open>\<open>set_pcb s i f\<close> is the assignment of some fields of \<open>proctab[i]\<close>.\<close>

definition set_pcb :: "sched \<Rightarrow> nat \<Rightarrow> (pcb \<Rightarrow> pcb) \<Rightarrow> sched" where
  "set_pcb s i f = s\<lparr>proctab := (proctab s)(i := f (proctab s i))\<rparr>"

definition zero_fd :: fdStruct where
  "zero_fd = \<lparr>device = None, status = 0, dataBuffer = 0\<rparr>"

definition zero_pcb :: pcb where
  "zero_pcb = \<lparr>esp = 0, pnext = None, pprev = None, state = 0, pid = 0, ret = 0, args = 0,
     otherpid = 0, buffer = 0, bufferlen = 0, sleepdiff = 0, cpuTime = 0, sigtab = (\<lambda>_. 0),
     sigmask = 0, currSigLvl = 0, waitpid = 0, fdt = (\<lambda>_. zero_fd)\<rparr>"

lemma set_pcb_simps [simp]:
  "proctab (set_pcb s i f) = (proctab s)(i := f (proctab s i))"
  "head (set_pcb s i f) = head s" "tail (set_pcb s i f) = tail s"
  "sleepQ (set_pcb s i f) = sleepQ s"
  by (simp_all add: set_pcb_def)

text \<open>The link field of the queues, as \<open>chain\<close> and \<open>walk\<close> follow it.\<close>

definition nxt :: "sched \<Rightarrow> nat \<Rightarrow> pptr" where
  "nxt s i = pnext (proctab s i)"

lemma nxt_set_pcb: "nxt (set_pcb s i f) = (nxt s)(i := pnext (f (proctab s i)))"
  by (auto simp: nxt_def)

lemma nxt_globals [simp]:
  "nxt (s\<lparr>head := h\<rparr>) = nxt s" "nxt (s\<lparr>tail := h\<rparr>) = nxt s" "nxt (s\<lparr>sleepQ := h\<rparr>) = nxt s"
  by (auto simp: nxt_def)

end
