(* ===== verification/Mem.thy ===== *)
theory Mem
  imports Pcb
begin

text \<open>
  The memory manager of \<open>c/mem.c\<close>. Free blocks form a doubly linked list of headers that live in
  the managed memory itself; \<open>memSlot\<close> points at one of them. The model keeps the headers in a
  typed heap \<open>hdrs\<close> from addresses to headers: every header the code touches is at a multiple of
  16, the header size, so that two headers are the same or do not overlap.
\<close>

section \<open>Operations\<close>

record memHeader =
  mh_size :: u32
  mh_prev :: u32
  mh_next :: u32
  sanityCheck :: u32

record memstate =
  memSlot :: u32
  hdrs :: "u32 \<Rightarrow> memHeader"

definition sizeof_memHeader :: u32 where [simp]: "sizeof_memHeader = 16"

definition set_hdr :: "memstate \<Rightarrow> u32 \<Rightarrow> (memHeader \<Rightarrow> memHeader) \<Rightarrow> memstate" where
  "set_hdr s a f = s\<lparr>hdrs := (hdrs s)(a := f (hdrs s a))\<rparr>"

definition aligned :: "u32 \<Rightarrow> u32" where
  "aligned addr = (let remainder = addr mod 16 in
     if remainder \<noteq> 0 then addr + 16 - addr mod 16 else addr)"

definition completeHeader :: "memstate \<Rightarrow> u32 \<Rightarrow> u32 \<Rightarrow> u32 \<Rightarrow> u32 \<Rightarrow> memstate" where
  "completeHeader s newHeader sz prev next' =
     set_hdr s newHeader (\<lambda>h. h\<lparr>mh_size := sz, mh_prev := prev, mh_next := next',
       sanityCheck := sz + 16\<rparr>)"

definition kmeminit :: "platform \<Rightarrow> memstate \<Rightarrow> memstate" where
  "kmeminit pl s =
    (let beforeHole = aligned (freemem pl);
         bsize = HOLESTART pl - aligned (freemem pl) - sizeof_memHeader;
         s1 = set_hdr s beforeHole (\<lambda>h. h\<lparr>mh_size := bsize, mh_prev := 0, mh_next := HOLEEND pl,
                sanityCheck := bsize + 16\<rparr>);
         afterHole = mh_next (hdrs s1 beforeHole);
         asize = maxaddr pl - HOLEEND pl - sizeof_memHeader;
         s2 = set_hdr s1 afterHole (\<lambda>h. h\<lparr>mh_size := asize, mh_prev := beforeHole, mh_next := 0,
                sanityCheck := asize + 16\<rparr>)
     in s2\<lparr>memSlot := beforeHole\<rparr>)"

text \<open>
  The self-test \<open>kmeminit\<close> ends with: the numbers, in order, of the checks that print an error.
\<close>

definition kmeminit_report :: "platform \<Rightarrow> memstate \<Rightarrow> nat list" where
  "kmeminit_report pl s =
    (let b = aligned (freemem pl); a = mh_next (hdrs s b) in
     map fst (filter snd
       [(1, b \<noteq> aligned (freemem pl)),
        (2, mh_size (hdrs s b) \<noteq> HOLESTART pl - aligned (freemem pl) - 16),
        (3, mh_prev (hdrs s b) \<noteq> 0),
        (4, mh_next (hdrs s b) \<noteq> 0x196000),
        (5, b + sizeof_memHeader \<noteq> aligned (freemem pl) + sizeof_memHeader),
        (6, a \<noteq> 0x196000),
        (7, mh_size (hdrs s a) \<noteq> 0x269FEF),
        (8, mh_prev (hdrs s a) \<noteq> b),
        (9, mh_next (hdrs s a) \<noteq> 0),
        (10, a + sizeof_memHeader \<noteq> 0x196010),
        (11, memSlot s \<noteq> b)]))"

text \<open>\<open>kmalloc\<close>, the case where the request leaves room: split block \<open>cur\<close>.\<close>

definition kmalloc_split :: "memstate \<Rightarrow> u32 \<Rightarrow> u32 \<Rightarrow> u32 \<times> memstate" where
  "kmalloc_split s req_size cur =
    (let newHeader = cur + sizeof_memHeader + req_size;
         s1 = completeHeader s newHeader (mh_size (hdrs s cur) - req_size)
                (mh_prev (hdrs s cur)) (mh_next (hdrs s cur));
         s2 = set_hdr s1 cur (\<lambda>h. h\<lparr>mh_size := req_size, sanityCheck := req_size + 16\<rparr>);
         s3 = (if mh_next (hdrs s2 cur) \<noteq> 0
               then set_hdr s2 (mh_next (hdrs s2 cur)) (\<lambda>h. h\<lparr>mh_prev := newHeader\<rparr>) else s2);
         s4 = (if mh_prev (hdrs s3 cur) \<noteq> 0
               then set_hdr s3 (mh_prev (hdrs s3 cur)) (\<lambda>h. h\<lparr>mh_next := newHeader\<rparr>) else s3)
     in (cur + sizeof_memHeader, s4\<lparr>memSlot := newHeader\<rparr>))"

text \<open>\<open>kmalloc\<close>, the case where the request takes the whole of block \<open>cur\<close>.\<close>

definition kmalloc_take :: "memstate \<Rightarrow> u32 \<Rightarrow> u32 \<times> memstate" where
  "kmalloc_take s cur =
    (let p = mh_prev (hdrs s cur); n = mh_next (hdrs s cur);
         s' = (if p = 0 \<and> n = 0 then s\<lparr>memSlot := 0\<rparr>
               else if p = 0 then set_hdr (s\<lparr>memSlot := n\<rparr>) n (\<lambda>h. h\<lparr>mh_prev := 0\<rparr>)
               else if n \<noteq> 0 then
                 set_hdr (set_hdr (s\<lparr>memSlot := p\<rparr>) p (\<lambda>h. h\<lparr>mh_next := n\<rparr>))
                   n (\<lambda>h. h\<lparr>mh_prev := p\<rparr>)
               else set_hdr (s\<lparr>memSlot := p\<rparr>) p (\<lambda>h. h\<lparr>mh_next := 0\<rparr>))
     in (cur + sizeof_memHeader, s'))"

partial_function (option) kmalloc_loop :: "memstate \<Rightarrow> u32 \<Rightarrow> u32 \<Rightarrow> (u32 \<times> memstate) option" where
  "kmalloc_loop s req_size cur =
    (if cur = 0 then Some (0, s)
     else if req_size + sizeof_memHeader < mh_size (hdrs s cur) then Some (kmalloc_split s req_size cur)
     else if req_size \<le> mh_size (hdrs s cur) then Some (kmalloc_take s cur)
     else kmalloc_loop s req_size (mh_next (hdrs s cur)))"

definition kmalloc :: "memstate \<Rightarrow> u32 \<Rightarrow> (u32 \<times> memstate) kres" where
  "kmalloc s sz =
    (let req_size = aligned sz in
     if req_size = 0 \<or> memSlot s = 0 then Inr (0, s)
     else loop_res (kmalloc_loop s req_size (memSlot s)))"

text \<open>
  \<open>kfree\<close>. The expression \<open>curr + curr->size + sizeof(struct memHeader)\<close> is pointer arithmetic on
  a \<open>struct memHeader *\<close>: each unit is 16 bytes.
\<close>

definition hdr_plus :: "u32 \<Rightarrow> u32 \<Rightarrow> u32" where
  "hdr_plus a n = a + sizeof_memHeader * n"

text \<open>The new header goes to the end of the list, after \<open>cur\<close>: cases C and D.\<close>

definition kfree_last :: "memstate \<Rightarrow> u32 \<Rightarrow> u32 \<Rightarrow> memstate" where
  "kfree_last s ptrHeader cur =
    (if ptrHeader = hdr_plus (hdr_plus cur (mh_size (hdrs s cur))) sizeof_memHeader then
       let newSize = mh_size (hdrs s ptrHeader) + mh_size (hdrs s cur) + sizeof_memHeader
       in set_hdr s cur (\<lambda>h. h\<lparr>mh_size := newSize, sanityCheck := newSize + 16\<rparr>)
     else
       set_hdr (completeHeader s ptrHeader (mh_size (hdrs s ptrHeader)) cur 0)
         cur (\<lambda>h. h\<lparr>mh_next := ptrHeader\<rparr>))"

text \<open>The new header goes between \<open>cur\<close> and its successor: cases E to H.\<close>

definition kfree_between :: "memstate \<Rightarrow> u32 \<Rightarrow> u32 \<Rightarrow> memstate" where
  "kfree_between s ptrHeader cur =
    (let currEndAddr = hdr_plus (hdr_plus cur (mh_size (hdrs s cur))) sizeof_memHeader;
         ptrEndAddr = ptrHeader + sizeof_memHeader + mh_size (hdrs s ptrHeader);
         temp = mh_next (hdrs s cur);
         tempNext = mh_next (hdrs s temp)
     in if currEndAddr = ptrHeader \<and> ptrEndAddr = temp then
          let newSize = mh_size (hdrs s cur) + mh_size (hdrs s ptrHeader) + mh_size (hdrs s temp)
                + 2 * sizeof_memHeader
          in if tempNext \<noteq> 0 then
               set_hdr (completeHeader s cur newSize (mh_prev (hdrs s cur)) tempNext)
                 tempNext (\<lambda>h. h\<lparr>mh_prev := cur\<rparr>)
             else completeHeader s cur newSize (mh_prev (hdrs s cur)) 0
        else if currEndAddr = ptrHeader then
          let newSize = mh_size (hdrs s cur) + mh_size (hdrs s ptrHeader) + sizeof_memHeader
          in set_hdr s cur (\<lambda>h. h\<lparr>mh_size := newSize, sanityCheck := newSize + 16\<rparr>)
        else if ptrEndAddr = temp then
          let newSize = mh_size (hdrs s ptrHeader) + mh_size (hdrs s temp) + sizeof_memHeader;
              s1 = set_hdr s cur (\<lambda>h. h\<lparr>mh_next := ptrHeader\<rparr>)
          in if tempNext \<noteq> 0 then
               completeHeader (set_hdr s1 tempNext (\<lambda>h. h\<lparr>mh_prev := ptrHeader\<rparr>))
                 ptrHeader newSize cur tempNext
             else completeHeader s1 ptrHeader newSize cur 0
        else
          let s1 = completeHeader s ptrHeader (mh_size (hdrs s ptrHeader)) cur temp;
              s2 = set_hdr s1 cur (\<lambda>h. h\<lparr>mh_next := ptrHeader\<rparr>)
          in set_hdr s2 temp (\<lambda>h. h\<lparr>mh_prev := ptrHeader\<rparr>))"

partial_function (option) kfree_loop :: "memstate \<Rightarrow> u32 \<Rightarrow> u32 \<Rightarrow> (u32 \<times> memstate) option" where
  "kfree_loop s ptrHeader cur =
    (if cur = 0 then Some (0, s)
     else if mh_next (hdrs s cur) = 0 then Some (1, kfree_last s ptrHeader cur)
     else if ptrHeader < mh_next (hdrs s cur) then Some (1, kfree_between s ptrHeader cur)
     else kfree_loop s ptrHeader (mh_next (hdrs s cur)))"

definition kfree_invalid :: "platform \<Rightarrow> u32 \<Rightarrow> bool" where
  "kfree_invalid pl ptr \<longleftrightarrow> ptr < aligned (freemem pl) \<or>
     (HOLESTART pl < ptr \<and> ptr < HOLEEND pl) \<or> ptr \<noteq> aligned ptr \<or> maxaddr pl < ptr"

definition kfree :: "platform \<Rightarrow> memstate \<Rightarrow> u32 \<Rightarrow> (u32 \<times> memstate) kres" where
  "kfree pl s ptr =
    (if kfree_invalid pl ptr then Inr (0, s)
     else
       let ptrHeader = ptr - sizeof_memHeader in
       if sanityCheck (hdrs s ptrHeader) \<noteq> mh_size (hdrs s ptrHeader) + 16 then Inr (0, s)
       else
         let cur = memSlot s in
         if ptrHeader < cur then
           if ptr + mh_size (hdrs s ptrHeader) = cur then
             let newSize = mh_size (hdrs s ptrHeader) + mh_size (hdrs s cur) + sizeof_memHeader;
                 s1 = completeHeader s ptrHeader newSize 0 (mh_next (hdrs s cur));
                 tmp = mh_next (hdrs s1 cur)
             in if tmp = 0 then Inl NullDeref
                else Inr (1, (set_hdr s1 tmp (\<lambda>h. h\<lparr>mh_prev := ptrHeader\<rparr>))\<lparr>memSlot := ptrHeader\<rparr>)
           else
             let s1 = completeHeader s ptrHeader (mh_size (hdrs s ptrHeader)) 0 cur
             in Inr (1, (set_hdr s1 cur (\<lambda>h. h\<lparr>mh_prev := ptrHeader\<rparr>))\<lparr>memSlot := ptrHeader\<rparr>)
         else if cur < ptrHeader then loop_res (kfree_loop s ptrHeader cur)
         else Inr (0, s))"

lemma set_hdr_simps [simp]:
  "hdrs (set_hdr s a f) = (hdrs s)(a := f (hdrs s a))" "memSlot (set_hdr s a f) = memSlot s"
  by (simp_all add: set_hdr_def)

section \<open>Alignment\<close>

lemma aligned_of_nat:
  "aligned a = of_nat (if unat a mod 16 = 0 then unat a else unat a + 16 - unat a mod 16)"
proof (cases "unat a mod 16 = 0")
  case True
  then have "a mod 16 = 0" by (simp add: unat_mod flip: unat_eq_0)
  with True show ?thesis by (simp add: aligned_def)
next
  case False
  then have "a mod 16 \<noteq> 0" by (simp add: unat_mod flip: unat_eq_0)
  moreover have "a mod 16 = of_nat (unat a mod 16)"
    by (simp add: word_arith_nat_mod)
  moreover have "of_nat (unat a + 16 - unat a mod 16) = (of_nat (unat a + 16) - of_nat (unat a mod 16) :: u32)"
    by (rule of_nat_diff) (simp add: trans_le_add2 less_imp_le)
  ultimately show ?thesis using False by (simp add: aligned_def)
qed

lemma unat_aligned:
  "unat (aligned a) = (if unat a \<le> 4294967280 then (unat a + 15) div 16 * 16 else 0)"
proof -
  have eq: "(if n mod 16 = 0 then n else n + 16 - n mod 16) = (n + 15) div 16 * 16" for n :: nat
  proof -
    obtain k r where n: "n = 16 * k + r" "r < 16"
      by (metis mod_less_divisor mult_div_mod_eq zero_less_numeral)
    show ?thesis
    proof (cases "r = 0")
      case False
      with n(2) have "(16 * k + r + 15) div 16 = k + 1" by (intro div_nat_eqI) simp_all
      with False n show ?thesis by simp
    qed (simp add: n)
  qed
  have "unat (aligned a) = ((unat a + 15) div 16 * 16) mod 4294967296"
    unfolding aligned_of_nat eq by (subst unat_of_nat) simp
  also have "\<dots> = (if unat a \<le> 4294967280 then (unat a + 15) div 16 * 16 else 0)"
  proof (cases "unat a \<le> 4294967280")
    case True
    then have "(unat a + 15) div 16 * 16 \<le> 4294967280" by presburger
    with True show ?thesis by simp
  next
    case False
    with unat_u32_less [of a] have "(unat a + 15) div 16 = 268435456" by presburger
    with False show ?thesis by simp
  qed
  finally show ?thesis .
qed

section \<open>Doubly linked lists of headers\<close>

text \<open>
  \<open>dll h p xs q\<close>: the headers at \<open>xs\<close> are linked both ways, the first one back to \<open>p\<close> and the last
  one on to \<open>q\<close>.
\<close>

fun dll :: "(u32 \<Rightarrow> memHeader) \<Rightarrow> u32 \<Rightarrow> u32 list \<Rightarrow> u32 \<Rightarrow> bool" where
  "dll h p [] q = True"
| "dll h p (a # as) q = (mh_prev (h a) = p \<and> mh_next (h a) = (if as = [] then q else hd as) \<and> dll h a as q)"

abbreviation (input) fst_of :: "u32 list \<Rightarrow> u32 \<Rightarrow> u32" where
  "fst_of xs q \<equiv> (if xs = [] then q else hd xs)"

abbreviation (input) lst_of :: "u32 \<Rightarrow> u32 list \<Rightarrow> u32" where
  "lst_of p xs \<equiv> (if xs = [] then p else last xs)"

lemma dll_append: "dll h p (us @ vs) q \<longleftrightarrow> dll h p us (fst_of vs q) \<and> dll h (lst_of p us) vs q"
  by (induction us arbitrary: p) auto

lemma dll_cong:
  "(\<And>a. a \<in> set xs \<Longrightarrow> mh_prev (h' a) = mh_prev (h a) \<and> mh_next (h' a) = mh_next (h a)) \<Longrightarrow>
   dll h' p xs q = dll h p xs q"
  by (induction xs arbitrary: p) auto

lemma dll_set_next:
  "dll h p us q \<Longrightarrow> distinct us \<Longrightarrow> us \<noteq> [] \<Longrightarrow>
   mh_next (h' (last us)) = q' \<Longrightarrow> mh_prev (h' (last us)) = mh_prev (h (last us)) \<Longrightarrow>
   (\<And>a. a \<in> set us \<Longrightarrow> a \<noteq> last us \<Longrightarrow> h' a = h a) \<Longrightarrow> dll h' p us q'"
proof (induction us arbitrary: p)
  case (Cons a us)
  show ?case
  proof (cases "us = []")
    case False
    with Cons.prems have "last us \<noteq> a" by (metis distinct.simps(2) last_in_set)
    with Cons False show ?thesis by auto
  qed (use Cons in auto)
qed simp

lemma dll_set_prev:
  "dll h p vs q \<Longrightarrow> distinct vs \<Longrightarrow> vs \<noteq> [] \<Longrightarrow>
   mh_prev (h' (hd vs)) = p' \<Longrightarrow> mh_next (h' (hd vs)) = mh_next (h (hd vs)) \<Longrightarrow>
   (\<And>a. a \<in> set vs \<Longrightarrow> a \<noteq> hd vs \<Longrightarrow> h' a = h a) \<Longrightarrow> dll h' p' vs q"
proof (cases vs)
  case (Cons v ws)
  assume h: "dll h p vs q" "distinct vs" "mh_prev (h' (hd vs)) = p'"
    "mh_next (h' (hd vs)) = mh_next (h (hd vs))" "\<And>a. a \<in> set vs \<Longrightarrow> a \<noteq> hd vs \<Longrightarrow> h' a = h a"
  have "h' a = h a" if "a \<in> set ws" for a using that h(2) h(5) [of a] Cons by auto
  then have "dll h' v ws q = dll h v ws q" by (intro dll_cong) simp
  with h Cons show ?thesis by simp
qed simp

section \<open>The free list\<close>

text \<open>
  A block is its header and the \<open>mh_size\<close> bytes after it. \<open>fl k s zs\<close>: the free blocks are \<open>zs\<close>,
  linked both ways in the order of their addresses, with aligned intact headers, and there are at
  least \<open>k\<close> spare headers' worth of bytes after the end of each block, before the next block or the
  end of the address space; \<open>memSlot\<close> points at one of them, or is NULL when there is none.
\<close>

definition blk_end :: "(u32 \<Rightarrow> memHeader) \<Rightarrow> u32 \<Rightarrow> nat" where
  "blk_end h a = unat a + 16 + unat (mh_size (h a))"

definition hdr_ok :: "(u32 \<Rightarrow> memHeader) \<Rightarrow> u32 \<Rightarrow> bool" where
  "hdr_ok h a \<longleftrightarrow> a \<noteq> 0 \<and> unat a mod 16 = 0 \<and> sanityCheck (h a) = mh_size (h a) + 16"

definition fl :: "nat \<Rightarrow> memstate \<Rightarrow> u32 list \<Rightarrow> bool" where
  "fl k s zs \<longleftrightarrow> dll (hdrs s) 0 zs 0 \<and>
     (\<forall>a \<in> set zs. hdr_ok (hdrs s) a \<and> blk_end (hdrs s) a + 16 * k < 4294967296) \<and>
     sorted_wrt (\<lambda>a b. blk_end (hdrs s) a + 16 * k \<le> unat b) zs \<and>
     (if zs = [] then memSlot s = 0 else memSlot s \<in> set zs)"

text \<open>
  A block in use: its header is intact and it overlaps none of the free blocks \<open>zs\<close>, with at least
  \<open>k\<close> spare headers' worth of bytes after the end of a free block below it. An allocation of \<open>n\<close>
  bytes at \<open>r\<close> is such a block that holds at least \<open>n\<close> bytes.
\<close>

definition owned :: "nat \<Rightarrow> (u32 \<Rightarrow> memHeader) \<Rightarrow> u32 list \<Rightarrow> u32 \<Rightarrow> bool" where
  "owned k h zs b \<longleftrightarrow> hdr_ok h b \<and> blk_end h b < 4294967296 \<and>
     (\<forall>z \<in> set zs. blk_end h b \<le> unat z \<or> blk_end h z + 16 * k \<le> unat b)"

definition alloc_ok :: "nat \<Rightarrow> (u32 \<Rightarrow> memHeader) \<Rightarrow> u32 list \<Rightarrow> u32 \<Rightarrow> nat \<Rightarrow> bool" where
  "alloc_ok k h zs r n \<longleftrightarrow> unat r = unat (r - 16) + 16 \<and> owned k h zs (r - 16) \<and>
     n \<le> unat (mh_size (h (r - 16)))"

definition disjnt_blk :: "(u32 \<Rightarrow> memHeader) \<Rightarrow> u32 \<Rightarrow> u32 \<Rightarrow> bool" where
  "disjnt_blk h a b \<longleftrightarrow> blk_end h a \<le> unat b \<or> blk_end h b \<le> unat a"

lemma sorted_wrt_blocks_distinct:
  "sorted_wrt (\<lambda>a b. blk_end h a + m \<le> unat b) zs \<Longrightarrow> distinct zs"
  by (induction zs) (auto simp: blk_end_def)

lemma fl_distinct: "fl k s zs \<Longrightarrow> distinct zs"
  by (auto simp: fl_def intro: sorted_wrt_blocks_distinct)

lemma fl_links:
  assumes "fl k s (us @ c # vs)"
  shows "mh_prev (hdrs s c) = lst_of 0 us" "mh_next (hdrs s c) = fst_of vs 0"
    "dll (hdrs s) 0 us c" "dll (hdrs s) c vs 0"
  using assms by (simp_all add: fl_def dll_append)

lemma fl_nonzero: "fl k s zs \<Longrightarrow> a \<in> set zs \<Longrightarrow> a \<noteq> 0"
  by (auto simp: fl_def hdr_ok_def)

lemma fl_blk: "fl k s zs \<Longrightarrow> a \<in> set zs \<Longrightarrow> hdr_ok (hdrs s) a \<and> blk_end (hdrs s) a + 16 * k < 4294967296"
  unfolding fl_def by blast

lemma kmalloc_loop_eq:
  assumes "dll (hdrs s) p xs 0" and "\<forall>a \<in> set xs. a \<noteq> 0"
  shows "kmalloc_loop s req (fst_of xs 0) =
    Some (case find (\<lambda>c. req + 16 < mh_size (hdrs s c) \<or> req \<le> mh_size (hdrs s c)) xs of
            None \<Rightarrow> (0, s)
          | Some c \<Rightarrow> if req + 16 < mh_size (hdrs s c) then kmalloc_split s req c else kmalloc_take s c)"
  using assms
proof (induction xs arbitrary: p)
  case Nil
  show ?case by (subst kmalloc_loop.simps) simp
next
  case (Cons x xs)
  from Cons.prems Cons.IH [of x] have
    ih: "kmalloc_loop s req (mh_next (hdrs s x)) =
     Some (case find (\<lambda>c. req + 16 < mh_size (hdrs s c) \<or> req \<le> mh_size (hdrs s c)) xs of
            None \<Rightarrow> (0, s)
          | Some c \<Rightarrow> if req + 16 < mh_size (hdrs s c) then kmalloc_split s req c else kmalloc_take s c)"
    by simp
  from Cons.prems(2) have "x \<noteq> 0" by simp
  then show ?case by (simp add: kmalloc_loop.simps [of s req x] ih)
qed

text \<open>
  Putting the block \<open>n\<close> between two parts of a free list, in place of what was between them.
\<close>

lemma dll_replace:
  assumes "dll h 0 us c" and "dll h c' vs 0" and "distinct (us @ vs)"
    and "\<And>a. a \<in> set (us @ vs) \<Longrightarrow> a \<noteq> lst_of 0 us \<Longrightarrow> a \<noteq> fst_of vs 0 \<Longrightarrow> h' a = h a"
    and "us \<noteq> [] \<Longrightarrow> mh_next (h' (last us)) = n \<and> mh_prev (h' (last us)) = mh_prev (h (last us))"
    and "vs \<noteq> [] \<Longrightarrow> mh_prev (h' (hd vs)) = n \<and> mh_next (h' (hd vs)) = mh_next (h (hd vs))"
    and "0 \<notin> set (us @ vs)"
    and "mh_prev (h' n) = lst_of 0 us" and "mh_next (h' n) = fst_of vs 0"
  shows "dll h' 0 (us @ n # vs) 0"
proof -
  from assms(3) have dj: "us \<noteq> [] \<Longrightarrow> last us \<notin> set vs"
    by (metis disjoint_iff distinct_append last_in_set)
  have "dll h' 0 us n"
  proof (cases "us = []")
    case False
    have eq: "h' a = h a" if "a \<in> set us" "a \<noteq> last us" for a
      using assms(3,7) that False by (intro assms(4)) (auto split: if_splits)
    from assms(3) have "distinct us" by simp
    from dll_set_next [OF assms(1) this False] assms(5) [OF False] eq show ?thesis by blast
  qed simp
  moreover have "dll h' n vs 0"
  proof (cases "vs = []")
    case False
    have eq: "h' a = h a" if "a \<in> set vs" "a \<noteq> hd vs" for a
      using assms(7) that False dj by (intro assms(4)) (auto split: if_splits)
    from assms(3) have "distinct vs" by simp
    from dll_set_prev [OF assms(2) this False] assms(6) [OF False] eq show ?thesis by blast
  qed simp
  ultimately show ?thesis using assms(8,9) by (simp add: dll_append)
qed

lemma sorted_wrt_mid:
  "sorted_wrt R (us @ c # vs) \<longleftrightarrow>
     sorted_wrt R us \<and> sorted_wrt R vs \<and> (\<forall>u \<in> set us. \<forall>v \<in> set vs. R u v) \<and>
     (\<forall>u \<in> set us. R u c) \<and> (\<forall>v \<in> set vs. R c v)"
  by (auto simp: sorted_wrt_append)

lemma sorted_wrt_cong:
  "(\<And>a b. a \<in> set xs \<Longrightarrow> b \<in> set xs \<Longrightarrow> R a b \<Longrightarrow> R' a b) \<Longrightarrow> sorted_wrt R xs \<Longrightarrow> sorted_wrt R' xs"
  by (induction xs) auto

lemma kmalloc_split_facts:
  assumes n: "n = c + 16 + req" and "n \<notin> {c, mh_prev (hdrs s c), mh_next (hdrs s c)}"
    and "c \<notin> {mh_prev (hdrs s c), mh_next (hdrs s c)}"
  defines "h' \<equiv> hdrs (snd (kmalloc_split s req c))"
  shows "fst (kmalloc_split s req c) = c + 16" and "memSlot (snd (kmalloc_split s req c)) = n"
    and "mh_size (h' n) = mh_size (hdrs s c) - req" and "sanityCheck (h' n) = mh_size (hdrs s c) - req + 16"
    and "mh_prev (h' n) = mh_prev (hdrs s c)" and "mh_next (h' n) = mh_next (hdrs s c)"
    and "mh_size (h' c) = req" and "sanityCheck (h' c) = req + 16"
    and "a \<notin> {n, c} \<Longrightarrow> mh_size (h' a) = mh_size (hdrs s a) \<and> sanityCheck (h' a) = sanityCheck (hdrs s a)"
    and "a \<notin> {n, c, mh_prev (hdrs s c), mh_next (hdrs s c)} \<Longrightarrow> h' a = hdrs s a"
    and "mh_prev (hdrs s c) \<noteq> 0 \<Longrightarrow> mh_prev (hdrs s c) \<noteq> mh_next (hdrs s c) \<Longrightarrow>
      mh_next (h' (mh_prev (hdrs s c))) = n \<and>
      mh_prev (h' (mh_prev (hdrs s c))) = mh_prev (hdrs s (mh_prev (hdrs s c)))"
    and "mh_next (hdrs s c) \<noteq> 0 \<Longrightarrow> mh_prev (hdrs s c) \<noteq> mh_next (hdrs s c) \<Longrightarrow>
      mh_prev (h' (mh_next (hdrs s c))) = n \<and>
      mh_next (h' (mh_next (hdrs s c))) = mh_next (hdrs s (mh_next (hdrs s c)))"
  using assms by (auto simp: kmalloc_split_def completeHeader_def Let_def)

text \<open>The neighbours of a block of the free list.\<close>

lemma fl_neighbours:
  assumes "fl k s (us @ c # vs)"
  shows "c \<notin> {mh_prev (hdrs s c), mh_next (hdrs s c)}"
    and "mh_prev (hdrs s c) \<in> insert 0 (set us)" and "mh_next (hdrs s c) \<in> insert 0 (set vs)"
    and "mh_prev (hdrs s c) \<noteq> 0 \<or> mh_next (hdrs s c) \<noteq> 0 \<Longrightarrow> mh_prev (hdrs s c) \<noteq> mh_next (hdrs s c)"
    and "us \<noteq> [] \<longleftrightarrow> mh_prev (hdrs s c) \<noteq> 0" and "vs \<noteq> [] \<longleftrightarrow> mh_next (hdrs s c) \<noteq> 0"
proof -
  have nz: "0 \<notin> set (us @ c # vs)" using fl_nonzero [OF assms] by metis
  note l = fl_links [OF assms] and d = fl_distinct [OF assms]
  show 1: "mh_prev (hdrs s c) \<in> insert 0 (set us)" "mh_next (hdrs s c) \<in> insert 0 (set vs)"
    by (auto simp: l)
  then show "c \<notin> {mh_prev (hdrs s c), mh_next (hdrs s c)}" using d nz by auto
  show "mh_prev (hdrs s c) \<noteq> mh_next (hdrs s c)"
    if "mh_prev (hdrs s c) \<noteq> 0 \<or> mh_next (hdrs s c) \<noteq> 0"
    using 1 d nz that by auto
  show "us \<noteq> [] \<longleftrightarrow> mh_prev (hdrs s c) \<noteq> 0" "vs \<noteq> [] \<longleftrightarrow> mh_next (hdrs s c) \<noteq> 0"
    using nz by (auto simp: l dest: last_in_set hd_in_set)
qed

lemma owned_apart: "owned k h zs b \<Longrightarrow> z \<in> set zs \<Longrightarrow> blk_end h b \<le> unat z \<or> blk_end h z + 16 * k \<le> unat b"
  unfolding owned_def by blast

lemma alloc_okI:
  assumes "owned k h zs c" and "n \<le> unat (mh_size (h c))"
  shows "alloc_ok k h zs (c + 16) n"
proof -
  from assms(1) have "unat (c + 16) = unat c + 16" by (simp add: owned_def blk_end_def unat_word_ariths)
  with assms show ?thesis by (simp add: alloc_ok_def)
qed

lemma sorted_blocks_replace:
  assumes "sorted_wrt (\<lambda>a b. blk_end h a + 16 * Suc k \<le> unat b) (us @ c # vs)"
    and "\<And>a. a \<in> set us \<or> a \<in> set vs \<Longrightarrow> blk_end h' a = blk_end h a"
    and "unat c \<le> unat n" and "blk_end h' n \<le> blk_end h c + 16"
  shows "sorted_wrt (\<lambda>a b. blk_end h' a + 16 * k \<le> unat b) (us @ n # vs)"
proof -
  have "sorted_wrt (\<lambda>a b. blk_end h' a + 16 * k \<le> unat b) us"
    "sorted_wrt (\<lambda>a b. blk_end h' a + 16 * k \<le> unat b) vs"
    using assms(1,2) unfolding sorted_wrt_mid
    by (auto elim!: sorted_wrt_cong [rotated])
  with assms show ?thesis unfolding sorted_wrt_mid by force
qed

text \<open>
  The geometry of a split: the new header lies inside the old block, and the block it starts ends
  one header's size after the old block's end.
\<close>

lemma kmalloc_split_geometry:
  assumes fl: "fl (Suc k) s (us @ c # vs)" and req: "unat req \<le> 4294967264"
    and fit: "req + 16 < mh_size (hdrs s c)" and n: "n = c + 16 + req"
  defines "h' \<equiv> hdrs (snd (kmalloc_split s req c))"
  shows "unat n = unat c + 16 + unat req" and "unat n \<le> blk_end (hdrs s) c"
    and "n \<noteq> 0" and "n \<notin> set (us @ c # vs)"
    and "n \<notin> {c, mh_prev (hdrs s c), mh_next (hdrs s c)}"
    and "blk_end h' n = blk_end (hdrs s) c + 16" and "blk_end h' c = unat n"
proof -
  from fl have c: "blk_end (hdrs s) c + 16 * Suc k < 4294967296" by (auto simp: fl_def)
  from req have "unat (req + 16) = unat req + 16" by (simp add: unat_word_ariths)
  with fit have fit': "unat req + 16 < unat (mh_size (hdrs s c))" by (simp add: word_less_nat_alt)
  with c show un: "unat n = unat c + 16 + unat req" by (simp add: n blk_end_def unat_word_ariths)
  with fit' show nc: "unat n \<le> blk_end (hdrs s) c" by (simp add: blk_end_def)
  from un show nz: "n \<noteq> 0" by auto
  have "sorted_wrt (\<lambda>a b. blk_end (hdrs s) a + 16 * Suc k \<le> unat b) (us @ c # vs)"
    using fl by (simp add: fl_def)
  then have "unat a < unat n \<or> unat n < unat a" if "a \<in> set (us @ c # vs)" for a
    using that un nc unfolding sorted_wrt_mid by (fastforce simp: blk_end_def)
  then show notin: "n \<notin> set (us @ c # vs)" by blast
  note nb = fl_neighbours [OF fl]
  from notin nz nb show nn: "n \<notin> {c, mh_prev (hdrs s c), mh_next (hdrs s c)}" by auto
  note f = kmalloc_split_facts [OF n nn nb(1)]
  have "unat (mh_size (hdrs s c) - req) = unat (mh_size (hdrs s c)) - unat req"
    using fit' by (intro unat_sub) (simp add: word_le_nat_alt)
  with un fit' show "blk_end h' n = blk_end (hdrs s) c + 16" by (simp add: blk_end_def h'_def f)
  from un show "blk_end h' c = unat n" by (simp add: blk_end_def h'_def f)
qed

lemma kmalloc_split_dll:
  assumes fl: "fl (Suc k) s (us @ c # vs)" and n: "n = c + 16 + req" and new: "n \<notin> set (us @ c # vs)"
    and nn: "n \<notin> {c, mh_prev (hdrs s c), mh_next (hdrs s c)}"
  shows "dll (hdrs (snd (kmalloc_split s req c))) 0 (us @ n # vs) 0"
proof -
  note nb = fl_neighbours [OF fl] and l = fl_links [OF fl] and d = fl_distinct [OF fl]
  note f = kmalloc_split_facts [OF n nn nb(1)]
  have nz: "0 \<notin> set (us @ vs)" using fl_nonzero [OF fl] by auto
  let ?h' = "hdrs (snd (kmalloc_split s req c))"
  show ?thesis
  proof (rule dll_replace [OF l(3,4)])
    show "?h' a = hdrs s a" if "a \<in> set (us @ vs)" "a \<noteq> lst_of 0 us" "a \<noteq> fst_of vs 0" for a
      using that new d by (intro f(10)) (auto simp: l)
    show "mh_next (?h' (last us)) = n \<and> mh_prev (?h' (last us)) = mh_prev (hdrs s (last us))" if "us \<noteq> []"
      using f(11) nb(4,5) that by (simp add: l(1))
    show "mh_prev (?h' (hd vs)) = n \<and> mh_next (?h' (hd vs)) = mh_next (hdrs s (hd vs))" if "vs \<noteq> []"
      using f(12) nb(4,6) that by (simp add: l(2))
  qed (use d nz f(5,6) l in auto)
qed

lemma kmalloc_split_old:
  assumes fl: "fl (Suc k) s (us @ c # vs)" and n: "n = c + 16 + req"
    and nn: "n \<notin> {c, mh_prev (hdrs s c), mh_next (hdrs s c)}" and a: "a \<notin> {n, c}"
  shows "hdr_ok (hdrs (snd (kmalloc_split s req c))) a = hdr_ok (hdrs s) a"
    and "blk_end (hdrs (snd (kmalloc_split s req c))) a = blk_end (hdrs s) a"
  using kmalloc_split_facts(9) [OF n nn fl_neighbours(1) [OF fl] a]
  by (simp_all add: hdr_ok_def blk_end_def)

lemma kmalloc_split_fl:
  assumes fl: "fl (Suc k) s (us @ c # vs)" and req: "unat req mod 16 = 0" "unat req \<le> 4294967264"
    and fit: "req + 16 < mh_size (hdrs s c)" and n: "n = c + 16 + req"
  shows "fl k (snd (kmalloc_split s req c)) (us @ n # vs)"
proof -
  let ?h' = "hdrs (snd (kmalloc_split s req c))"
  note g = kmalloc_split_geometry [OF fl req(2) fit n]
  note f = kmalloc_split_facts [OF n g(5) fl_neighbours(1) [OF fl]]
  have old: "hdr_ok ?h' a = hdr_ok (hdrs s) a" "blk_end ?h' a = blk_end (hdrs s) a"
    if "a \<in> set us \<or> a \<in> set vs" for a
    using kmalloc_split_old [OF fl n g(5), of a] that g(4) fl_distinct [OF fl] by auto
  from fl have c: "unat c mod 16 = 0" "blk_end (hdrs s) c + 16 * Suc k < 4294967296"
    by (auto simp: fl_def hdr_ok_def)
  have "unat n mod 16 = 0" using req(1) c(1) unfolding g(1) by presburger
  with g(3) have hn: "hdr_ok ?h' n" by (simp add: hdr_ok_def f)
  have "hdr_ok ?h' a \<and> blk_end ?h' a + 16 * k < 4294967296" if "a \<in> set (us @ n # vs)" for a
  proof (cases "a = n")
    case True
    with hn g(6) c(2) show ?thesis by simp
  next
    case False
    with that have a: "a \<in> set us \<or> a \<in> set vs" by auto
    with fl have "hdr_ok (hdrs s) a" "blk_end (hdrs s) a + 16 * Suc k < 4294967296"
      unfolding fl_def by auto
    with old [OF a] show ?thesis by simp
  qed
  moreover have "sorted_wrt (\<lambda>a b. blk_end ?h' a + 16 * k \<le> unat b) (us @ n # vs)"
  proof (rule sorted_blocks_replace)
    show "sorted_wrt (\<lambda>a b. blk_end (hdrs s) a + 16 * Suc k \<le> unat b) (us @ c # vs)"
      using fl by (simp add: fl_def)
  qed (simp_all add: old g(1,6))
  ultimately show ?thesis
    using kmalloc_split_dll [OF fl n g(4,5)] f(2) by (simp add: fl_def)
qed

text \<open>A block in use stays as it is, and is disjoint from the block that is handed out.\<close>

lemma kmalloc_split_owned:
  assumes fl: "fl (Suc k) s (us @ c # vs)" and req: "unat req \<le> 4294967264"
    and fit: "req + 16 < mh_size (hdrs s c)" and n: "n = c + 16 + req"
  shows "alloc_ok k (hdrs (snd (kmalloc_split s req c))) (us @ n # vs) (c + 16) (unat req)"
    and "owned (Suc k) (hdrs s) (us @ c # vs) b \<Longrightarrow>
      hdrs (snd (kmalloc_split s req c)) b = hdrs s b \<and>
      owned k (hdrs (snd (kmalloc_split s req c))) (us @ n # vs) b \<and>
      disjnt_blk (hdrs (snd (kmalloc_split s req c))) c b"
proof -
  let ?h' = "hdrs (snd (kmalloc_split s req c))"
  note g = kmalloc_split_geometry [OF fl req fit n] and nb = fl_neighbours [OF fl]
  note f = kmalloc_split_facts [OF n g(5) nb(1)]
  have old: "blk_end ?h' a = blk_end (hdrs s) a" if "a \<in> set us \<or> a \<in> set vs" for a
    using kmalloc_split_old [OF fl n g(5), of a] that g(4) fl_distinct [OF fl] by auto
  have srt: "sorted_wrt (\<lambda>a b. blk_end (hdrs s) a + 16 * Suc k \<le> unat b) (us @ c # vs)"
    and hc: "hdr_ok (hdrs s) c" using fl by (auto simp: fl_def)
  have "blk_end ?h' c \<le> unat z \<or> blk_end ?h' z + 16 * k \<le> unat c" if "z \<in> set (us @ n # vs)" for z
    using srt that old g(2,7) unfolding sorted_wrt_mid by fastforce
  then have "owned k ?h' (us @ n # vs) c"
    using hc g(7) unat_u32_less [of n] by (simp add: owned_def hdr_ok_def f)
  then show "alloc_ok k ?h' (us @ n # vs) (c + 16) (unat req)" by (rule alloc_okI) (simp add: f)
  assume ow: "owned (Suc k) (hdrs s) (us @ c # vs) b"
  then have bz: "blk_end (hdrs s) b \<le> unat z \<or> blk_end (hdrs s) z + 16 * Suc k \<le> unat b"
    if "z \<in> set (us @ c # vs)" for z using owned_apart that by blast
  then have bn: "b \<notin> set (us @ c # vs)" by (force simp: blk_end_def)
  have "unat b \<noteq> unat n" using bz [of c] g(1,2) by (auto simp: blk_end_def)
  moreover have "b \<noteq> 0" using ow by (simp add: owned_def hdr_ok_def)
  ultimately have eq: "?h' b = hdrs s b" using nb(2,3) bn by (intro f(10)) auto
  have "blk_end (hdrs s) b \<le> unat z \<or> blk_end ?h' z + 16 * k \<le> unat b" if "z \<in> set (us @ n # vs)" for z
    using that bz [of z] bz [of c] old [of z] g(1,6) by auto
  with eq ow have "owned k ?h' (us @ n # vs) b" by (simp add: owned_def hdr_ok_def blk_end_def)
  moreover have "disjnt_blk ?h' c b"
    using bz [of c] g(2,7) eq by (auto simp: disjnt_blk_def blk_end_def)
  ultimately show "?h' b = hdrs s b \<and> owned k ?h' (us @ n # vs) b \<and> disjnt_blk ?h' c b" using eq by simp
qed

lemma kmalloc_take_facts:
  fixes s :: memstate and c :: u32
  defines "p \<equiv> mh_prev (hdrs s c)" and "n \<equiv> mh_next (hdrs s c)" and "h' \<equiv> hdrs (snd (kmalloc_take s c))"
  shows "fst (kmalloc_take s c) = c + 16"
    and "memSlot (snd (kmalloc_take s c)) = (if mh_prev (hdrs s c) = 0 then mh_next (hdrs s c) else mh_prev (hdrs s c))"
    and "mh_size (h' a) = mh_size (hdrs s a)" and "sanityCheck (h' a) = sanityCheck (hdrs s a)"
    and "a \<noteq> p \<Longrightarrow> a \<noteq> n \<Longrightarrow> h' a = hdrs s a"
    and "p \<noteq> 0 \<Longrightarrow> p \<noteq> n \<Longrightarrow> mh_next (h' p) = n \<and> mh_prev (h' p) = mh_prev (hdrs s p)"
    and "n \<noteq> 0 \<Longrightarrow> p \<noteq> n \<Longrightarrow> mh_prev (h' n) = p \<and> mh_next (h' n) = mh_next (hdrs s n)"
  by (auto simp: kmalloc_take_def Let_def p_def n_def h'_def)

lemma dll_unlink:
  assumes "dll h 0 us c" and "dll h c vs 0" and "distinct (us @ vs)" and "0 \<notin> set (us @ vs)"
    and "\<And>a. a \<in> set (us @ vs) \<Longrightarrow> a \<noteq> lst_of 0 us \<Longrightarrow> a \<noteq> fst_of vs 0 \<Longrightarrow> h' a = h a"
    and "us \<noteq> [] \<Longrightarrow> mh_next (h' (last us)) = fst_of vs 0 \<and> mh_prev (h' (last us)) = mh_prev (h (last us))"
    and "vs \<noteq> [] \<Longrightarrow> mh_prev (h' (hd vs)) = lst_of 0 us \<and> mh_next (h' (hd vs)) = mh_next (h (hd vs))"
  shows "dll h' 0 (us @ vs) 0"
proof -
  from assms(3) have dj: "us \<noteq> [] \<Longrightarrow> last us \<notin> set vs"
    by (metis disjoint_iff distinct_append last_in_set)
  have "dll h' 0 us (fst_of vs 0)"
  proof (cases "us = []")
    case False
    have eq: "h' a = h a" if "a \<in> set us" "a \<noteq> last us" for a
      using assms(3,4) that False by (intro assms(5)) (auto split: if_splits)
    from assms(3) have "distinct us" by simp
    from dll_set_next [OF assms(1) this False] assms(6) [OF False] eq show ?thesis by blast
  qed simp
  moreover have "dll h' (lst_of 0 us) vs 0"
  proof (cases "vs = []")
    case False
    have eq: "h' a = h a" if "a \<in> set vs" "a \<noteq> hd vs" for a
      using assms(4) that False dj by (intro assms(5)) (auto split: if_splits)
    from assms(3) have "distinct vs" by simp
    from dll_set_prev [OF assms(2) this False] assms(7) [OF False] eq show ?thesis by blast
  qed simp
  ultimately show ?thesis by (simp add: dll_append)
qed

lemma kmalloc_take_fl:
  assumes fl: "fl k s (us @ c # vs)"
  shows "fl k (snd (kmalloc_take s c)) (us @ vs)"
proof -
  let ?h' = "hdrs (snd (kmalloc_take s c))"
  note f = kmalloc_take_facts [where s = s and c = c] and nb = fl_neighbours [OF fl] and l = fl_links [OF fl]
  have d: "distinct (us @ vs)" using fl_distinct [OF fl] by simp
  have nz: "0 \<notin> set (us @ vs)" using fl_nonzero [OF fl] by auto
  have old: "hdr_ok ?h' a = hdr_ok (hdrs s) a" "blk_end ?h' a = blk_end (hdrs s) a" for a
    by (simp_all add: hdr_ok_def blk_end_def f(3,4))
  have "dll ?h' 0 (us @ vs) 0"
  proof (rule dll_unlink [OF l(3,4) d nz])
    show "?h' a = hdrs s a" if "a \<in> set (us @ vs)" "a \<noteq> lst_of 0 us" "a \<noteq> fst_of vs 0" for a
      using that by (intro f(5)) (simp_all add: l)
    show "mh_next (?h' (last us)) = fst_of vs 0 \<and> mh_prev (?h' (last us)) = mh_prev (hdrs s (last us))" if "us \<noteq> []"
      using f(6) nb(4,5) that by (simp add: l(1,2))
    show "mh_prev (?h' (hd vs)) = lst_of 0 us \<and> mh_next (?h' (hd vs)) = mh_next (hdrs s (hd vs))" if "vs \<noteq> []"
      using f(7) nb(4,6) that by (simp add: l(1,2))
  qed
  moreover have "sorted_wrt (\<lambda>a b. blk_end ?h' a + 16 * k \<le> unat b) (us @ vs)"
    using fl unfolding fl_def old sorted_wrt_mid by (simp add: sorted_wrt_append)
  moreover have "if us @ vs = [] then memSlot (snd (kmalloc_take s c)) = 0
      else memSlot (snd (kmalloc_take s c)) \<in> set (us @ vs)"
    using nb(5,6) by (auto simp: f(2) l)
  ultimately show ?thesis using fl by (simp add: fl_def old)
qed

lemma kmalloc_take_owned:
  assumes fl: "fl k s (us @ c # vs)" and fit: "req \<le> mh_size (hdrs s c)"
  shows "alloc_ok k (hdrs (snd (kmalloc_take s c))) (us @ vs) (c + 16) (unat req)"
    and "owned k (hdrs s) (us @ c # vs) b \<Longrightarrow>
      hdrs (snd (kmalloc_take s c)) b = hdrs s b \<and>
      owned k (hdrs (snd (kmalloc_take s c))) (us @ vs) b \<and>
      disjnt_blk (hdrs (snd (kmalloc_take s c))) c b"
proof -
  let ?h' = "hdrs (snd (kmalloc_take s c))"
  note f = kmalloc_take_facts [where s = s and c = c] and nb = fl_neighbours [OF fl]
  have old: "hdr_ok ?h' a = hdr_ok (hdrs s) a" "blk_end ?h' a = blk_end (hdrs s) a" for a
    by (simp_all add: hdr_ok_def blk_end_def f(3,4))
  have "sorted_wrt (\<lambda>a b. blk_end (hdrs s) a + 16 * k \<le> unat b) (us @ c # vs)"
    using fl by (simp add: fl_def)
  then have "blk_end ?h' c \<le> unat z \<or> blk_end ?h' z + 16 * k \<le> unat c" if "z \<in> set (us @ vs)" for z
    using that unfolding sorted_wrt_mid old by fastforce
  then have "owned k ?h' (us @ vs) c" using fl by (auto simp: owned_def old fl_def)
  then show "alloc_ok k ?h' (us @ vs) (c + 16) (unat req)"
    by (rule alloc_okI) (use fit in \<open>simp add: f(3) word_le_nat_alt\<close>)
  assume ow: "owned k (hdrs s) (us @ c # vs) b"
  then have bz: "blk_end (hdrs s) b \<le> unat z \<or> blk_end (hdrs s) z + 16 * k \<le> unat b"
    if "z \<in> set (us @ c # vs)" for z using owned_apart that by blast
  then have "b \<notin> set (us @ c # vs)" by (force simp: blk_end_def)
  moreover have "b \<noteq> 0" using ow by (simp add: owned_def hdr_ok_def)
  ultimately have "?h' b = hdrs s b" using nb(2,3) by (intro f(5)) auto
  moreover have "owned k ?h' (us @ vs) b" using ow bz unfolding owned_def old by auto
  moreover have "disjnt_blk ?h' c b" using bz [of c] by (auto simp: disjnt_blk_def old)
  ultimately show "?h' b = hdrs s b \<and> owned k ?h' (us @ vs) b \<and> disjnt_blk ?h' c b" by simp
qed

lemma fl_Suc:
  assumes "fl (Suc k) s zs"
  shows "fl k s zs"
proof -
  from assms have "sorted_wrt (\<lambda>a b. blk_end (hdrs s) a + 16 * Suc k \<le> unat b) zs" by (simp add: fl_def)
  then have "sorted_wrt (\<lambda>a b. blk_end (hdrs s) a + 16 * k \<le> unat b) zs"
    by (rule sorted_wrt_cong [rotated]) simp
  with assms show ?thesis unfolding fl_def by fastforce
qed

lemma owned_Suc: "owned (Suc k) h zs b \<Longrightarrow> owned k h zs b"
  unfolding owned_def by fastforce

text \<open>
  Both ways of allocating, on the first block of the search that fits: the free list stays well
  formed, and what is handed out overlaps neither a free block nor a block in use.
\<close>

lemma kmalloc_fl:
  assumes fl: "fl (Suc k) s zs" and n: "unat n \<le> 4294967264"
  shows "\<exists>r s'. kmalloc s n = Inr (r, s') \<and>
    (r = 0 \<and> s' = s \<or> (\<exists>zs'. fl k s' zs' \<and> alloc_ok k (hdrs s') zs' r (unat (aligned n)) \<and>
       (\<forall>b. owned (Suc k) (hdrs s) zs b \<longrightarrow>
          hdrs s' b = hdrs s b \<and> owned k (hdrs s') zs' b \<and> disjnt_blk (hdrs s') (r - 16) b)))"
proof (cases "aligned n = 0 \<or> zs = []")
  case True
  with fl show ?thesis by (auto simp: kmalloc_def Let_def fl_def)
next
  case False
  with fl have m: "memSlot s \<in> set zs" by (simp add: fl_def)
  with fl_nonzero [OF fl] have "memSlot s \<noteq> 0" by blast
  from m obtain us ws where zs: "zs = us @ memSlot s # ws" by (meson split_list)
  with fl have d: "dll (hdrs s) (lst_of 0 us) (memSlot s # ws) 0" by (simp add: fl_def dll_append)
  have req: "unat (aligned n) mod 16 = 0" "unat (aligned n) \<le> 4294967264"
    using n by (auto simp: unat_aligned)
  let ?fit = "\<lambda>c. aligned n + 16 < mh_size (hdrs s c) \<or> aligned n \<le> mh_size (hdrs s c)"
  have eq: "kmalloc s n = Inr (case find ?fit (memSlot s # ws) of None \<Rightarrow> (0, s)
     | Some c \<Rightarrow> if aligned n + 16 < mh_size (hdrs s c) then kmalloc_split s (aligned n) c else kmalloc_take s c)"
    using kmalloc_loop_eq [OF d, of "aligned n"] fl_nonzero [OF fl] zs False \<open>memSlot s \<noteq> 0\<close>
    by (simp add: kmalloc_def Let_def)
  show ?thesis
  proof (cases "find ?fit (memSlot s # ws)")
    case None
    with eq show ?thesis by simp
  next
    case (Some c)
    from find_SomeD [OF Some] have "c \<in> set zs" and fit: "?fit c" unfolding zs by auto
    then obtain as bs where zs': "zs = as @ c # bs" by (meson split_list)
    note fl' = fl [unfolded zs']
    show ?thesis
    proof (cases "aligned n + 16 < mh_size (hdrs s c)")
      case True
      then have e: "kmalloc s n = Inr (c + 16, snd (kmalloc_split s (aligned n) c))"
        using eq unfolding Some by (simp add: kmalloc_split_def Let_def)
      show ?thesis unfolding e zs'
        using kmalloc_split_fl [OF fl' req True refl] kmalloc_split_owned [OF fl' req(2) True refl]
        by fastforce
    next
      case False
      with fit have le: "aligned n \<le> mh_size (hdrs s c)" by simp
      from False have e: "kmalloc s n = Inr (c + 16, snd (kmalloc_take s c))"
        using eq unfolding Some by (simp add: kmalloc_take_def Let_def)
      show ?thesis unfolding e zs'
        using kmalloc_take_fl [OF fl_Suc [OF fl']] kmalloc_take_owned [OF fl_Suc [OF fl'] le] owned_Suc
        by fastforce
    qed
  qed
qed

section \<open>The allocator's contract\<close>

text \<open>
  What a client of an allocator relies on. \<open>inv k s rs\<close>: the blocks at \<open>rs\<close> are in use and the
  state can serve \<open>k\<close> more requests; \<open>room s r\<close> is the number of bytes the block at \<open>r\<close> holds.
\<close>

definition apart :: "(u32 \<Rightarrow> nat) \<Rightarrow> u32 \<Rightarrow> u32 \<Rightarrow> bool" where
  "apart room a b \<longleftrightarrow> unat a + room a \<le> unat b \<or> unat b + room b \<le> unat a"

fun run_allocs :: "('s \<Rightarrow> u32 \<Rightarrow> (u32 \<times> 's) kres) \<Rightarrow> 's \<Rightarrow> u32 list \<Rightarrow> (u32 list \<times> 's) kres" where
  "run_allocs alloc s [] = Inr ([], s)"
| "run_allocs alloc s (n # ns) =
     (case alloc s n of Inl e \<Rightarrow> Inl e
      | Inr (r, s') \<Rightarrow> (case run_allocs alloc s' ns of Inl e \<Rightarrow> Inl e
          | Inr (rs, s'') \<Rightarrow> Inr (r # rs, s'')))"

locale allocator =
  fixes alloc :: "'s \<Rightarrow> u32 \<Rightarrow> (u32 \<times> 's) kres"
    and inv :: "nat \<Rightarrow> 's \<Rightarrow> u32 list \<Rightarrow> bool"
    and room :: "'s \<Rightarrow> u32 \<Rightarrow> nat"
    and lim :: nat
  assumes alloc_law: "inv (Suc k) s rs \<Longrightarrow> unat n \<le> lim \<Longrightarrow>
      \<exists>r s'. alloc s n = Inr (r, s') \<and>
        (r = 0 \<and> s' = s \<or> r \<noteq> 0 \<and> inv k s' (r # rs) \<and> unat n \<le> room s' r \<and>
           (\<forall>q \<in> set rs. room s' q = room s q))"
    and inv_Suc: "inv (Suc k) s rs \<Longrightarrow> inv k s rs"
    and inv_apart: "inv k s rs \<Longrightarrow> sorted_wrt (apart (room s)) rs"
begin

lemma run_allocs_inv:
  assumes "inv (length ns + k) s qs" and "\<forall>n \<in> set ns. unat n \<le> lim"
  shows "\<exists>rs s'. run_allocs alloc s ns = Inr (rs, s') \<and> length rs = length ns \<and>
    inv k s' (rev (filter (\<lambda>r. r \<noteq> 0) rs) @ qs) \<and> (\<forall>q \<in> set qs. room s' q = room s q) \<and>
    (\<forall>(n, r) \<in> set (zip ns rs). r \<noteq> 0 \<longrightarrow> unat n \<le> room s' r)"
  using assms
proof (induction ns arbitrary: s qs)
  case (Cons n ns)
  then have "inv (Suc (length ns + k)) s qs" "unat n \<le> lim" by simp_all
  from alloc_law [OF this] obtain r s1 where a: "alloc s n = Inr (r, s1)"
    "r = 0 \<and> s1 = s \<or> r \<noteq> 0 \<and> inv (length ns + k) s1 (r # qs) \<and> unat n \<le> room s1 r \<and>
       (\<forall>q \<in> set qs. room s1 q = room s q)" by blast
  show ?case
  proof (cases "r = 0")
    case True
    with a have "s1 = s" by simp
    with Cons.IH [of s qs] Cons.prems inv_Suc [of "length ns + k" s qs] a(1) True
    show ?thesis by auto
  next
    case False
    with a Cons.IH [of s1 "r # qs"] Cons.prems show ?thesis by auto
  qed
qed simp

text \<open>A run of requests ends, and the blocks it hands out are large enough and do not overlap.\<close>

lemma run_allocs_apart:
  assumes "inv (length ns) s []" and "\<forall>n \<in> set ns. unat n \<le> lim"
  shows "\<exists>rs s'. run_allocs alloc s ns = Inr (rs, s') \<and> length rs = length ns \<and>
    sorted_wrt (apart (room s')) (filter (\<lambda>r. r \<noteq> 0) rs) \<and>
    (\<forall>(n, r) \<in> set (zip ns rs). r \<noteq> 0 \<longrightarrow> unat n \<le> room s' r)"
proof -
  from run_allocs_inv [of ns 0 s "[]"] assms obtain rs s' where
    r: "run_allocs alloc s ns = Inr (rs, s')" "length rs = length ns"
    "inv 0 s' (rev (filter (\<lambda>r. r \<noteq> 0) rs))" "\<forall>(n, r) \<in> set (zip ns rs). r \<noteq> 0 \<longrightarrow> unat n \<le> room s' r"
    by auto
  from inv_apart [OF r(3)] have "sorted_wrt (apart (room s')) (filter (\<lambda>r. r \<noteq> 0) rs)"
    by (auto simp: sorted_wrt_rev apart_def elim!: sorted_wrt_mono_rel [rotated])
  with r show ?thesis by auto
qed

end

text \<open>The heap of \<open>mem.c\<close> with the blocks whose data are at \<open>rs\<close> in use.\<close>

definition heap :: "nat \<Rightarrow> memstate \<Rightarrow> u32 list \<Rightarrow> bool" where
  "heap k s rs \<longleftrightarrow> (\<exists>zs. fl k s zs \<and>
     (\<forall>r \<in> set rs. unat r = unat (r - 16) + 16 \<and> owned k (hdrs s) zs (r - 16)) \<and>
     sorted_wrt (\<lambda>a b. disjnt_blk (hdrs s) (a - 16) (b - 16)) rs)"

definition blk_room :: "memstate \<Rightarrow> u32 \<Rightarrow> nat" where
  "blk_room s r = unat (mh_size (hdrs s (r - 16)))"

lemma unat_le_aligned: "unat n \<le> 4294967280 \<Longrightarrow> unat n \<le> unat (aligned n)"
  by (simp add: unat_aligned)

lemma kmalloc_heap:
  assumes "heap (Suc k) s rs" and n: "unat n \<le> 4294967264"
  shows "\<exists>r s'. kmalloc s n = Inr (r, s') \<and>
    (r = 0 \<and> s' = s \<or> r \<noteq> 0 \<and> heap k s' (r # rs) \<and> unat n \<le> blk_room s' r \<and>
       (\<forall>q \<in> set rs. blk_room s' q = blk_room s q))"
proof -
  from assms(1) obtain zs where fl: "fl (Suc k) s zs"
    and rs: "\<And>r. r \<in> set rs \<Longrightarrow> unat r = unat (r - 16) + 16 \<and> owned (Suc k) (hdrs s) zs (r - 16)"
    and dj: "sorted_wrt (\<lambda>a b. disjnt_blk (hdrs s) (a - 16) (b - 16)) rs"
    unfolding heap_def by blast
  from kmalloc_fl [OF fl n] obtain r s' where m: "kmalloc s n = Inr (r, s')"
    "r = 0 \<and> s' = s \<or> (\<exists>zs'. fl k s' zs' \<and> alloc_ok k (hdrs s') zs' r (unat (aligned n)) \<and>
       (\<forall>b. owned (Suc k) (hdrs s) zs b \<longrightarrow>
          hdrs s' b = hdrs s b \<and> owned k (hdrs s') zs' b \<and> disjnt_blk (hdrs s') (r - 16) b))" by blast
  from m(2) show ?thesis
  proof (elim disjE)
    assume "\<exists>zs'. fl k s' zs' \<and> alloc_ok k (hdrs s') zs' r (unat (aligned n)) \<and>
       (\<forall>b. owned (Suc k) (hdrs s) zs b \<longrightarrow>
          hdrs s' b = hdrs s b \<and> owned k (hdrs s') zs' b \<and> disjnt_blk (hdrs s') (r - 16) b)"
    then obtain zs' where fl': "fl k s' zs'" and al: "alloc_ok k (hdrs s') zs' r (unat (aligned n))"
      and fr: "\<And>b. owned (Suc k) (hdrs s) zs b \<Longrightarrow>
          hdrs s' b = hdrs s b \<and> owned k (hdrs s') zs' b \<and> disjnt_blk (hdrs s') (r - 16) b" by blast
    have eq: "hdrs s' (q - 16) = hdrs s (q - 16)" if "q \<in> set rs" for q using fr rs that by blast
    have "sorted_wrt (\<lambda>a b. disjnt_blk (hdrs s') (a - 16) (b - 16)) rs"
      using dj by (rule sorted_wrt_cong [rotated]) (simp add: disjnt_blk_def blk_end_def eq)
    then have "heap k s' (r # rs)"
      using fl' al fr rs unfolding heap_def alloc_ok_def by (intro exI [of _ zs']) auto
    moreover have "unat n \<le> blk_room s' r" "r \<noteq> 0"
      using al unat_le_aligned [of n] n by (auto simp: alloc_ok_def blk_room_def)
    ultimately show ?thesis using m(1) eq by (simp add: blk_room_def)
  qed (use m(1) in blast)
qed

lemma heap_Suc: "heap (Suc k) s rs \<Longrightarrow> heap k s rs"
  unfolding heap_def using fl_Suc owned_Suc by blast

lemma heap_apart: "heap k s rs \<Longrightarrow> sorted_wrt (apart (blk_room s)) rs"
proof -
  assume "heap k s rs"
  then have rs: "\<And>r. r \<in> set rs \<Longrightarrow> unat r = unat (r - 16) + 16"
    and dj: "sorted_wrt (\<lambda>a b. disjnt_blk (hdrs s) (a - 16) (b - 16)) rs"
    unfolding heap_def by blast+
  show ?thesis
    using dj by (rule sorted_wrt_cong [rotated]) (auto dest!: rs simp: disjnt_blk_def apart_def blk_end_def blk_room_def)
qed

interpretation km: allocator kmalloc heap blk_room 4294967264
  by unfold_locales (use kmalloc_heap heap_Suc heap_apart in blast)+


section \<open>Properties\<close>

text \<open>
  The memory map \<open>kmeminit\<close> needs: room for a header on either side of the hole, and \<open>k\<close> spare
  headers' worth of bytes in the hole and above the end of memory.
\<close>

definition layout_ok :: "nat \<Rightarrow> platform \<Rightarrow> bool" where
  "layout_ok k pl \<longleftrightarrow> 0 < unat (aligned (freemem pl)) \<and>
     unat (aligned (freemem pl)) + 16 \<le> unat (HOLESTART pl) \<and>
     unat (HOLESTART pl) + 16 * k \<le> unat (HOLEEND pl) \<and> unat (HOLEEND pl) mod 16 = 0 \<and>
     unat (HOLEEND pl) + 16 \<le> unat (maxaddr pl) \<and> unat (maxaddr pl) + 16 * k < 4294967296"

lemma unat_sub_sub: "unat b + unat c \<le> unat a \<Longrightarrow> unat (a - b - c :: u32) = unat a - unat b - unat c"
proof -
  assume h: "unat b + unat c \<le> unat a"
  then have "unat (a - b) = unat a - unat b" by (intro unat_sub) (simp add: word_le_nat_alt)
  moreover from h this have "unat (a - b - c) = unat (a - b) - unat c"
    by (intro unat_sub) (simp add: word_le_nat_alt)
  ultimately show ?thesis by simp
qed

lemma kmeminit_fl:
  assumes "layout_ok k pl"
  shows "fl k (kmeminit pl s) [aligned (freemem pl), HOLEEND pl]"
proof -
  let ?b = "aligned (freemem pl)" and ?a = "HOLEEND pl" and ?h = "hdrs (kmeminit pl s)"
  have b: "unat ?b mod 16 = 0" by (simp add: unat_aligned)
  from assms have f: "?b \<noteq> 0" "unat ?b + 16 \<le> unat (HOLESTART pl)"
    "unat (HOLESTART pl) + 16 * k \<le> unat ?a" "unat ?a mod 16 = 0"
    "unat ?a + 16 \<le> unat (maxaddr pl)" "unat (maxaddr pl) + 16 * k < 4294967296"
    by (auto simp: layout_ok_def)
  then have ne: "?b \<noteq> ?a" "?a \<noteq> 0" by auto
  have hb: "?h ?b = (hdrs s ?b)\<lparr>mh_size := HOLESTART pl - ?b - 16, mh_prev := 0, mh_next := ?a,
      sanityCheck := HOLESTART pl - ?b - 16 + 16\<rparr>"
    and ha: "?h ?a = (hdrs s ?a)\<lparr>mh_size := maxaddr pl - ?a - 16, mh_prev := ?b, mh_next := 0,
      sanityCheck := maxaddr pl - ?a - 16 + 16\<rparr>"
    and ms: "memSlot (kmeminit pl s) = ?b"
    using ne by (simp_all add: kmeminit_def Let_def)
  have "blk_end ?h ?b = unat (HOLESTART pl)" "blk_end ?h ?a = unat (maxaddr pl)"
    using f unat_sub_sub [of ?b 16 "HOLESTART pl"] unat_sub_sub [of ?a 16 "maxaddr pl"]
    by (simp_all add: blk_end_def hb ha)
  with f b ne show ?thesis by (simp add: fl_def hdr_ok_def ms) (simp add: hb ha)
qed

text \<open>
  C7. The allocator's main guarantee. Take any memory map \<open>kmeminit\<close> accepts, with \<open>k\<close> spare headers
  in the hole and above memory, and any run of up to \<open>k\<close> allocation requests, each of at most
  \<open>2^32 - 32\<close> bytes. Every request returns (the search loop ends): NULL, or the address of a block
  that holds at least the requested number of bytes; and no two of the blocks handed out overlap.
\<close>

theorem boot_allocations_disjoint:
  assumes "layout_ok (length ns) pl" and "\<forall>n \<in> set ns. unat n \<le> 4294967264"
  shows "\<exists>rs s'. run_allocs kmalloc (kmeminit pl s) ns = Inr (rs, s') \<and> length rs = length ns \<and>
    sorted_wrt (apart (blk_room s')) (filter (\<lambda>r. r \<noteq> 0) rs) \<and>
    (\<forall>(n, r) \<in> set (zip ns rs). r \<noteq> 0 \<longrightarrow> unat n \<le> blk_room s' r)"
proof -
  have "heap (length ns) (kmeminit pl s) []" using kmeminit_fl [OF assms(1)] unfolding heap_def by auto
  then show ?thesis using assms(2) by (rule km.run_allocs_apart)
qed

definition pc_platform :: platform where
  "pc_platform = \<lparr>freemem = 0x20004, maxaddr = 0x3FFFFF, HOLESTART = 0xA0000, HOLEEND = 0x196000,
     getCS = 8, addr_sysstop = 0x1000, addr_sigtramp = 0x2000\<rparr>"

definition raw_mem :: memstate where
  "raw_mem = \<lparr>memSlot = 0, hdrs = (\<lambda>_. \<lparr>mh_size = 0, mh_prev = 0, mh_next = 0, sanityCheck = 0\<rparr>)\<rparr>"

lemma pc_aligned: "aligned (freemem pc_platform) = 0x20010"
  by (simp add: pc_platform_def aligned_def)

lemma pc_layout: "k \<le> 62976 \<Longrightarrow> layout_ok k pc_platform"
  unfolding layout_ok_def pc_aligned by (simp add: pc_platform_def)

theorem boot_allocations_disjoint_witness:
  "\<exists>rs s'. run_allocs kmalloc (kmeminit pc_platform raw_mem) [100, 16384, 7] = Inr (rs, s') \<and>
    length rs = 3 \<and> sorted_wrt (apart (blk_room s')) (filter (\<lambda>r. r \<noteq> 0) rs)"
proof -
  have "layout_ok (length [100, 16384, 7 :: u32]) pc_platform" using pc_layout [of 3] by (simp add: numeral_3_eq_3)
  moreover have "\<forall>n \<in> set [100, 16384, 7 :: u32]. unat n \<le> 4294967264" by simp
  ultimately obtain rs s' where
    "run_allocs kmalloc (kmeminit pc_platform raw_mem) [100, 16384, 7] = Inr (rs, s')"
    "length rs = length [100, 16384, 7 :: u32]" "sorted_wrt (apart (blk_room s')) (filter (\<lambda>r. r \<noteq> 0) rs)"
    using boot_allocations_disjoint [of "[100, 16384, 7]" pc_platform raw_mem] by blast
  then show ?thesis by (intro exI [of _ rs] exI [of _ s']) (simp del: run_allocs.simps)
qed

text \<open>
  C11. \<open>kmalloc\<close> is a first-fit search from \<open>memSlot\<close>: on a well-formed free list whose part from
  \<open>memSlot\<close> on is \<open>memSlot s # ws\<close> it takes the first block there that holds the request, splits it
  when more than a header would be left over and hands it out whole otherwise, and returns NULL
  with nothing changed when there is none. The blocks \<open>us\<close> before \<open>memSlot\<close> are never looked at.
\<close>

theorem kmalloc_first_fit:
  assumes "fl k s (us @ memSlot s # ws)" and "unat n \<le> 4294967264" and "n \<noteq> 0"
  shows "kmalloc s n =
    Inr (case find (\<lambda>c. aligned n \<le> mh_size (hdrs s c)) (memSlot s # ws) of
           None \<Rightarrow> (0, s)
         | Some c \<Rightarrow> if aligned n + 16 < mh_size (hdrs s c) then kmalloc_split s (aligned n) c
                    else kmalloc_take s c)"
proof -
  have nz: "\<forall>a \<in> set (memSlot s # ws). a \<noteq> 0" using fl_nonzero [OF assms(1)] by auto
  have d: "dll (hdrs s) (lst_of 0 us) (memSlot s # ws) 0" using assms(1) by (simp add: fl_def dll_append)
  have "0 < unat n" using assms(3) by (simp add: unat_gt_0)
  then have "aligned n \<noteq> 0" using unat_le_aligned [of n] assms(2) by auto
  moreover have "unat (aligned n + 16) = unat (aligned n) + 16"
    using assms(2) by (auto simp: unat_aligned unat_word_ariths)
  then have "(aligned n + 16 < m \<or> aligned n \<le> m) = (aligned n \<le> m)" for m
    by (auto simp: word_less_nat_alt word_le_nat_alt)
  ultimately show ?thesis using kmalloc_loop_eq [OF d nz, of "aligned n"] nz by (simp add: kmalloc_def Let_def)
qed

theorem kmalloc_first_fit_witness:
  "kmalloc (kmeminit pc_platform raw_mem) 100 =
     Inr (kmalloc_split (kmeminit pc_platform raw_mem) 112 0x20010)"
proof -
  have k: "memSlot (kmeminit pc_platform raw_mem) = 0x20010" "mh_size (hdrs (kmeminit pc_platform raw_mem) 0x20010) = 0x7FFE0"
    by (simp_all add: kmeminit_def pc_platform_def aligned_def Let_def)
  have "fl 0 (kmeminit pc_platform raw_mem) ([] @ memSlot (kmeminit pc_platform raw_mem) # [0x196000])"
    using kmeminit_fl [OF pc_layout [of 0], of raw_mem] unfolding pc_aligned k by (simp add: pc_platform_def)
  from kmalloc_first_fit [OF this, of 100] show ?thesis by (simp add: k aligned_def)
qed

text \<open>
  The start-up self-test reports nothing on the memory map it is written for: 4 MB of memory
  with the hole ending at 0x196000, wherever the free memory starts below the hole.
\<close>

theorem kmeminit_self_test:
  assumes "layout_ok 0 pl" and "HOLEEND pl = 0x196000" and "maxaddr pl = 0x3FFFFF"
  shows "kmeminit_report pl (kmeminit pl s) = []"
proof -
  have "aligned (freemem pl) \<noteq> HOLEEND pl" using assms(1) by (auto simp: layout_ok_def)
  with assms(2,3) show ?thesis by (simp add: kmeminit_report_def kmeminit_def Let_def)
qed

theorem kmeminit_self_test_witness: "kmeminit_report pc_platform (kmeminit pc_platform raw_mem) = []"
  using kmeminit_self_test [OF pc_layout [of 0]] by (simp add: pc_platform_def)

end
