(* ===== verification/Mem_Free.thy ===== *)
theory Mem_Free
  imports Mem
begin

text \<open>
  Giving memory back: what \<open>kfree\<close> of \<open>c/mem.c\<close> does to a well-formed free list, when it refuses,
  and the two ways in which the memory manager goes wrong.
\<close>

section \<open>Giving a block back\<close>

lemma kfree_loop_eq:
  assumes "dll (hdrs s) p (c # vs) 0" and "0 \<notin> set (c # vs)"
  shows "kfree_loop s b c =
    (let cur = last (c # takeWhile (\<lambda>z. \<not> b < z) vs)
     in Some (1, if dropWhile (\<lambda>z. \<not> b < z) vs = [] then kfree_last s b cur else kfree_between s b cur))"
  using assms
proof (induction vs arbitrary: p c)
  case Nil
  then show ?case by (subst kfree_loop.simps) simp
next
  case (Cons v vs)
  then have "mh_next (hdrs s c) = v" "c \<noteq> 0" "v \<noteq> 0" by auto
  with Cons.IH [of c v] Cons.prems show ?case by (subst kfree_loop.simps) (auto simp: Let_def)
qed

text \<open>
  The free list after block \<open>b\<close> has been linked in between \<open>us\<close> and \<open>ys\<close>, merged with the first
  block of \<open>ys\<close> when \<open>ys'\<close> is the rest of \<open>ys\<close>.
\<close>

lemma fl_insert:
  assumes fl: "fl k s (us @ ys)" and ow: "owned k (hdrs s) (us @ ys) b"
    and lo: "\<forall>u \<in> set us. u < b" and hi: "\<forall>y \<in> set ys. b < y"
    and ys': "ys' = ys \<and> blk_end (hdrs s') b = blk_end (hdrs s) b \<or>
      (\<exists>y. ys = y # ys' \<and> blk_end (hdrs s') b = blk_end (hdrs s) y)"
    and b: "sanityCheck (hdrs s' b) = mh_size (hdrs s' b) + 16" "mh_prev (hdrs s' b) = lst_of 0 us" "mh_next (hdrs s' b) = fst_of ys' 0"
    and old: "\<And>a. a \<in> set us \<union> set ys' \<Longrightarrow> mh_size (hdrs s' a) = mh_size (hdrs s a) \<and> sanityCheck (hdrs s' a) = sanityCheck (hdrs s a)"
    and links: "\<And>a. a \<in> set (us @ ys') \<Longrightarrow> a \<noteq> lst_of 0 us \<Longrightarrow> a \<noteq> fst_of ys' 0 \<Longrightarrow> hdrs s' a = hdrs s a"
      "us \<noteq> [] \<Longrightarrow> mh_next (hdrs s' (last us)) = b \<and> mh_prev (hdrs s' (last us)) = mh_prev (hdrs s (last us))"
      "ys' \<noteq> [] \<Longrightarrow> mh_prev (hdrs s' (hd ys')) = b \<and> mh_next (hdrs s' (hd ys')) = mh_next (hdrs s (hd ys'))"
    and m: "memSlot s' \<in> set (us @ b # ys')"
  shows "fl 0 s' (us @ b # ys')"
proof -
  have sub: "set ys' \<subseteq> set ys" "\<exists>xs. ys = xs @ ys'" using ys' by (auto intro: exI [of _ "[_]"])
  from fl have d: "dll (hdrs s) 0 us (fst_of ys 0)" "dll (hdrs s) (lst_of 0 us) ys 0"
    and st: "sorted_wrt (\<lambda>a b. blk_end (hdrs s) a + 16 * k \<le> unat b) (us @ ys)"
    by (simp_all add: fl_def dll_append)
  have ok: "hdr_ok (hdrs s) a \<and> blk_end (hdrs s) a < 4294967296" if "a \<in> set us \<union> set ys" for a
    using fl_blk [OF fl, of a] that by auto
  from sub(2) d(2) obtain c' where d': "dll (hdrs s) c' ys' 0" by (auto simp: dll_append)
  have dist: "distinct (us @ ys')" using fl_distinct [OF fl] sub(2) by auto
  have nz: "0 \<notin> set (us @ ys')" using fl_nonzero [OF fl] sub(1) by auto
  have dll: "dll (hdrs s') 0 (us @ b # ys') 0"
    by (rule dll_replace [OF d(1) d' dist links nz b(2,3)])
  have be: "blk_end (hdrs s') a = blk_end (hdrs s) a" "hdr_ok (hdrs s') a = hdr_ok (hdrs s) a" if "a \<in> set us \<union> set ys'" for a
    using old [OF that] by (simp_all add: blk_end_def hdr_ok_def)
  have bb: "hdr_ok (hdrs s') b" "blk_end (hdrs s') b < 4294967296"
    using ow b(1) ys' ok by (auto simp: owned_def hdr_ok_def)
  have ok': "hdr_ok (hdrs s') a \<and> blk_end (hdrs s') a < 4294967296" if "a \<in> set (us @ b # ys')" for a
    using that bb ok [of a] be [of a] sub(1) by auto
  have ub: "blk_end (hdrs s) u \<le> unat b" if "u \<in> set us" for u
  proof -
    from that lo have "unat u < unat b" by (simp add: word_less_nat_alt)
    with owned_apart [OF ow, of u] that show ?thesis by (auto simp: blk_end_def)
  qed
  have hib: "blk_end (hdrs s') b \<le> unat y" if "y \<in> set ys'" for y
  proof -
    from that sub(1) have y: "y \<in> set ys" by blast
    with hi have "unat b < unat y" by (simp add: word_less_nat_alt)
    with owned_apart [OF ow, of y] y have "blk_end (hdrs s) b \<le> unat y" by (auto simp: blk_end_def)
    with ys' st that show ?thesis by (fastforce simp: sorted_wrt_append)
  qed
  from st have st0: "sorted_wrt (\<lambda>a b. blk_end (hdrs s) a \<le> unat b) (us @ ys)"
    by (rule sorted_wrt_cong [rotated]) simp
  from sub(2) obtain xs where "ys = xs @ ys'" by blast
  with st0 have st': "sorted_wrt (\<lambda>a b. blk_end (hdrs s) a \<le> unat b) us"
    "sorted_wrt (\<lambda>a b. blk_end (hdrs s) a \<le> unat b) ys'"
    "\<forall>u \<in> set us. \<forall>y \<in> set ys'. blk_end (hdrs s) u \<le> unat y"
    by (simp_all add: sorted_wrt_append)
  have "sorted_wrt (\<lambda>a b. blk_end (hdrs s') a \<le> unat b) us"
    using st'(1) by (rule sorted_wrt_cong [rotated]) (simp add: be)
  moreover have "sorted_wrt (\<lambda>a b. blk_end (hdrs s') a \<le> unat b) ys'"
    using st'(2) by (rule sorted_wrt_cong [rotated]) (simp add: be)
  ultimately have "sorted_wrt (\<lambda>a b. blk_end (hdrs s') a \<le> unat b) (us @ b # ys')"
    using st'(3) ub hib unfolding sorted_wrt_mid by (simp add: be)
  with dll ok' m show ?thesis unfolding fl_def by auto
qed

text \<open>
  \<open>free_insert h b zs\<close>: the free blocks after \<open>b\<close> has been given back, at its place in the order of
  addresses, with the block that begins at its end merged into it.
\<close>

definition merges :: "(u32 \<Rightarrow> memHeader) \<Rightarrow> u32 \<Rightarrow> u32 list \<Rightarrow> bool" where
  "merges h b ys \<longleftrightarrow> ys \<noteq> [] \<and> blk_end h b = unat (hd ys)"

definition free_insert :: "(u32 \<Rightarrow> memHeader) \<Rightarrow> u32 \<Rightarrow> u32 list \<Rightarrow> u32 list" where
  "free_insert h b zs =
    (let ys = dropWhile (\<lambda>z. z < b) zs
     in takeWhile (\<lambda>z. z < b) zs @ b # (if merges h b ys then tl ys else ys))"

text \<open>The test the left-merging cases make in place of \<open>blk_end h z = unat b\<close>.\<close>

definition left_test :: "(u32 \<Rightarrow> memHeader) \<Rightarrow> u32 \<Rightarrow> u32 \<Rightarrow> bool" where
  "left_test h z b \<longleftrightarrow> hdr_plus (hdr_plus z (mh_size (h z))) 16 = b"

lemma owned_end: "owned k h zs b \<Longrightarrow> unat (b + 16 + mh_size (h b)) = blk_end h b"
  by (simp add: owned_def blk_end_def unat_word_ariths)

lemma merges_iff: "owned k h zs b \<Longrightarrow> (b + 16 + mh_size (h b) = z) = (blk_end h b = unat z)"
  using owned_end [of k h zs b] word_unat_eq_iff by metis

lemma owned_notin: "owned k h zs b \<Longrightarrow> b \<notin> set zs"
  by (auto dest!: owned_apart simp: blk_end_def)

lemma merged_end:
  assumes "fl k s zs" "y \<in> set zs" "blk_end (hdrs s) b = unat y"
    "mh_size (h' b) = mh_size (hdrs s b) + mh_size (hdrs s y) + 16"
  shows "blk_end h' b = blk_end (hdrs s) y"
  using fl_blk [OF assms(1,2)] assms(3,4) by (simp add: blk_end_def unat_word_ariths)

text \<open>Cases A and B: the block goes to the front of the list.\<close>

lemma kfree_front:
  assumes fl: "fl k s (c # vs)" and ow: "owned k (hdrs s) (c # vs) b" and m: "memSlot s = c" and "b < c"
    and sole: "\<not> (vs = [] \<and> blk_end (hdrs s) b = unat c)" and v: "\<not> kfree_invalid pl (b + 16)"
  shows "\<exists>s'. kfree pl s (b + 16) = Inr (1, s') \<and> fl 0 s' (b # (if merges (hdrs s) b (c # vs) then vs else c # vs)) \<and>
    mh_size (hdrs s' b) = mh_size (hdrs s b) + (if merges (hdrs s) b (c # vs) then 16 + mh_size (hdrs s c) else 0)"
proof -
  from ow have sane: "sanityCheck (hdrs s b) = mh_size (hdrs s b) + 16" by (simp add: owned_def hdr_ok_def)
  have bn: "b \<notin> set (c # vs)" by (rule owned_notin [OF ow])
  have d: "distinct (c # vs)" by (rule fl_distinct [OF fl])
  have cn: "mh_next (hdrs s c) = fst_of vs 0" using fl by (auto simp: fl_def)
  have nz: "0 \<notin> set (c # vs)" using fl_nonzero [OF fl] by auto
  have lt: "\<forall>y \<in> set (c # vs). b < y"
  proof
    fix y assume y: "y \<in> set (c # vs)"
    have "unat c \<le> unat y" using fl y by (auto simp: fl_def blk_end_def)
    with \<open>b < c\<close> show "b < y" by (simp add: word_less_nat_alt)
  qed
  show ?thesis
  proof (cases "blk_end (hdrs s) b = unat c")
    case True
    with sole have vs: "vs \<noteq> []" by simp
    let ?s = "(set_hdr (completeHeader s b (mh_size (hdrs s b) + mh_size (hdrs s c) + 16) 0 (hd vs))
      (hd vs) (\<lambda>h. h\<lparr>mh_prev := b\<rparr>))\<lparr>memSlot := b\<rparr>"
    from vs nz have "hd vs \<noteq> 0" by (metis hd_in_set list.set_intros(2))
    then have e: "kfree pl s (b + 16) = Inr (1, ?s)"
      using v sane m \<open>b < c\<close> True vs cn bn merges_iff [OF ow, of c]
      by (simp add: kfree_def Let_def completeHeader_def)
    have h: "hd vs \<noteq> b" "hd vs \<in> set vs" using bn vs by (metis hd_in_set list.set_intros(2), simp)
    have "fl 0 ?s ([] @ b # vs)"
    proof (rule fl_insert [of k s _ "c # vs"])
      show "vs = c # vs \<and> blk_end (hdrs ?s) b = blk_end (hdrs s) b \<or>
        (\<exists>y. c # vs = y # vs \<and> blk_end (hdrs ?s) b = blk_end (hdrs s) y)"
        using merged_end [OF fl _ True, of "hdrs ?s"] h by (simp add: completeHeader_def)
    qed (use fl ow lt h bn vs in \<open>auto simp: completeHeader_def\<close>)
    with e True h show ?thesis by (auto simp: merges_def completeHeader_def)
  next
    case False
    let ?s = "(set_hdr (completeHeader s b (mh_size (hdrs s b)) 0 c) c (\<lambda>h. h\<lparr>mh_prev := b\<rparr>))\<lparr>memSlot := b\<rparr>"
    have e: "kfree pl s (b + 16) = Inr (1, ?s)"
      using v sane m \<open>b < c\<close> False merges_iff [OF ow, of c]
      by (simp add: kfree_def Let_def)
    have "fl 0 ?s ([] @ b # c # vs)"
      by (rule fl_insert [of k s _ "c # vs"])
        (use fl ow lt bn sane in \<open>auto simp: completeHeader_def blk_end_def\<close>)
    with e False bn show ?thesis by (auto simp: merges_def completeHeader_def)
  qed
qed

text \<open>Case D: the block goes to the end of the list.\<close>

lemma kfree_last_fl:
  assumes fl: "fl k s (us @ [c])" and ow: "owned k (hdrs s) (us @ [c]) b"
    and lo: "\<forall>u \<in> set (us @ [c]). u < b" and lt: "\<not> left_test (hdrs s) c b"
  shows "fl 0 (kfree_last s b c) (us @ [c, b])" "mh_size (hdrs (kfree_last s b c) b) = mh_size (hdrs s b)"
proof -
  have bn: "b \<notin> set (us @ [c])" by (rule owned_notin [OF ow])
  have sane: "sanityCheck (hdrs s b) = mh_size (hdrs s b) + 16" using ow by (simp add: owned_def hdr_ok_def)
  have e: "kfree_last s b c = set_hdr (completeHeader s b (mh_size (hdrs s b)) c 0) c (\<lambda>h. h\<lparr>mh_next := b\<rparr>)"
    using lt by (simp add: kfree_last_def left_test_def Let_def)
  have m: "memSlot s \<in> set (us @ [c])" using fl by (simp add: fl_def)
  have "fl 0 (kfree_last s b c) ((us @ [c]) @ b # [])"
    by (rule fl_insert [of k s _ "[]"])
      (use fl ow lo bn m sane in \<open>auto simp: e completeHeader_def blk_end_def\<close>)
  then show "fl 0 (kfree_last s b c) (us @ [c, b])" by simp
  show "mh_size (hdrs (kfree_last s b c) b) = mh_size (hdrs s b)"
    using bn by (simp add: e completeHeader_def)
qed

text \<open>Cases G and H: the block goes between \<open>c\<close> and \<open>y\<close>.\<close>

lemma kfree_between_fl:
  assumes fl: "fl k s (us @ c # y # ys)" and ow: "owned k (hdrs s) (us @ c # y # ys) b"
    and lo: "\<forall>u \<in> set (us @ [c]). u < b" and hi: "\<forall>z \<in> set (y # ys). b < z"
    and lt: "\<not> left_test (hdrs s) c b" and m: "memSlot s \<in> set (us @ [c])"
  shows "fl 0 (kfree_between s b c) (us @ c # b # (if merges (hdrs s) b (y # ys) then ys else y # ys))"
    "mh_size (hdrs (kfree_between s b c) b) =
       mh_size (hdrs s b) + (if merges (hdrs s) b (y # ys) then 16 + mh_size (hdrs s y) else 0)"
proof -
  let ?s = "kfree_between s b c"
  have bn: "b \<notin> set (us @ c # y # ys)" by (rule owned_notin [OF ow])
  have d: "distinct (us @ c # y # ys)" by (rule fl_distinct [OF fl])
  have nz: "0 \<notin> set (us @ c # y # ys)" using fl_nonzero [OF fl] by metis
  have sane: "sanityCheck (hdrs s b) = mh_size (hdrs s b) + 16" using ow by (simp add: owned_def hdr_ok_def)
  have n: "mh_next (hdrs s c) = y" "mh_next (hdrs s y) = fst_of ys 0"
    using fl by (simp_all add: fl_def dll_append)
  have g: "(b + 16 + mh_size (hdrs s b) = y) = (blk_end (hdrs s) b = unat y)" by (rule merges_iff [OF ow])
  have fl': "fl k s ((us @ [c]) @ y # ys)" "owned k (hdrs s) ((us @ [c]) @ y # ys) b" using fl ow by simp_all
  show "fl 0 ?s (us @ c # b # (if merges (hdrs s) b (y # ys) then ys else y # ys))"
  proof (cases "blk_end (hdrs s) b = unat y")
    case True
    have sz: "mh_size (hdrs ?s b) = mh_size (hdrs s b) + mh_size (hdrs s y) + 16"
      using lt g True n by (simp add: kfree_between_def left_test_def Let_def completeHeader_def)
    have be: "blk_end (hdrs ?s) b = blk_end (hdrs s) y" using merged_end [OF fl _ True, of "hdrs ?s"] sz by simp
    have "fl 0 ?s ((us @ [c]) @ b # ys)"
    proof (cases ys)
      case Nil
      show ?thesis
        by (rule fl_insert [OF fl']) (use lo hi bn d nz m lt g True n be Nil in
          \<open>auto simp: kfree_between_def left_test_def Let_def completeHeader_def\<close>)
    next
      case (Cons z zs)
      show ?thesis
        by (rule fl_insert [OF fl']) (use lo hi bn d nz m lt g True n be Cons in
          \<open>auto simp: kfree_between_def left_test_def Let_def completeHeader_def\<close>)
    qed
    with True show ?thesis by (simp add: merges_def)
  next
    case False
    have "fl 0 ?s ((us @ [c]) @ b # y # ys)"
      by (rule fl_insert [OF fl']) (use lo hi bn d nz m lt g False n sane in
        \<open>auto simp: kfree_between_def left_test_def Let_def completeHeader_def blk_end_def\<close>)
    with False show ?thesis by (simp add: merges_def)
  qed
  show "mh_size (hdrs ?s b) =
       mh_size (hdrs s b) + (if merges (hdrs s) b (y # ys) then 16 + mh_size (hdrs s y) else 0)"
    using lt g n bn by (auto simp: kfree_between_def left_test_def Let_def completeHeader_def merges_def)
qed

lemma sorted_takeWhile_less:
  assumes "sorted_wrt (<) zs" and "(b :: u32) \<notin> set zs"
  shows "dropWhile (\<lambda>z. z < b) zs = dropWhile (\<lambda>z. \<not> b < z) zs"
    "takeWhile (\<lambda>z. z < b) zs = takeWhile (\<lambda>z. \<not> b < z) zs"
    "\<forall>z \<in> set (dropWhile (\<lambda>z. \<not> b < z) zs). b < z"
proof -
  have eq: "(z < b) = (\<not> b < z)" if "z \<in> set zs" for z using assms(2) that by (metis not_less_iff_gr_or_eq)
  show "dropWhile (\<lambda>z. z < b) zs = dropWhile (\<lambda>z. \<not> b < z) zs" by (rule dropWhile_cong) (simp_all add: eq)
  show "takeWhile (\<lambda>z. z < b) zs = takeWhile (\<lambda>z. \<not> b < z) zs" by (rule takeWhile_cong) (simp_all add: eq)
  show "\<forall>z \<in> set (dropWhile (\<lambda>z. \<not> b < z) zs). b < z"
    using assms(1)
  proof (induction zs)
    case (Cons a zs)
    show ?case
    proof (cases "b < a")
      case True
      with Cons.prems show ?thesis by (auto intro: less_trans)
    next
      case False
      then have "dropWhile (\<lambda>z. \<not> b < z) (a # zs) = dropWhile (\<lambda>z. \<not> b < z) zs" by simp
      with Cons.IH Cons.prems show ?thesis by (metis sorted_wrt.simps(2))
    qed
  qed simp
qed

text \<open>Cases D, G and H: the block lies above \<open>memSlot\<close>, the first free block.\<close>

lemma kfree_above:
  assumes fl: "fl k s (c # vs)" and ow: "owned k (hdrs s) (c # vs) b" and m: "memSlot s = c" and "c < b"
    and lt: "\<forall>z \<in> set (c # vs). \<not> left_test (hdrs s) z b" and v: "\<not> kfree_invalid pl (b + 16)"
  shows "\<exists>s'. kfree pl s (b + 16) = Inr (1, s') \<and> fl 0 s' (free_insert (hdrs s) b (c # vs)) \<and>
    mh_size (hdrs s' b) = mh_size (hdrs s b) +
      (let ys = dropWhile (\<lambda>z. z < b) (c # vs) in if merges (hdrs s) b ys then 16 + mh_size (hdrs s (hd ys)) else 0)"
proof -
  let ?xs = "takeWhile (\<lambda>z. \<not> b < z) vs" and ?ys = "dropWhile (\<lambda>z. \<not> b < z) vs"
  let ?us = "butlast (c # ?xs)" and ?c = "last (c # ?xs)"
  have sane: "sanityCheck (hdrs s b) = mh_size (hdrs s b) + 16" using ow by (simp add: owned_def hdr_ok_def)
  have bn: "b \<notin> set (c # vs)" by (rule owned_notin [OF ow])
  have "sorted_wrt (\<lambda>a b. blk_end (hdrs s) a + 16 * k \<le> unat b) (c # vs)" using fl by (simp add: fl_def)
  then have "sorted_wrt (<) (c # vs)"
    by (rule sorted_wrt_cong [rotated]) (simp add: blk_end_def word_less_nat_alt)
  with bn have "sorted_wrt (<) vs" "b \<notin> set vs" by simp_all
  note tw = sorted_takeWhile_less [OF this]
  have ab: "?us @ [?c] = c # ?xs" by (rule append_butlast_last_id) simp
  have "c # vs = (c # ?xs) @ ?ys" by simp
  also have "\<dots> = (?us @ [?c]) @ ?ys" by (simp only: ab)
  finally have split: "c # vs = ?us @ ?c # ?ys" by (simp only: append.assoc append_Cons append_Nil)
  have "u < b" if "u \<in> set (c # ?xs)" for u
    using that \<open>c < b\<close> bn by (metis neqE set_ConsD set_takeWhileD list.set_intros(2))
  then have lo: "\<forall>u \<in> set (?us @ [?c]). u < b" unfolding ab by blast
  have c: "\<not> left_test (hdrs s) ?c b" using lt split by (metis in_set_conv_decomp)
  have ms: "memSlot s \<in> set (?us @ [?c])" unfolding ab by (simp add: m)
  have e: "kfree pl s (b + 16) = Inr (1, if ?ys = [] then kfree_last s b ?c else kfree_between s b ?c)"
  proof -
    have "kfree pl s (b + 16) = loop_res (kfree_loop s b c)"
      using v sane m \<open>c < b\<close> order_less_not_sym [OF \<open>c < b\<close>] by (simp add: kfree_def Let_def)
    moreover have "dll (hdrs s) 0 (c # vs) 0" "0 \<notin> set (c # vs)"
      using fl fl_nonzero [OF fl] by (auto simp: fl_def)
    note kfree_loop_eq [OF this, of b]
    ultimately show ?thesis by (simp add: Let_def del: last.simps)
  qed
  have fi: "free_insert (hdrs s) b (c # vs) = ?us @ ?c # b # (if merges (hdrs s) b ?ys then tl ?ys else ?ys)"
  proof -
    have "free_insert (hdrs s) b (c # vs) = (c # ?xs) @ b # (if merges (hdrs s) b ?ys then tl ?ys else ?ys)"
      using \<open>c < b\<close> by (simp add: free_insert_def tw(1,2) Let_def)
    also have "\<dots> = (?us @ [?c]) @ b # (if merges (hdrs s) b ?ys then tl ?ys else ?ys)" by (simp only: ab)
    finally show ?thesis by (simp only: append.assoc append_Cons append_Nil)
  qed
  show ?thesis
  proof (cases ?ys)
    case Nil
    note fl' = fl [unfolded split Nil] and ow' = ow [unfolded split Nil]
    show ?thesis using kfree_last_fl [OF fl' ow' lo c] \<open>c < b\<close>
      unfolding e fi by (simp add: Nil tw(1,2) merges_def)
  next
    case (Cons y ys)
    note fl' = fl [unfolded split Cons] and ow' = ow [unfolded split Cons]
    show ?thesis using kfree_between_fl [OF fl' ow' lo tw(3) [unfolded Cons] c ms] \<open>c < b\<close>
      unfolding e fi by (auto simp: Cons tw(1,2) simp del: butlast.simps last.simps split: if_splits)
  qed
qed

section \<open>Properties of \<open>kfree\<close>\<close>

text \<open>
  C10. Giving back a block. The free list is well formed with \<open>memSlot\<close> at its first block, \<open>b\<close> is
  the header of a block in use whose address \<open>kfree\<close> accepts, no free block satisfies the mistaken
  left-merge test, and it is not the case that the only free block begins where \<open>b\<close> ends. Then
  \<open>kfree\<close> returns 1; the free list holds \<open>b\<close> at its place in the order of addresses, again well
  formed; and a free block that begins where \<open>b\<close> ends is merged into it, its header included. Every free
  block below \<open>b\<close> stays in the list beside \<open>b\<close>, also one that ends exactly where \<open>b\<close> begins: the comments of
  the code say that such a block is merged with \<open>b\<close>, but the test for it scales the size by 16.
\<close>

theorem kfree_returns_block:
  assumes "fl k s zs" and "zs \<noteq> []" and "memSlot s = hd zs" and "owned k (hdrs s) zs b"
    and "\<not> kfree_invalid pl (b + 16)" and "\<forall>z \<in> set zs. \<not> left_test (hdrs s) z b"
    and "\<not> (length zs = 1 \<and> merges (hdrs s) b zs)"
  shows "\<exists>s'. kfree pl s (b + 16) = Inr (1, s') \<and> fl 0 s' (free_insert (hdrs s) b zs) \<and>
    mh_size (hdrs s' b) = mh_size (hdrs s b) +
      (let ys = dropWhile (\<lambda>z. z < b) zs in if merges (hdrs s) b ys then 16 + mh_size (hdrs s (hd ys)) else 0) \<and>
    (\<forall>z \<in> set (takeWhile (\<lambda>z. z < b) zs). z \<noteq> b \<and> z \<in> set (free_insert (hdrs s) b zs))"
proof -
  have left: "\<forall>z \<in> set (takeWhile (\<lambda>z. z < b) zs). z \<noteq> b \<and> z \<in> set (free_insert (hdrs s) b zs)"
    by (auto simp: free_insert_def Let_def dest: set_takeWhileD)
  from assms(2,3) obtain c vs where zs: "zs = c # vs" "memSlot s = c" by (cases zs) auto
  note fl = assms(1) [unfolded zs(1)] and ow = assms(4) [unfolded zs(1)]
  show ?thesis
  proof (cases "c < b")
    case True
    from kfree_above [OF fl ow zs(2) True assms(6) [unfolded zs(1)] assms(5)] left show ?thesis by (simp only: zs(1)) blast
  next
    case False
    with owned_notin [OF ow] have "b < c" by auto
    moreover have "\<not> (vs = [] \<and> blk_end (hdrs s) b = unat c)" using assms(7) by (auto simp: zs merges_def)
    ultimately show ?thesis using kfree_front [OF fl ow zs(2) _ _ assms(5)] False
      by (auto simp: zs(1) free_insert_def Let_def split: if_splits)
  qed
qed

definition hdr_of :: "u32 \<Rightarrow> u32 \<Rightarrow> u32 \<Rightarrow> memHeader" where
  "hdr_of sz p n = \<lparr>mh_size = sz, mh_prev = p, mh_next = n, sanityCheck = sz + 16\<rparr>"

text \<open>A block in use at 0x20010, with free blocks right after it and further up.\<close>

definition freeing :: memstate where
  "freeing = \<lparr>memSlot = 0x20060, hdrs = (hdrs raw_mem)(0x20010 := hdr_of 0x40 0 0,
     0x20060 := hdr_of 0x20 0 0x30000, 0x30000 := hdr_of 0x100 0x20060 0)\<rparr>"

theorem kfree_returns_block_witness:
  "\<exists>s'. kfree pc_platform freeing 0x20020 = Inr (1, s') \<and> fl 0 s' [0x20010, 0x30000] \<and>
     mh_size (hdrs s' 0x20010) = 0x70"
proof -
  let ?zs = "[0x20060, 0x30000] :: u32 list"
  have "fl 0 freeing ?zs" "owned 0 (hdrs freeing) ?zs 0x20010"
    by (simp_all add: fl_def owned_def freeing_def hdr_ok_def blk_end_def hdr_of_def)
  moreover have "\<not> kfree_invalid pc_platform (0x20010 + 16)"
    by (simp add: kfree_invalid_def pc_platform_def aligned_def)
  moreover have "\<forall>z \<in> set ?zs. \<not> left_test (hdrs freeing) z 0x20010" "memSlot freeing = hd ?zs"
    by (simp_all add: left_test_def freeing_def hdr_of_def hdr_plus_def)
  ultimately have "\<exists>s'. kfree pc_platform freeing (0x20010 + 16) = Inr (1, s') \<and>
    fl 0 s' (free_insert (hdrs freeing) 0x20010 ?zs) \<and> mh_size (hdrs s' 0x20010) = mh_size (hdrs freeing 0x20010) +
      (let ys = dropWhile (\<lambda>z. z < 0x20010) ?zs in
       if merges (hdrs freeing) 0x20010 ys then 16 + mh_size (hdrs freeing (hd ys)) else 0) \<and>
      (\<forall>z \<in> set (takeWhile (\<lambda>z. z < 0x20010) ?zs). z \<noteq> 0x20010 \<and> z \<in> set (free_insert (hdrs freeing) 0x20010 ?zs))"
    by (intro kfree_returns_block) simp_all
  then show ?thesis by (simp add: free_insert_def merges_def freeing_def blk_end_def hdr_of_def)
qed

text \<open>
  C17. When the only free block begins where the block given back ends, \<open>kfree\<close> writes the
  back-link of the block after it through a NULL pointer.
\<close>

theorem kfree_sole_neighbour_faults:
  assumes "fl k s [c]" and "owned k (hdrs s) [c] b" and "blk_end (hdrs s) b = unat c"
    and "\<not> kfree_invalid pl (b + 16)"
  shows "kfree pl s (b + 16) = Inl NullDeref"
proof -
  from assms(1) have c: "memSlot s = c" "mh_next (hdrs s c) = 0" by (auto simp: fl_def)
  from assms(2) have sane: "sanityCheck (hdrs s b) = mh_size (hdrs s b) + 16" by (simp add: owned_def hdr_ok_def)
  have "b < c" using assms(3) by (simp add: blk_end_def word_less_nat_alt)
  with c sane assms(3,4) merges_iff [OF assms(2), of c] show ?thesis
    by (auto simp: kfree_def Let_def completeHeader_def)
qed

definition freeing_last :: memstate where
  "freeing_last = \<lparr>memSlot = 0x20060, hdrs = (hdrs raw_mem)(0x20010 := hdr_of 0x40 0 0,
     0x20060 := hdr_of 0x20 0 0)\<rparr>"

theorem kfree_sole_neighbour_faults_witness: "kfree pc_platform freeing_last 0x20020 = Inl NullDeref"
proof -
  have "fl 0 freeing_last [0x20060]" "owned 0 (hdrs freeing_last) [0x20060] 0x20010"
    "blk_end (hdrs freeing_last) 0x20010 = unat (0x20060 :: u32)"
    by (simp_all add: fl_def owned_def freeing_last_def hdr_ok_def blk_end_def hdr_of_def)
  then have "\<not> kfree_invalid pc_platform (0x20010 + 16) \<Longrightarrow> kfree pc_platform freeing_last (0x20010 + 16) = Inl NullDeref"
    by (rule kfree_sole_neighbour_faults)
  then show ?thesis by (simp add: kfree_invalid_def pc_platform_def aligned_def)
qed

text \<open>
  \<open>kfree\<close> refuses, returning 0 with memory as it was: an address in the kernel, in the hole,
  above memory or not aligned; a block whose header's check word does not match its size; the block
  \<open>memSlot\<close> points at; and any block at all while there is no free block.
\<close>

theorem kfree_refuses:
  assumes "kfree_invalid pl ptr \<or> sanityCheck (hdrs s (ptr - 16)) \<noteq> mh_size (hdrs s (ptr - 16)) + 16 \<or>
    memSlot s = ptr - 16 \<or> memSlot s = 0"
  shows "kfree pl s ptr = Inr (0, s)"
proof -
  have "kfree_loop s (ptr - 16) 0 = Some (0, s)" by (subst kfree_loop.simps) simp
  with assms show ?thesis by (auto simp: kfree_def Let_def)
qed

theorem kfree_refuses_witness: "kfree pc_platform freeing 0x20071 = Inr (0, freeing)"
  using kfree_refuses [of pc_platform "0x20071" freeing] by (simp add: kfree_invalid_def aligned_def)

text \<open>The block an allocation is taken from tells how.\<close>

lemma kmalloc_from:
  assumes "fl k s zs" and "c \<in> set zs" and "kmalloc s n = Inr (c + 16, s')" and "aligned n + 16 < mh_size (hdrs s c)"
  shows "kmalloc_split s (aligned n) c = (c + 16, s')"
proof -
  have c: "c + 16 \<noteq> 0"
  proof
    assume "c + 16 = 0"
    then have "c = - 16" by (simp add: eq_neg_iff_add_eq_0)
    moreover have "unat c + 16 < 4294967296" using assms(1,2) by (auto simp: fl_def blk_end_def)
    ultimately show False by simp
  qed
  then have nz: "aligned n \<noteq> 0" "memSlot s \<noteq> 0" using assms(3) by (auto simp: kmalloc_def Let_def)
  then have "memSlot s \<in> set zs" using assms(1) by (auto simp: fl_def split: if_splits)
  then obtain us ws where zs: "zs = us @ memSlot s # ws" by (meson split_list)
  with assms(1) have d: "dll (hdrs s) (lst_of 0 us) (memSlot s # ws) 0" by (simp add: fl_def dll_append)
  let ?fit = "\<lambda>c. aligned n + 16 < mh_size (hdrs s c) \<or> aligned n \<le> mh_size (hdrs s c)"
  have "kmalloc s n = Inr (case find ?fit (memSlot s # ws) of None \<Rightarrow> (0, s)
     | Some c \<Rightarrow> if aligned n + 16 < mh_size (hdrs s c) then kmalloc_split s (aligned n) c else kmalloc_take s c)"
    using kmalloc_loop_eq [OF d, of "aligned n"] fl_nonzero [OF assms(1)] zs nz by (simp add: kmalloc_def Let_def)
  with assms(3) c obtain x where
    "(if aligned n + 16 < mh_size (hdrs s x) then kmalloc_split s (aligned n) x else kmalloc_take s x) = (c + 16, s')"
    by (cases "find ?fit (memSlot s # ws)") auto
  moreover have "fst (kmalloc_split s r x) = x + 16" "fst (kmalloc_take s x) = x + 16" for r
    by (simp_all add: kmalloc_split_def kmalloc_take_def Let_def)
  ultimately show ?thesis using assms(4) by (metis add_right_cancel fst_conv)
qed

text \<open>
  C18. The remainder of a split block overlaps what follows. Whenever \<open>kmalloc\<close> serves a request from a
  free block \<open>c\<close> that is larger than the request by more than a header, the part that stays free is given a
  size that counts its own header as data: it ends 16 bytes after the end of \<open>c\<close>. So it overlaps the block
  that begins where \<open>c\<close> ended, if there is one, in use or not; and it is the block at which the next
  search starts.
\<close>

theorem split_overlaps_neighbour:
  assumes "fl k s zs" and "c \<in> set zs" and "kmalloc s n = Inr (c + 16, s')" and "aligned n + 16 < mh_size (hdrs s c)"
    and "unat n \<le> 4294967264" and "r = c + 16 + aligned n"
  shows "memSlot s' = r \<and> blk_end (hdrs s') r = blk_end (hdrs s) c + 16 \<and>
    (\<forall>b. unat b = blk_end (hdrs s) c \<longrightarrow> \<not> disjnt_blk (hdrs s') r b)"
proof -
  let ?q = "aligned n" and ?m = "mh_size (hdrs s c)"
  from kmalloc_from [OF assms(1-4)] have s': "s' = snd (kmalloc_split s ?q c)" by simp
  have e: "unat c + 16 + unat ?m < 4294967296" using assms(1,2) by (auto simp: fl_def blk_end_def)
  have "unat (?q + 16) = unat ?q + 16" using assms(5) by (auto simp: unat_aligned unat_word_ariths)
  then have q: "unat ?q + 16 < unat ?m" using assms(4) by (simp add: word_less_nat_alt)
  then have r: "unat r = unat c + 16 + unat ?q" using e by (simp add: assms(6) unat_word_ariths)
  then have "r \<noteq> c" by auto
  then have f: "memSlot s' = r" "mh_size (hdrs s' r) = ?m - ?q"
    by (auto simp: s' kmalloc_split_def Let_def completeHeader_def assms(6))
  moreover have "unat (?m - ?q) = unat ?m - unat ?q" using q by (simp add: unat_sub word_le_nat_alt)
  ultimately have b: "blk_end (hdrs s') r = blk_end (hdrs s) c + 16" using r q by (simp add: blk_end_def)
  have "\<not> disjnt_blk (hdrs s') r b" if "unat b = blk_end (hdrs s) c" for b
  proof -
    have "unat r < unat b" using that r q by (simp add: blk_end_def)
    then show ?thesis using that b by (auto simp: disjnt_blk_def blk_end_def [of _ b])
  qed
  with f b show ?thesis by blast
qed

text \<open>A free block of 64 bytes with a block in use right after it.\<close>

definition splitting :: memstate where
  "splitting = \<lparr>memSlot = 0x20010, hdrs = (hdrs raw_mem)(0x20010 := hdr_of 64 0 0, 0x20060 := hdr_of 64 0 0)\<rparr>"

theorem split_overlaps_neighbour_witness:
  "\<exists>s'. kmalloc splitting 32 = Inr (0x20020, s') \<and> \<not> disjnt_blk (hdrs s') 0x20040 0x20060"
proof -
  have fl: "fl 0 splitting [0x20010]" by (simp add: fl_def splitting_def hdr_ok_def blk_end_def hdr_of_def)
  have al: "aligned 32 = 32" by (simp add: aligned_def)
  have ms: "memSlot splitting = 0x20010" "mh_size (hdrs splitting 0x20010) = 64"
    by (simp_all add: splitting_def hdr_of_def)
  have "\<exists>s'. kmalloc splitting 32 = Inr (0x20010 + 16, s')"
    by (simp add: kmalloc_def kmalloc_loop.simps [of splitting 32 "0x20010"] al ms Let_def kmalloc_split_def)
  then obtain s' where s': "kmalloc splitting 32 = Inr (0x20010 + 16, s')" by blast
  have "aligned 32 + 16 < mh_size (hdrs splitting 0x20010)" by (simp add: al splitting_def hdr_of_def)
  from split_overlaps_neighbour [OF fl _ s' this, of "0x20040"] s' show ?thesis
    by (simp add: al) (simp add: splitting_def blk_end_def hdr_of_def)
qed

end
