(* ===== verification/ReadyQ.thy ===== *)
theory ReadyQ
  imports Pcb
begin

text \<open>
  The ready queue of \<open>c/disp.c\<close>: \<open>ready\<close>, \<open>next\<close> (here \<open>next_proc\<close>), \<open>removeFromReady\<close>,
  the table search \<open>findPCB\<close> and the process listing \<open>getCPUtimes\<close>. The queue is a singly
  linked list threaded through the process table; its abstraction is the list of table indices
  \<open>readyq\<close>. The locale \<open>fifo\<close> states what a scheduler needs of such a queue and proves round
  robin from it.
\<close>

section \<open>Operations\<close>

definition ready :: "sched \<Rightarrow> nat \<Rightarrow> sched" where
  "ready s p =
    (let s1 = set_pcb s p (\<lambda>c. c\<lparr>pnext := None, state := STATE_READY\<rparr>);
         s2 = (case tail s1 of
                 Some t \<Rightarrow> set_pcb s1 t (\<lambda>c. c\<lparr>pnext := Some p\<rparr>)
               | None \<Rightarrow> s1\<lparr>head := Some p\<rparr>)
     in s2\<lparr>tail := Some p\<rparr>)"

definition next_proc :: "sched \<Rightarrow> (nat \<times> sched) kres" where
  "next_proc s =
    (case head s of
       Some p \<Rightarrow>
         let s1 = s\<lparr>head := pnext (proctab s p)\<rparr>;
             s2 = (if head s1 = None then s1\<lparr>tail := None\<rparr> else s1)
         in Inr (p, set_pcb s2 p (\<lambda>c. c\<lparr>pnext := None, pprev := None\<rparr>))
     | None \<Rightarrow> Inl Halt)"

text \<open>
  \<open>dispatchinit\<close> clears the process table. The queue heads are static variables, NULL when the
  kernel is loaded: \<open>boot_sched\<close> is the scheduler after \<open>dispatchinit\<close> on a fresh image.
\<close>

definition dispatchinit :: "sched \<Rightarrow> sched" where
  "dispatchinit s = s\<lparr>proctab := (\<lambda>_. zero_pcb)\<rparr>"

definition boot_sched :: sched where
  "boot_sched = dispatchinit \<lparr>proctab = (\<lambda>_. zero_pcb), head = None, tail = None, sleepQ = None\<rparr>"

definition findPCB :: "sched \<Rightarrow> u32 \<Rightarrow> pptr" where
  "findPCB s n = find (\<lambda>i. pid (proctab s i) = n) [0..<MAX_PROC]"

text \<open>The found case of the search loop: unlink \<open>p\<close>, whose predecessor is \<open>prev\<close>.\<close>

definition unlink_ready :: "sched \<Rightarrow> nat \<Rightarrow> nat \<Rightarrow> sched" where
  "unlink_ready s p prev =
    (let s1 = set_pcb s prev (\<lambda>q. q\<lparr>pnext := pnext (proctab s p)\<rparr>);
         s2 = (if tail s1 = Some p then s1\<lparr>tail := Some prev\<rparr> else s1)
     in set_pcb s2 p (\<lambda>q. q\<lparr>pnext := None\<rparr>))"

partial_function (option) removeFromReady_loop ::
  "sched \<Rightarrow> nat \<Rightarrow> nat \<Rightarrow> pptr \<Rightarrow> sched option" where
  "removeFromReady_loop s p prev cur =
    (if cur = None then Some s
     else if cur = Some p then Some (unlink_ready s p prev)
     else removeFromReady_loop s p (the cur) (pnext (proctab s (the cur))))"

definition removeFromReady :: "sched \<Rightarrow> nat \<Rightarrow> sched kres" where
  "removeFromReady s p =
    (case head s of
       None \<Rightarrow> Inr s
     | Some h \<Rightarrow>
         if h = p then
           let s1 = s\<lparr>head := pnext (proctab s p)\<rparr>
           in Inr (if head s1 = None then s1\<lparr>tail := head s1\<rparr> else s1)
         else loop_res (removeFromReady_loop s p h (pnext (proctab s h))))"

text \<open>
  The body of the loop of \<open>getCPUtimes\<close> for table entry \<open>i\<close>, on the slot counter and the
  caller's structure.
\<close>

definition getCPUtimes_step ::
  "sched \<Rightarrow> nat \<Rightarrow> nat \<Rightarrow> u32 \<times> processStatuses \<Rightarrow> u32 \<times> processStatuses" where
  "getCPUtimes_step s p i = (\<lambda>(currentSlot, ps).
     if state (proctab s i) \<noteq> STATE_STOPPED then
       let k = currentSlot + 1; c = proctab s i in
       (k, ps\<lparr>ps_pid := (ps_pid ps)(unat k := pid c),
              ps_status := (ps_status ps)(unat k :=
                 (if pid (proctab s p) = pid c then STATE_RUNNING else state c)),
              ps_cpuTime := (ps_cpuTime ps)(unat k := cpuTime c * MILLISECONDS_TICK)\<rparr>)
     else (currentSlot, ps))"

definition sizeof_processStatuses :: u32 where [simp]: "sizeof_processStatuses = 772"

definition getCPUtimes ::
  "platform \<Rightarrow> sched \<Rightarrow> nat \<Rightarrow> u32 \<Rightarrow> processStatuses \<Rightarrow> u32 \<times> processStatuses" where
  "getCPUtimes pl s p psaddr ps =
    (if HOLESTART pl \<le> psaddr \<and> psaddr \<le> HOLEEND pl then (- 1, ps)
     else if maxaddr pl < psaddr + sizeof_processStatuses then (- 2, ps)
     else fold (getCPUtimes_step s p) [0..<MAX_PROC] (- 1, ps))"

section \<open>Abstraction and invariant\<close>

definition readyq :: "sched \<Rightarrow> nat list" where
  "readyq s = walk MAX_PROC (nxt s) (head s)"

definition rq :: "sched \<Rightarrow> nat list \<Rightarrow> bool" where
  "rq s xs \<longleftrightarrow> chain (nxt s) (head s) xs \<and>
     tail s = (if xs = [] then None else Some (last xs)) \<and>
     (\<forall>i \<in> set xs. i < MAX_PROC \<and> state (proctab s i) = STATE_READY)"

definition rq_ok :: "sched \<Rightarrow> bool" where
  "rq_ok s \<longleftrightarrow> rq s (readyq s)"

lemma bounded_list_length:
  assumes "distinct xs" and "\<forall>i \<in> set xs. i < (n :: nat)"
  shows "length xs \<le> n"
proof -
  from assms(2) have "set xs \<subseteq> {..<n}" by auto
  then have "card (set xs) \<le> n" by (metis card_lessThan card_mono finite_lessThan)
  with assms(1) show ?thesis by (simp add: distinct_card)
qed

lemma rq_distinct: "rq s xs \<Longrightarrow> distinct xs"
  by (auto simp: rq_def intro: chain_distinct)

lemma rq_readyq: assumes "rq s xs" shows "readyq s = xs"
proof -
  from assms have "length xs \<le> MAX_PROC"
    by (intro bounded_list_length rq_distinct) (auto simp: rq_def)
  with assms show ?thesis unfolding readyq_def rq_def by (blast intro: chain_walk)
qed

lemma rq_okI: "rq s xs \<Longrightarrow> rq_ok s \<and> readyq s = xs"
  by (simp add: rq_ok_def rq_readyq)

lemma rq_okD: "rq_ok s \<Longrightarrow> rq s (readyq s)"
  by (simp add: rq_ok_def)

lemma nxt_ready:
  "nxt (ready s p) =
     (case tail s of None \<Rightarrow> (nxt s)(p := None) | Some t \<Rightarrow> (nxt s)(p := None, t := Some p))"
  by (auto simp: ready_def Let_def nxt_def fun_eq_iff split: option.splits)

lemma ready_fields [simp]:
  "tail (ready s p) = Some p" "sleepQ (ready s p) = sleepQ s"
  "head (ready s p) = (if tail s = None then Some p else head s)"
  by (auto simp: ready_def Let_def split: option.splits)

lemma ready_proctab:
  "proctab (ready s p) i =
     (proctab s i)\<lparr>pnext := nxt (ready s p) i,
        state := (if i = p then STATE_READY else state (proctab s i))\<rparr>"
  by (auto simp: ready_def Let_def nxt_def split: option.splits)

lemma rq_ready:
  assumes "rq s xs" and "p \<notin> set xs" and "p < MAX_PROC"
  shows "rq (ready s p) (xs @ [p])"
proof (cases "xs = []")
  case True
  with assms show ?thesis by (simp add: rq_def nxt_ready ready_proctab)
next
  case False
  with assms have "tail s = Some (last xs)" by (simp add: rq_def)
  moreover from assms False have "chain ((nxt s)(p := None, last xs := Some p)) (head s) (xs @ [p])"
    by (intro chain_snoc) (auto simp: rq_def)
  ultimately show ?thesis using assms
    by (auto simp: rq_def nxt_ready ready_proctab)
qed

lemma rq_next_proc:
  assumes "rq s (x # xs)"
  shows "\<exists>s'. next_proc s = Inr (x, s') \<and> rq s' xs"
proof -
  from assms have h: "head s = Some x" and c: "chain (nxt s) (nxt s x) xs"
    by (auto simp: rq_def)
  from rq_distinct [OF assms] have "x \<notin> set xs" by simp
  with c have "chain ((nxt s)(x := None)) (nxt s x) xs" by (simp add: chain_upd)
  moreover from c have "nxt s x = None \<longleftrightarrow> xs = []" by (cases xs) auto
  ultimately show ?thesis using assms h
    by (auto simp: next_proc_def Let_def rq_def nxt_set_pcb nxt_def [symmetric])
qed

lemma next_proc_empty: "rq s [] \<Longrightarrow> next_proc s = Inl Halt"
  by (simp add: rq_def next_proc_def)

lemma next_proc_fields:
  assumes "next_proc s = Inr (p, s')"
  shows "sleepQ s' = sleepQ s" "nxt s' = (nxt s)(p := None)"
    "proctab s' = (proctab s)(p := (proctab s p)\<lparr>pnext := None, pprev := None\<rparr>)"
  using assms by (auto simp: next_proc_def Let_def nxt_set_pcb split: option.splits if_splits)

lemma nxt_unlink_ready:
  "a \<noteq> p \<Longrightarrow> nxt (unlink_ready s p a) = (nxt s)(a := nxt s p, p := None)"
  by (auto simp: unlink_ready_def Let_def nxt_def fun_eq_iff)

lemma unlink_ready_fields [simp]:
  "head (unlink_ready s p a) = head s" "sleepQ (unlink_ready s p a) = sleepQ s"
  "tail (unlink_ready s p a) = (if tail s = Some p then Some a else tail s)"
  "state (proctab (unlink_ready s p a) i) = state (proctab s i)"
  by (auto simp: unlink_ready_def Let_def)

lemma rq_unlink:
  assumes "rq s (us @ [a, p] @ ws)"
  shows "rq (unlink_ready s p a) (us @ [a] @ ws)"
proof -
  from rq_distinct [OF assms] have d: "distinct (us @ [a, p] @ ws)" .
  from assms have "chain (nxt s) (head s) (us @ [a, p] @ ws)" by (simp add: rq_def)
  then have "chain ((nxt s)(a := nxt s p)) (head s) (us @ [a] @ ws)" by (rule chain_remove)
  with d have "chain ((nxt s)(a := nxt s p, p := None)) (head s) (us @ [a] @ ws)"
    by (subst chain_upd) auto
  moreover from d have "nxt (unlink_ready s p a) = (nxt s)(a := nxt s p, p := None)"
    by (intro nxt_unlink_ready) auto
  moreover from d have "ws \<noteq> [] \<Longrightarrow> last ws \<noteq> p" by (metis Un_iff append_Cons append_is_Nil_conv
        distinct.simps(2) distinct_append last_in_set set_append)
  ultimately show ?thesis using assms by (auto simp: rq_def)
qed

lemma removeFromReady_loop_eq:
  assumes "chain (nxt s) cur vs"
  shows "removeFromReady_loop s p prev cur =
    Some (if p \<in> set vs then unlink_ready s p (last (prev # takeWhile (\<lambda>x. x \<noteq> p) vs)) else s)"
  using assms
proof (induction vs arbitrary: prev cur)
  case Nil
  then show ?case by (simp add: removeFromReady_loop.simps)
next
  case (Cons c vs)
  then have cur: "cur = Some c" and ch: "chain (nxt s) (pnext (proctab s c)) vs"
    by (auto simp flip: nxt_def)
  from Cons.IH [OF ch, of c] cur show ?case
    by (subst removeFromReady_loop.simps) auto
qed

lemma takeWhile_first: "p \<notin> set ys \<Longrightarrow> takeWhile (\<lambda>x. x \<noteq> p) (ys @ p # ws) = ys"
  by (induction ys) auto

lemma rq_removeFromReady:
  assumes "rq s xs"
  shows "\<exists>s'. removeFromReady s p = Inr s' \<and> rq s' (remove1 p xs) \<and> sleepQ s' = sleepQ s"
proof (cases xs)
  case Nil
  with assms show ?thesis by (auto simp: rq_def removeFromReady_def)
next
  case (Cons h vs)
  with assms have hd: "head s = Some h" and ch: "chain (nxt s) (nxt s h) vs" by (auto simp: rq_def)
  show ?thesis
  proof (cases "h = p")
    case True
    moreover from ch have "nxt s h = None \<longleftrightarrow> vs = []" by (cases vs) auto
    ultimately show ?thesis using assms Cons hd ch
      by (auto simp: removeFromReady_def Let_def rq_def nxt_def [symmetric])
  next
    case False
    let ?a = "last (h # takeWhile (\<lambda>x. x \<noteq> p) vs)"
    have eq: "removeFromReady s p = Inr (if p \<in> set vs then unlink_ready s p ?a else s)"
      using False hd removeFromReady_loop_eq [OF ch, of p h]
      by (simp add: removeFromReady_def nxt_def)
    show ?thesis
    proof (cases "p \<in> set vs")
      case True
      then obtain ys ws where vs: "vs = ys @ p # ws" and ys: "p \<notin> set ys"
        by (meson split_list_first)
      then have tw: "takeWhile (\<lambda>x. x \<noteq> p) vs = ys" by (simp add: takeWhile_first)
      let ?us = "butlast (h # ys)"
      have "h # ys = ?us @ [?a]" unfolding tw by (metis append_butlast_last_id list.distinct(1))
      then have xs: "xs = ?us @ [?a, p] @ ws" using Cons vs
        by (metis append_Cons append_assoc append_Nil)
      with assms rq_unlink have "rq (unlink_ready s p ?a) (?us @ [?a] @ ws)" by metis
      moreover have "remove1 p xs = ?us @ [?a] @ ws"
      proof -
        from rq_distinct [OF assms] xs have "distinct (?us @ [?a, p] @ ws)" by metis
        then have "remove1 p (?us @ [?a, p] @ ws) = ?us @ [?a] @ ws"
          by (auto simp: remove1_append)
        with xs show ?thesis by metis
      qed
      ultimately show ?thesis using eq True by auto
    next
      case notin: False
      with False Cons have "remove1 p xs = xs" by (simp add: remove1_idem)
      with eq notin assms show ?thesis by auto
    qed
  qed
qed

section \<open>A scheduling queue as an interface\<close>

text \<open>
  \<open>run_yields n (p, s)\<close> is \<open>n\<close> times what the dispatcher does for \<open>SYS_YIELD\<close>: enqueue the
  running process \<open>p\<close>, run the process that is dequeued.
\<close>

fun run_yields ::
  "('s \<Rightarrow> 'p \<Rightarrow> 's) \<Rightarrow> ('s \<Rightarrow> ('p \<times> 's) kres) \<Rightarrow> nat \<Rightarrow> 'p \<times> 's \<Rightarrow> ('p \<times> 's) kres" where
  "run_yields enq deq 0 c = Inr c"
| "run_yields enq deq (Suc n) (p, s) =
     (case deq (enq s p) of Inl f \<Rightarrow> Inl f | Inr c \<Rightarrow> run_yields enq deq n c)"

locale fifo =
  fixes enq :: "'s \<Rightarrow> 'p \<Rightarrow> 's"
    and deq :: "'s \<Rightarrow> ('p \<times> 's) kres"
    and items :: "'s \<Rightarrow> 'p list"
    and inv :: "'s \<Rightarrow> bool"
    and node :: "'p \<Rightarrow> bool"
  assumes enq_inv: "inv s \<Longrightarrow> node p \<Longrightarrow> p \<notin> set (items s) \<Longrightarrow> inv (enq s p)"
    and enq_items: "inv s \<Longrightarrow> node p \<Longrightarrow> p \<notin> set (items s) \<Longrightarrow> items (enq s p) = items s @ [p]"
    and deq_Cons: "inv s \<Longrightarrow> items s = p # ps \<Longrightarrow> \<exists>s'. deq s = Inr (p, s') \<and> inv s' \<and> items s' = ps"
    and deq_Nil: "inv s \<Longrightarrow> items s = [] \<Longrightarrow> deq s = Inl Halt"
    and items_distinct: "inv s \<Longrightarrow> distinct (items s)"
    and items_node: "inv s \<Longrightarrow> p \<in> set (items s) \<Longrightarrow> node p"
begin

lemma yield_step:
  assumes "inv s" and "node p" and "p \<notin> set (items s)"
  shows "\<exists>p' s'. deq (enq s p) = Inr (p', s') \<and> inv s' \<and> node p' \<and> p' \<notin> set (items s') \<and>
    p' # items s' = rotate1 (p # items s)"
proof -
  from assms have inv: "inv (enq s p)" and it: "items (enq s p) = items s @ [p]"
    by (simp_all add: enq_inv enq_items)
  then obtain p' ps where ps: "items (enq s p) = p' # ps" by (cases "items s") auto
  with inv obtain s' where "deq (enq s p) = Inr (p', s')" "inv s'" "items s' = ps"
    using deq_Cons by blast
  moreover from items_distinct [OF inv] items_node [OF inv] ps have "p' \<notin> set ps" "node p'" by auto
  ultimately show ?thesis using it ps by auto
qed

lemma run_yields_rotate:
  assumes "inv s" and "node p" and "p \<notin> set (items s)"
  shows "\<exists>p' s'. run_yields enq deq n (p, s) = Inr (p', s') \<and> inv s' \<and>
    p' # items s' = rotate n (p # items s)"
  using assms
proof (induction n arbitrary: p s)
  case 0
  then show ?case by simp
next
  case (Suc n)
  from yield_step [OF Suc.prems] obtain p1 s1 where
    st: "deq (enq s p) = Inr (p1, s1)" "inv s1" "node p1" "p1 \<notin> set (items s1)"
    "p1 # items s1 = rotate1 (p # items s)" by blast
  from Suc.IH [OF st(2-4)] st(1,5) show ?case by (simp add: rotate1_rotate_swap)
qed

text \<open>Every queued process runs, and after exactly as many yields as it has predecessors.\<close>

lemma run_yields_nth:
  assumes "inv s" and "node p" and "p \<notin> set (items s)"
  shows "\<exists>s'. run_yields enq deq n (p, s) =
    Inr ((p # items s) ! (n mod Suc (length (items s))), s') \<and> inv s'"
proof -
  obtain p' s' where r: "run_yields enq deq n (p, s) = Inr (p', s')" "inv s'"
    "p' # items s' = rotate n (p # items s)"
    using run_yields_rotate [OF assms] by blast
  have "rotate n (p # items s) ! 0 = (p # items s) ! (n mod Suc (length (items s)))"
    by (subst nth_rotate) simp_all
  with r(3) have "p' = (p # items s) ! (n mod Suc (length (items s)))" by (metis nth_Cons_0)
  with r(1,2) show ?thesis by blast
qed

end

interpretation rdyq: fifo ready next_proc readyq rq_ok "\<lambda>p. p < MAX_PROC"
proof unfold_locales
  show "rq_ok (ready s p)" "readyq (ready s p) = readyq s @ [p]"
    if "rq_ok s" "p < MAX_PROC" "p \<notin> set (readyq s)" for s p
    using rq_ready [OF rq_okD] rq_okI that by blast+
  show "\<exists>s'. next_proc s = Inr (p, s') \<and> rq_ok s' \<and> readyq s' = ps"
    if "rq_ok s" "readyq s = p # ps" for s p ps
    using rq_next_proc rq_okI that by (metis rq_ok_def)
  show "next_proc s = Inl Halt" if "rq_ok s" "readyq s = []" for s
    using next_proc_empty that by (metis rq_ok_def)
  show "distinct (readyq s)" if "rq_ok s" for s
    using rq_distinct that by (metis rq_ok_def)
  show "p < MAX_PROC" if "rq_ok s" "p \<in> set (readyq s)" for s p
    using that by (auto simp: rq_ok_def rq_def)
qed

section \<open>The process listing\<close>

text \<open>What a listing of the table entries \<open>js\<close> looks like, entries beyond them untouched.\<close>

definition listing :: "sched \<Rightarrow> nat \<Rightarrow> nat list \<Rightarrow> processStatuses \<Rightarrow> processStatuses" where
  "listing s p js ps = ps\<lparr>
     ps_pid := (\<lambda>k. if k < length js then pid (proctab s (js ! k)) else ps_pid ps k),
     ps_status := (\<lambda>k. if k < length js then
        (if pid (proctab s p) = pid (proctab s (js ! k)) then STATE_RUNNING
         else state (proctab s (js ! k))) else ps_status ps k),
     ps_cpuTime := (\<lambda>k. if k < length js then cpuTime (proctab s (js ! k)) * MILLISECONDS_TICK
        else ps_cpuTime ps k)\<rparr>"

definition live :: "sched \<Rightarrow> nat list \<Rightarrow> nat list" where
  "live s is = filter (\<lambda>i. state (proctab s i) \<noteq> STATE_STOPPED) is"

lemma listing_snoc:
  "listing s p (js @ [i]) ps =
    (let ps' = listing s p js ps; k = length js; c = proctab s i in
     ps'\<lparr>ps_pid := (ps_pid ps')(k := pid c),
         ps_status := (ps_status ps')(k :=
            (if pid (proctab s p) = pid c then STATE_RUNNING else state c)),
         ps_cpuTime := (ps_cpuTime ps')(k := cpuTime c * MILLISECONDS_TICK)\<rparr>)"
  by (auto simp: listing_def Let_def fun_eq_iff nth_append less_Suc_eq)

lemma getCPUtimes_fold:
  assumes "length is \<le> 64"
  shows "fold (getCPUtimes_step s p) is (- 1, ps) =
    (of_nat (length (live s is)) - 1, listing s p (live s is) ps)"
  using assms
proof (induction "is" rule: rev_induct)
  case Nil
  show ?case by (simp add: live_def listing_def)
next
  case (snoc i "is")
  have "length (live s is) \<le> length is" by (simp add: live_def)
  with snoc.prems have "unat (of_nat (length (live s is)) :: u32) = length (live s is)"
    by (intro unat_of_nat_u32) simp
  then show ?case using snoc
    by (simp add: getCPUtimes_step_def live_def listing_snoc Let_def)
qed

section \<open>Properties\<close>

text \<open>
  Round robin: from any well-formed ready queue, a running process that is not itself queued
  can yield any number of times without the dispatcher running dry, and after \<open>n\<close> yields the
  process that runs is the one \<open>n\<close> places further round the ring made of the running process and
  the queue; the queue stays well formed.
\<close>

theorem round_robin:
  assumes "rq_ok s" and "p < MAX_PROC" and "p \<notin> set (readyq s)"
  shows "\<exists>s'. run_yields ready next_proc n (p, s) =
    Inr ((p # readyq s) ! (n mod Suc (length (readyq s))), s') \<and> rq_ok s'"
  using assms by (rule rdyq.run_yields_nth)

lemma boot_sched_rq: "rq boot_sched []"
  by (simp add: rq_def boot_sched_def dispatchinit_def)

lemma three_ready: "rq (ready (ready boot_sched 1) 2) [1, 2]"
  using rq_ready [OF rq_ready [OF boot_sched_rq, of 1], of 2] by simp

theorem round_robin_witness:
  "rq_ok (ready (ready boot_sched 1) 2) \<and> readyq (ready (ready boot_sched 1) 2) = [1, 2] \<and>
   (\<exists>s'. run_yields ready next_proc 5 (3, ready (ready boot_sched 1) 2) = Inr (2, s') \<and> rq_ok s')"
proof -
  have "rq_ok (ready (ready boot_sched 1) 2)" "readyq (ready (ready boot_sched 1) 2) = [1, 2]"
    using rq_okI [OF three_ready] by auto
  with round_robin [of "ready (ready boot_sched 1) 2" 3 5] show ?thesis by simp
qed

text \<open>
  C13. \<open>removeFromReady\<close> ends on every well-formed queue and takes exactly the given process out
  of it, keeping the order of the others (and does nothing when the process is not queued); the
  sleep queue's head is untouched.
\<close>

theorem removeFromReady_spec:
  assumes "rq_ok s"
  shows "\<exists>s'. removeFromReady s p = Inr s' \<and> rq_ok s' \<and> readyq s' = remove1 p (readyq s) \<and>
    sleepQ s' = sleepQ s"
  using rq_removeFromReady [OF rq_okD [OF assms]] rq_okI by blast

theorem removeFromReady_spec_witness:
  "\<exists>s'. removeFromReady (ready (ready boot_sched 1) 2) 2 = Inr s' \<and> rq_ok s' \<and> readyq s' = [1] \<and>
    sleepQ s' = None"
proof -
  have "rq_ok (ready (ready boot_sched 1) 2)" "readyq (ready (ready boot_sched 1) 2) = [1, 2]"
    using rq_okI [OF three_ready] by auto
  with removeFromReady_spec [of "ready (ready boot_sched 1) 2" 2] show ?thesis
    by (simp add: boot_sched_def dispatchinit_def)
qed

text \<open>
  C14. \<open>getCPUtimes\<close> with a structure that passes both address checks lists exactly the table
  entries that are not stopped, in table order, the caller's own entry as running and the times in
  milliseconds, and returns the index of the last entry it filled; the entries after it and the
  field \<open>entries\<close> keep their contents. A structure in the hole gives -1 and one that reaches
  beyond the end of memory -2, with nothing written.
\<close>

theorem getCPUtimes_spec:
  "getCPUtimes pl s p a ps =
    (if HOLESTART pl \<le> a \<and> a \<le> HOLEEND pl then (- 1, ps)
     else if maxaddr pl < a + sizeof_processStatuses then (- 2, ps)
     else (of_nat (length (live s [0..<MAX_PROC])) - 1, listing s p (live s [0..<MAX_PROC]) ps))"
proof -
  have "fold (getCPUtimes_step s p) [0..<MAX_PROC] (- 1, ps) =
    (of_nat (length (live s [0..<MAX_PROC])) - 1, listing s p (live s [0..<MAX_PROC]) ps)"
    by (rule getCPUtimes_fold) simp
  then show ?thesis by (simp only: getCPUtimes_def)
qed

end
