(* ===== verification/SleepQ.thy ===== *)
theory SleepQ
  imports ReadyQ
begin

text \<open>
  The sleep queue of \<open>c/sleep.c\<close>: a delta list threaded through the process table, where each
  sleeper's \<open>sleepdiff\<close> counts the ticks from its predecessor's wake-up to its own. Its
  abstraction \<open>sleepers\<close> is the list of sleeping processes with their absolute remaining ticks.
  The locale \<open>timer_queue\<close> states what a tick does to such a list and proves that a sleeper is
  released on the tick it asked for.
\<close>

section \<open>Operations\<close>

text \<open>
  The search of \<open>sleep\<close> for the place of an element: the node to insert after and what is left of
  the delay there.
\<close>

partial_function (option) sleep_loop :: "sched \<Rightarrow> nat \<Rightarrow> u32 \<Rightarrow> (nat \<times> u32) option" where
  "sleep_loop s tmp len =
    (if pnext (proctab s tmp) = None then Some (tmp, len)
     else if len < sleepdiff (proctab s (the (pnext (proctab s tmp)))) then Some (tmp, len)
     else sleep_loop s (the (pnext (proctab s tmp)))
            (len - sleepdiff (proctab s (the (pnext (proctab s tmp))))))"

definition sleep_insert :: "sched \<Rightarrow> nat \<Rightarrow> nat \<Rightarrow> u32 \<Rightarrow> sched" where
  "sleep_insert s p tmp len =
    (let s1 = set_pcb s p (\<lambda>c. c\<lparr>pnext := pnext (proctab s tmp), pprev := Some tmp,
                                 sleepdiff := len\<rparr>);
         s2 = set_pcb s1 tmp (\<lambda>c. c\<lparr>pnext := Some p\<rparr>)
     in case pnext (proctab s2 p) of
          None \<Rightarrow> s2
        | Some n \<Rightarrow> set_pcb s2 n (\<lambda>c. c\<lparr>pprev := Some p, sleepdiff := sleepdiff c - len\<rparr>))"

definition sleep :: "sched \<Rightarrow> nat \<Rightarrow> u32 \<Rightarrow> sched kres" where
  "sleep s p len0 =
    (if len0 < 1 then Inr (ready s p)
     else
       let len = len0 div MILLISECONDS_TICK;
           s1 = set_pcb s p (\<lambda>c. c\<lparr>state := STATE_SLEEP, pnext := None, pprev := None\<rparr>)
       in case sleepQ s1 of
            None \<Rightarrow> Inr (set_pcb (s1\<lparr>sleepQ := Some p\<rparr>) p (\<lambda>c. c\<lparr>sleepdiff := len\<rparr>))
          | Some h \<Rightarrow>
              if len < sleepdiff (proctab s1 h) then
                let s2 = set_pcb s1 p (\<lambda>c. c\<lparr>pnext := Some h\<rparr>);
                    s3 = set_pcb s2 h (\<lambda>c. c\<lparr>sleepdiff := sleepdiff c - len\<rparr>);
                    s4 = set_pcb s3 p (\<lambda>c. c\<lparr>sleepdiff := len\<rparr>)
                in Inr (s4\<lparr>sleepQ := Some p\<rparr>)
              else
                (case sleep_loop s1 h (len - sleepdiff (proctab s1 h)) of
                   None \<Rightarrow> Inl Diverge
                 | Some (tmp, l) \<Rightarrow> Inr (sleep_insert s1 p tmp l)))"

definition unlink_sleep :: "sched \<Rightarrow> nat \<Rightarrow> nat \<Rightarrow> sched" where
  "unlink_sleep s p prev =
    (let s1 = set_pcb s prev (\<lambda>q. q\<lparr>pnext := pnext (proctab s p)\<rparr>)
     in case pnext (proctab s1 prev) of
          None \<Rightarrow> s1
        | Some n \<Rightarrow>
            set_pcb (set_pcb s1 n (\<lambda>q. q\<lparr>sleepdiff := sleepdiff q + sleepdiff (proctab s1 p)\<rparr>))
              p (\<lambda>q. q\<lparr>pnext := None\<rparr>))"

partial_function (option) removeFromSleep_loop ::
  "sched \<Rightarrow> nat \<Rightarrow> nat \<Rightarrow> pptr \<Rightarrow> sched option" where
  "removeFromSleep_loop s p prev cur =
    (if cur = None then Some s
     else if cur = Some p then Some (unlink_sleep s p prev)
     else removeFromSleep_loop s p (the cur) (pnext (proctab s (the cur))))"

definition removeFromSleep :: "sched \<Rightarrow> nat \<Rightarrow> sched kres" where
  "removeFromSleep s p =
    (case sleepQ s of
       None \<Rightarrow> Inr s
     | Some h \<Rightarrow>
         if h = p then
           let s1 = s\<lparr>sleepQ := pnext (proctab s p)\<rparr>
           in Inr (case sleepQ s1 of
                     None \<Rightarrow> s1
                   | Some n \<Rightarrow> set_pcb s1 n
                       (\<lambda>q. q\<lparr>sleepdiff := sleepdiff q + sleepdiff (proctab s1 p)\<rparr>))
         else loop_res (removeFromSleep_loop s p h (pnext (proctab s h))))"

definition killInSleep :: "sched \<Rightarrow> nat \<Rightarrow> u32 kres" where
  "killInSleep s p =
    (if sleepQ s = Some p then Inr (sleepdiff (proctab s p) * MILLISECONDS_TICK)
     else case sleepQ s of
            None \<Rightarrow> Inl NullDeref
          | Some h \<Rightarrow>
              Inr ((sleepdiff (proctab s p) + sleepdiff (proctab s h)) * MILLISECONDS_TICK))"

definition tick_wake :: "sched \<Rightarrow> nat \<Rightarrow> sched" where
  "tick_wake s tmp =
    (let s1 = s\<lparr>sleepQ := pnext (proctab s tmp)\<rparr>;
         s2 = set_pcb s1 tmp (\<lambda>c. c\<lparr>state := STATE_READY, pnext := None, pprev := None, ret := 0\<rparr>)
     in ready s2 tmp)"

partial_function (option) tick_loop :: "sched \<Rightarrow> sched option" where
  "tick_loop s =
    (if sleepQ s = None then Some s
     else if sleepdiff (proctab s (the (sleepQ s))) = 0
     then tick_loop (tick_wake s (the (sleepQ s)))
     else Some s)"

definition tick :: "sched \<Rightarrow> sched kres" where
  "tick s =
    (case sleepQ s of
       None \<Rightarrow> Inr s
     | Some h \<Rightarrow> loop_res (tick_loop (set_pcb s h (\<lambda>c. c\<lparr>sleepdiff := sleepdiff c - 1\<rparr>))))"

section \<open>Delta lists\<close>

text \<open>
  \<open>dl d acc xs\<close>: the nodes \<open>xs\<close> with their absolute times, where \<open>d\<close> gives the differences and
  \<open>acc\<close> is the time of the node before \<open>xs\<close>.
\<close>

fun dl :: "('a \<Rightarrow> nat) \<Rightarrow> nat \<Rightarrow> 'a list \<Rightarrow> ('a \<times> nat) list" where
  "dl d acc [] = []"
| "dl d acc (x # xs) = (x, acc + d x) # dl d (acc + d x) xs"

definition timer_insert :: "'a \<Rightarrow> nat \<Rightarrow> ('a \<times> nat) list \<Rightarrow> ('a \<times> nat) list" where
  "timer_insert p t ws = takeWhile (\<lambda>w. snd w \<le> t) ws @ (p, t) # dropWhile (\<lambda>w. snd w \<le> t) ws"

definition timer_due :: "('a \<times> nat) list \<Rightarrow> 'a list" where
  "timer_due ws = map fst (filter (\<lambda>w. snd w \<le> 1) ws)"

definition timer_tick :: "('a \<times> nat) list \<Rightarrow> ('a \<times> nat) list" where
  "timer_tick ws = map (\<lambda>w. (fst w, snd w - 1)) (filter (\<lambda>w. 1 < snd w) ws)"

lemma dl_append: "dl d acc (us @ ws) = dl d acc us @ dl d (acc + sum_list (map d us)) ws"
  by (induction us arbitrary: acc) (auto simp: add.assoc)

lemma map_fst_dl [simp]: "map fst (dl d acc xs) = xs"
  by (induction xs arbitrary: acc) auto

lemma dl_Nil_iff [simp]: "dl d acc xs = [] \<longleftrightarrow> xs = []"
  by (cases xs) auto

lemma dl_cong: "(\<And>x. x \<in> set xs \<Longrightarrow> d x = d' x) \<Longrightarrow> dl d acc xs = dl d' acc xs"
  by (induction xs arbitrary: acc) auto

lemma dl_bounds: "w \<in> set (dl d acc xs) \<Longrightarrow> acc \<le> snd w \<and> snd w \<le> acc + sum_list (map d xs)"
proof (induction xs arbitrary: acc)
  case (Cons x xs)
  then consider "w = (x, acc + d x)" | "w \<in> set (dl d (acc + d x) xs)" by auto
  then show ?case
  proof cases
    case 2
    from Cons.IH [OF this] show ?thesis by simp
  qed simp
qed simp

lemma dl_ge_hd: "w \<in> set (dl d acc (x # xs)) \<Longrightarrow> acc + d x \<le> snd w"
  using dl_bounds [of w d "acc + d x" xs] by auto

lemma timer_insert_dl:
  assumes "acc + sum_list (map d us) \<le> t" and "ws \<noteq> [] \<Longrightarrow> t < acc + sum_list (map d us) + d (hd ws)"
  shows "timer_insert p t (dl d acc (us @ ws)) =
    dl d acc us @ (p, t) # dl d (acc + sum_list (map d us)) ws"
proof -
  have 1: "snd w \<le> t" if "w \<in> set (dl d acc us)" for w
    using dl_bounds [OF that] assms(1) by simp
  have 2: "ws = [] \<or> \<not> snd (hd (dl d (acc + sum_list (map d us)) ws)) \<le> t"
    using assms(2) by (cases ws) auto
  then have "takeWhile (\<lambda>w. snd w \<le> t) (dl d (acc + sum_list (map d us)) ws) = []"
    "dropWhile (\<lambda>w. snd w \<le> t) (dl d (acc + sum_list (map d us)) ws) =
       dl d (acc + sum_list (map d us)) ws"
    by (cases ws; simp)+
  with 1 show ?thesis
    by (simp add: timer_insert_def dl_append takeWhile_append dropWhile_append)
qed

lemma dl_insert:
  assumes "distinct (us @ p # ws)" and "acc + sum_list (map d us) \<le> t"
    and "ws \<noteq> [] \<Longrightarrow> t < acc + sum_list (map d us) + d (hd ws)"
    and "\<And>x. x \<in> set us \<Longrightarrow> d' x = d x" and "\<And>x. x \<in> set (tl ws) \<Longrightarrow> d' x = d x"
    and "d' p = t - (acc + sum_list (map d us))"
    and "ws \<noteq> [] \<Longrightarrow> d' (hd ws) = d (hd ws) - d' p"
  shows "dl d' acc (us @ p # ws) = timer_insert p t (dl d acc (us @ ws))"
proof -
  have "dl d' acc us = dl d acc us" using assms(4) by (rule dl_cong)
  moreover have "sum_list (map d' us) = sum_list (map d us)"
    using assms(4) by (metis map_cong)
  moreover have "dl d' t ws = dl d (acc + sum_list (map d us)) ws"
  proof (cases ws)
    case (Cons w vs)
    moreover have "dl d' a vs = dl d a vs" for a
      using assms(5) Cons by (auto intro: dl_cong)
    ultimately show ?thesis using assms(2,3,6,7) by (simp add: add.commute)
  qed simp
  moreover have "timer_insert p t (dl d acc (us @ ws)) =
    dl d acc us @ (p, t) # dl d (acc + sum_list (map d us)) ws"
    using assms(2,3) by (rule timer_insert_dl)
  ultimately show ?thesis using assms(2,6) by (simp add: dl_append)
qed

lemma set_timer_insert: "set (timer_insert p t ws) = insert (p, t) (set ws)"
  unfolding timer_insert_def
  by (metis Un_insert_right list.set(2) set_append takeWhile_dropWhile_id)

section \<open>Abstraction and invariant\<close>

definition sdiff :: "sched \<Rightarrow> nat \<Rightarrow> nat" where
  "sdiff s i = unat (sleepdiff (proctab s i))"

definition sleepq :: "sched \<Rightarrow> nat list" where
  "sleepq s = walk MAX_PROC (nxt s) (sleepQ s)"

definition sleepers :: "sched \<Rightarrow> (nat \<times> nat) list" where
  "sleepers s = dl (sdiff s) 0 (sleepq s)"

text \<open>The longest delay: \<open>(2 ^ 32 - 1) div 10\<close> ticks.\<close>

definition MAX_TICKS :: nat where [simp]: "MAX_TICKS = 429496729"

definition sq :: "sched \<Rightarrow> nat list \<Rightarrow> bool" where
  "sq s xs \<longleftrightarrow> chain (nxt s) (sleepQ s) xs \<and>
     (\<forall>i \<in> set xs. i < MAX_PROC \<and> state (proctab s i) = STATE_SLEEP) \<and>
     (\<forall>w \<in> set (dl (sdiff s) 0 xs). 0 < snd w \<and> snd w \<le> MAX_TICKS)"

definition sq_ok :: "sched \<Rightarrow> bool" where
  "sq_ok s \<longleftrightarrow> sq s (sleepq s)"

text \<open>Both queues are well formed; they are disjoint because their members' states differ.\<close>

definition sched_ok :: "sched \<Rightarrow> bool" where
  "sched_ok s \<longleftrightarrow> rq_ok s \<and> sq_ok s"

lemma sq_distinct: "sq s xs \<Longrightarrow> distinct xs"
  by (auto simp: sq_def intro: chain_distinct)

lemma sq_sleepq: assumes "sq s xs" shows "sleepq s = xs"
proof -
  from assms have "length xs \<le> MAX_PROC"
    by (intro bounded_list_length sq_distinct) (auto simp: sq_def)
  with assms show ?thesis unfolding sleepq_def sq_def by (blast intro: chain_walk)
qed

lemma sched_okI:
  assumes "rq s xs" and "sq s ys"
  shows "sched_ok s \<and> readyq s = xs \<and> sleepq s = ys \<and> sleepers s = dl (sdiff s) 0 ys"
  using assms rq_okI [OF assms(1)] by (simp add: sched_ok_def sq_ok_def sq_sleepq sleepers_def)

lemma sched_okD: "sched_ok s \<Longrightarrow> rq s (readyq s) \<and> sq s (sleepq s)"
  by (simp add: sched_ok_def rq_ok_def sq_ok_def)

lemma queues_disjoint: "rq s xs \<Longrightarrow> sq s ys \<Longrightarrow> i \<in> set xs \<Longrightarrow> i \<notin> set ys"
  by (auto simp: rq_def sq_def)

text \<open>Neither queue notices a change to other processes or to other fields.\<close>

lemma rq_frame:
  assumes "rq s xs" and "head s' = head s" and "tail s' = tail s"
    and "\<And>i. i \<in> set xs \<Longrightarrow> nxt s' i = nxt s i \<and> state (proctab s' i) = state (proctab s i)"
  shows "rq s' xs"
proof -
  have "chain (nxt s') (head s) xs = chain (nxt s) (head s) xs"
    by (rule chain_cong) (simp add: assms(4))
  with assms show ?thesis by (simp add: rq_def)
qed

lemma sq_frame:
  assumes "sq s xs" and "sleepQ s' = sleepQ s"
    and "\<And>i. i \<in> set xs \<Longrightarrow> nxt s' i = nxt s i \<and> state (proctab s' i) = state (proctab s i) \<and>
      sdiff s' i = sdiff s i"
  shows "sq s' xs \<and> dl (sdiff s') 0 xs = dl (sdiff s) 0 xs"
proof -
  have "chain (nxt s') (sleepQ s) xs = chain (nxt s) (sleepQ s) xs"
    by (rule chain_cong) (simp add: assms(3))
  moreover have "dl (sdiff s') 0 xs = dl (sdiff s) 0 xs"
    by (rule dl_cong) (simp add: assms(3))
  ultimately show ?thesis using assms by (simp add: sq_def)
qed

lemma rq_set_other: "rq s xs \<Longrightarrow> p \<notin> set xs \<Longrightarrow> rq (set_pcb s p f) xs"
  by (erule rq_frame) (auto simp: nxt_def)

lemma sq_set_other:
  "sq s ys \<Longrightarrow> p \<notin> set ys \<Longrightarrow>
   sq (set_pcb s p f) ys \<and> dl (sdiff (set_pcb s p f)) 0 ys = dl (sdiff s) 0 ys"
  by (erule sq_frame) (auto simp: nxt_def sdiff_def)

lemma sleep_loop_eq:
  assumes "chain (nxt s) (nxt s tmp) vs"
  shows "\<exists>us ws l'. vs = us @ ws \<and> sleep_loop s tmp l = Some (last (tmp # us), l') \<and>
    unat l = sum_list (map (sdiff s) us) + unat l' \<and> (ws \<noteq> [] \<longrightarrow> unat l' < sdiff s (hd ws))"
  using assms
proof (induction vs arbitrary: tmp l)
  case Nil
  then have "sleep_loop s tmp l = Some (tmp, l)"
    by (subst sleep_loop.simps) (simp add: nxt_def)
  then show ?case by simp
next
  case (Cons v vs)
  then have "nxt s tmp = Some v" and ch: "chain (nxt s) (nxt s v) vs" by simp_all
  then have n: "pnext (proctab s tmp) = Some v" by (simp add: nxt_def)
  show ?case
  proof (cases "l < sleepdiff (proctab s v)")
    case True
    then have "sleep_loop s tmp l = Some (tmp, l)" using n by (subst sleep_loop.simps) simp
    moreover from True have "unat l < sdiff s v" by (simp add: sdiff_def word_less_nat_alt)
    ultimately show ?thesis
      by (intro exI [of _ "[]"] exI [of _ "v # vs"] exI [of _ l]) simp
  next
    case False
    then have le: "sdiff s v \<le> unat l" by (simp add: sdiff_def word_le_nat_alt not_less)
    from False n have eq: "sleep_loop s tmp l = sleep_loop s v (l - sleepdiff (proctab s v))"
      by (subst sleep_loop.simps) simp
    have "unat (l - sleepdiff (proctab s v)) = unat l - sdiff s v"
      using False by (simp add: sdiff_def unat_sub not_less)
    with Cons.IH [OF ch, of "l - sleepdiff (proctab s v)"] obtain us ws l' where
      r: "vs = us @ ws" "sleep_loop s v (l - sleepdiff (proctab s v)) = Some (last (v # us), l')"
      "unat l - sdiff s v = sum_list (map (sdiff s) us) + unat l'"
      "ws \<noteq> [] \<longrightarrow> unat l' < sdiff s (hd ws)" by auto
    with eq le show ?thesis
      by (intro exI [of _ "v # us"] exI [of _ ws] exI [of _ l']) simp
  qed
qed

lemma sq_insertI:
  assumes "sq s (us @ ws)" and "p \<notin> set (us @ ws)" and "p < MAX_PROC"
    and "chain (nxt s') (sleepQ s') (us @ p # ws)"
    and "state (proctab s' p) = STATE_SLEEP"
    and "\<And>i. i \<in> set (us @ ws) \<Longrightarrow> state (proctab s' i) = state (proctab s i)"
    and "sum_list (map (sdiff s) us) + sdiff s' p = t" and "0 < t" and "t \<le> MAX_TICKS"
    and "ws \<noteq> [] \<Longrightarrow> sdiff s' p < sdiff s (hd ws) \<and> sdiff s' (hd ws) = sdiff s (hd ws) - sdiff s' p"
    and "\<And>x. x \<in> set us \<union> set (tl ws) \<Longrightarrow> sdiff s' x = sdiff s x"
  shows "sq s' (us @ p # ws) \<and>
    dl (sdiff s') 0 (us @ p # ws) = timer_insert p t (dl (sdiff s) 0 (us @ ws))"
proof -
  from chain_distinct [OF assms(4)] have d: "distinct (us @ p # ws)" .
  have eq: "dl (sdiff s') 0 (us @ p # ws) = timer_insert p t (dl (sdiff s) 0 (us @ ws))"
    by (rule dl_insert [OF d]) (use assms(7,10,11) in auto)
  moreover have "\<forall>w \<in> set (dl (sdiff s') 0 (us @ p # ws)). 0 < snd w \<and> snd w \<le> MAX_TICKS"
    unfolding eq set_timer_insert using assms(1,8,9) by (auto simp: sq_def)
  ultimately show ?thesis using assms(1,3-6) by (auto simp: sq_def)
qed

lemma sleep_insert_facts:
  assumes "p \<noteq> tmp" and "nxt s tmp \<noteq> Some p"
  shows "nxt (sleep_insert s p tmp l) = (nxt s)(p := nxt s tmp, tmp := Some p)"
    and "sleepQ (sleep_insert s p tmp l) = sleepQ s"
    and "head (sleep_insert s p tmp l) = head s" and "tail (sleep_insert s p tmp l) = tail s"
    and "state (proctab (sleep_insert s p tmp l) i) = state (proctab s i)"
    and "sdiff (sleep_insert s p tmp l) i =
      (if i = p then unat l else if Some i = nxt s tmp then unat (sleepdiff (proctab s i) - l)
       else sdiff s i)"
  using assms
  by (auto simp: sleep_insert_def Let_def nxt_def sdiff_def fun_eq_iff split: option.splits)

lemma chain_nxt_in:
  assumes "chain nx p xs" and "x \<in> set xs" and "nx x = Some y"
  shows "y \<in> set xs"
proof -
  from assms(2) obtain us vs where xs: "xs = us @ x # vs" by (meson split_list)
  with assms chain_split have "chain nx (Some y) vs" by fastforce
  then show ?thesis using xs by (cases vs) auto
qed

lemma rq_sleep_insert:
  assumes "rq s xs" and "sq s ys" and "tmp \<in> set ys" and "p \<notin> set xs" and "p \<notin> set ys"
  shows "rq (sleep_insert s p tmp l) xs"
proof -
  from assms have "p \<noteq> tmp" "nxt s tmp \<noteq> Some p"
    by (auto simp: sq_def dest: chain_nxt_in)
  note facts = sleep_insert_facts [OF this]
  show ?thesis
    by (rule rq_frame [OF assms(1)])
      (use assms queues_disjoint [OF assms(1,2)] in \<open>auto simp: facts\<close>)
qed

lemma sleep_after_head:
  assumes sq: "sq s (h # vs)" and p: "p \<notin> set (h # vs)" "p < MAX_PROC" "state (proctab s p) = STATE_SLEEP"
    and len: "sdiff s h \<le> unat len" "unat len \<le> MAX_TICKS"
  shows "\<exists>tmp l us ws. sleep_loop s h (len - sleepdiff (proctab s h)) = Some (tmp, l) \<and>
    tmp \<in> set (h # vs) \<and> h # vs = us @ ws \<and> sq (sleep_insert s p tmp l) (us @ p # ws) \<and>
    dl (sdiff (sleep_insert s p tmp l)) 0 (us @ p # ws) =
      timer_insert p (unat len) (dl (sdiff s) 0 (h # vs))"
proof -
  from sq have ch: "chain (nxt s) (nxt s h) vs" by (simp add: sq_def)
  from sq len have un: "unat (len - sleepdiff (proctab s h)) = unat len - sdiff s h" "0 < sdiff s h"
    by (auto simp: sdiff_def unat_sub word_le_nat_alt sq_def)
  from sleep_loop_eq [OF ch, of "len - sleepdiff (proctab s h)"] un obtain us ws l where
    r: "vs = us @ ws" "sleep_loop s h (len - sleepdiff (proctab s h)) = Some (last (h # us), l)"
    "unat len - sdiff s h = sum_list (map (sdiff s) us) + unat l"
    "ws \<noteq> [] \<longrightarrow> unat l < sdiff s (hd ws)" by auto
  define tmp where "tmp = last (h # us)"
  have split: "h # vs = butlast (h # us) @ [tmp] @ ws"
    unfolding r(1) tmp_def by (metis append_Cons append_Nil append_assoc append_butlast_last_id list.distinct(1))
  with sq have c: "chain (nxt s) (sleepQ s) (butlast (h # us) @ [tmp] @ ws)" by (simp add: sq_def)
  have nt: "nxt s tmp = (case ws of [] \<Rightarrow> None | w # _ \<Rightarrow> Some w)"
    using chain_split [of "nxt s" "sleepQ s" "butlast (h # us)" tmp ws] c by (cases ws) auto
  have "tmp \<in> set (h # vs)" unfolding split by simp
  with p have ne: "p \<noteq> tmp" by auto
  have np: "nxt s tmp \<noteq> Some p" using nt p r(1) by (auto split: list.splits)
  note facts = sleep_insert_facts [OF ne np, of l]
  have hus: "butlast (h # us) @ [tmp] = h # us" by (simp add: tmp_def)
  from chain_insert [OF c, of p] p split
  have "chain ((nxt s)(p := nxt s tmp, tmp := Some p)) (sleepQ s) (butlast (h # us) @ [tmp, p] @ ws)"
    by (metis)
  then have ch': "chain (nxt (sleep_insert s p tmp l)) (sleepQ (sleep_insert s p tmp l)) ((h # us) @ p # ws)"
    unfolding facts(1,2) by (metis append.assoc append_Cons append_Nil hus)
  have dist: "distinct ((h # us) @ ws)" using sq_distinct [OF sq] r(1) by simp
  have "sq (sleep_insert s p tmp l) ((h # us) @ p # ws) \<and>
    dl (sdiff (sleep_insert s p tmp l)) 0 ((h # us) @ p # ws) =
      timer_insert p (unat len) (dl (sdiff s) 0 ((h # us) @ ws))"
  proof (rule sq_insertI [OF _ _ _ ch'])
    show "sum_list (map (sdiff s) (h # us)) + sdiff (sleep_insert s p tmp l) p = unat len"
      using r(3) len by (simp add: facts(6))
    show "sdiff (sleep_insert s p tmp l) p < sdiff s (hd ws) \<and>
      sdiff (sleep_insert s p tmp l) (hd ws) = sdiff s (hd ws) - sdiff (sleep_insert s p tmp l) p"
      if "ws \<noteq> []"
    proof -
      from that obtain w ws' where ws: "ws = w # ws'" by (cases ws) auto
      with r(4) have "l \<le> sleepdiff (proctab s w)" by (simp add: sdiff_def word_le_nat_alt)
      then have "unat (sleepdiff (proctab s w) - l) = sdiff s w - unat l"
        by (simp add: sdiff_def unat_sub)
      moreover from ws p r(1) have "w \<noteq> p" by auto
      ultimately show ?thesis using r(4) ws nt by (simp add: facts(6))
    qed
    show "sdiff (sleep_insert s p tmp l) x = sdiff s x" if "x \<in> set (h # us) \<union> set (tl ws)" for x
    proof -
      from that p r(1) have "x \<noteq> p" by (cases ws) auto
      moreover from that dist nt have "Some x \<noteq> nxt s tmp" by (cases ws) auto
      ultimately show ?thesis by (simp add: facts(6))
    qed
  qed (use sq p len r(1) un in \<open>auto simp: facts\<close>)
  with r(1,2) \<open>tmp \<in> set (h # vs)\<close> show ?thesis
    by (intro exI [of _ tmp] exI [of _ l] exI [of _ "h # us"] exI [of _ ws]) (simp add: tmp_def)
qed

text \<open>The three places of the new element: an empty queue, before the head, after the head.\<close>

lemma sleep_empty:
  assumes "sq s []" and "p < MAX_PROC" and "state (proctab s p) = STATE_SLEEP" and "nxt s p = None"
    and "0 < unat len" and "unat len \<le> MAX_TICKS"
  defines "s' \<equiv> set_pcb (s\<lparr>sleepQ := Some p\<rparr>) p (\<lambda>c. c\<lparr>sleepdiff := len\<rparr>)"
  shows "sq s' [p]" "dl (sdiff s') 0 [p] = timer_insert p (unat len) []"
  using assms by (auto simp: sq_def s'_def sdiff_def nxt_def timer_insert_def)

lemma sleep_front:
  assumes sq: "sq s (h # vs)" and p: "p < MAX_PROC" "p \<notin> set (h # vs)"
    and st: "state (proctab s p) = STATE_SLEEP"
    and len: "len < sleepdiff (proctab s h)" "0 < unat len" "unat len \<le> MAX_TICKS"
  defines "s' \<equiv> (set_pcb (set_pcb (set_pcb s p (\<lambda>c. c\<lparr>pnext := Some h\<rparr>))
       h (\<lambda>c. c\<lparr>sleepdiff := sleepdiff c - len\<rparr>)) p (\<lambda>c. c\<lparr>sleepdiff := len\<rparr>))\<lparr>sleepQ := Some p\<rparr>"
  shows "sq s' (p # h # vs) \<and>
    dl (sdiff s') 0 (p # h # vs) = timer_insert p (unat len) (dl (sdiff s) 0 (h # vs))"
proof -
  have "sq s' ([] @ p # h # vs) \<and>
    dl (sdiff s') 0 ([] @ p # h # vs) = timer_insert p (unat len) (dl (sdiff s) 0 ([] @ h # vs))"
  proof (rule sq_insertI)
    have "nxt s' = (nxt s)(p := Some h)" using p by (auto simp: s'_def nxt_def)
    with sq p show "chain (nxt s') (sleepQ s') ([] @ p # h # vs)"
      by (auto simp: sq_def chain_upd s'_def)
    show "sdiff s' p < sdiff s (hd (h # vs)) \<and>
      sdiff s' (hd (h # vs)) = sdiff s (hd (h # vs)) - sdiff s' p"
      using len p by (simp add: s'_def sdiff_def unat_sub word_less_nat_alt word_le_nat_alt)
    show "sdiff s' x = sdiff s x" if "x \<in> set [] \<union> set (tl (h # vs))" for x
      using that sq_distinct [OF sq] p by (auto simp: s'_def sdiff_def)
  qed (use sq p st len in \<open>auto simp: s'_def sdiff_def\<close>)
  then show ?thesis by simp
qed

lemma sleep_sched:
  assumes rq: "rq s xs" and sq: "sq s ys" and p: "p < MAX_PROC" "p \<notin> set xs" "p \<notin> set ys"
    and len: "10 \<le> unat len0"
  shows "\<exists>s' ys'. sleep s p len0 = Inr s' \<and> rq s' xs \<and> sq s' ys' \<and>
    dl (sdiff s') 0 ys' = timer_insert p (unat len0 div 10) (dl (sdiff s) 0 ys)"
proof -
  define s1 where "s1 = set_pcb s p (\<lambda>c. c\<lparr>state := STATE_SLEEP, pnext := None, pprev := None\<rparr>)"
  define len where "len = len0 div MILLISECONDS_TICK"
  have ul: "unat len = unat len0 div 10" by (simp add: len_def unat_div)
  with len unat_u32_less [of len0] have lb: "0 < unat len" "unat len \<le> MAX_TICKS" by simp_all
  from len have len1: "\<not> len0 < 1" by (simp add: word_less_nat_alt)
  have s1: "state (proctab s1 p) = STATE_SLEEP" "nxt s1 p = None" by (simp_all add: s1_def nxt_def)
  have rq1: "rq s1 xs" and sq1: "sq s1 ys" and dl1: "dl (sdiff s1) 0 ys = dl (sdiff s) 0 ys"
    using rq_set_other [OF rq] sq_set_other [OF sq] p by (auto simp: s1_def)
  note eq = sleep_def [of s p len0, folded s1_def len_def, unfolded Let_def]
  show ?thesis
  proof (cases ys)
    case Nil
    with sq1 have q: "sleepQ s1 = None" by (simp add: sq_def)
    let ?s' = "set_pcb (s1\<lparr>sleepQ := Some p\<rparr>) p (\<lambda>c. c\<lparr>sleepdiff := len\<rparr>)"
    have "rq ?s' xs" by (rule rq_frame [OF rq1]) (use p in \<open>auto simp: nxt_def\<close>)
    with sleep_empty [OF sq1 [unfolded Nil] p(1) s1 lb] dl1 Nil ul q len1 show ?thesis
      by (intro exI [of _ ?s'] exI [of _ "[p]"]) (simp add: eq)
  next
    case (Cons h vs)
    with sq1 have q: "sleepQ s1 = Some h" by (simp add: sq_def)
    from Cons have h: "h \<in> set ys" by simp
    note other = queues_disjoint [OF rq sq]
    show ?thesis
    proof (cases "len < sleepdiff (proctab s1 h)")
      case True
      let ?s' = "(set_pcb (set_pcb (set_pcb s1 p (\<lambda>c. c\<lparr>pnext := Some h\<rparr>))
         h (\<lambda>c. c\<lparr>sleepdiff := sleepdiff c - len\<rparr>)) p (\<lambda>c. c\<lparr>sleepdiff := len\<rparr>))\<lparr>sleepQ := Some p\<rparr>"
      have "rq ?s' xs" by (rule rq_frame [OF rq1]) (use p h other in \<open>auto simp: nxt_def\<close>)
      with sleep_front [OF sq1 [unfolded Cons] p(1) p(3) [unfolded Cons] s1(1) True lb, folded Cons]
        dl1 ul q len1 True
      show ?thesis by (intro exI [of _ ?s'] exI [of _ "p # ys"]) (simp add: eq)
    next
      case False
      then have "sdiff s1 h \<le> unat len" by (simp add: sdiff_def word_le_nat_alt not_less)
      from sleep_after_head [OF sq1 [unfolded Cons] _ p(1) s1(1) this lb(2)] p Cons
      obtain tmp l us ws where r: "sleep_loop s1 h (len - sleepdiff (proctab s1 h)) = Some (tmp, l)"
        "tmp \<in> set ys" "sq (sleep_insert s1 p tmp l) (us @ p # ws)"
        "dl (sdiff (sleep_insert s1 p tmp l)) 0 (us @ p # ws) =
          timer_insert p (unat len) (dl (sdiff s1) 0 ys)" by auto
      have "rq (sleep_insert s1 p tmp l) xs"
        by (rule rq_sleep_insert [OF rq1 sq1 r(2)]) (use p in auto)
      with r dl1 ul q len1 False show ?thesis by (auto simp: eq)
    qed
  qed
qed

section \<open>The tick\<close>

lemma tick_wake_facts:
  shows "sleepQ (tick_wake s t) = nxt s t" and "sdiff (tick_wake s t) = sdiff s"
    and "i \<noteq> t \<Longrightarrow> Some i \<noteq> tail s \<Longrightarrow> nxt (tick_wake s t) i = nxt s i"
    and "i \<noteq> t \<Longrightarrow> state (proctab (tick_wake s t) i) = state (proctab s i)"
  by (auto simp: tick_wake_def Let_def ready_proctab nxt_ready nxt_def sdiff_def fun_eq_iff
      split: option.splits)

lemma rq_tick_wake:
  assumes "rq s xs" and "t \<notin> set xs" and "t < MAX_PROC"
  shows "rq (tick_wake s t) (xs @ [t])"
  unfolding tick_wake_def Let_def
  by (rule rq_ready [OF rq_set_other], rule rq_frame [OF assms(1)]) (use assms in auto)

text \<open>The loop pops the leading sleepers whose difference is 0, in order, and stops.\<close>

lemma tick_loop_eq:
  assumes "rq s xs" and "chain (nxt s) (sleepQ s) ys"
    and "\<forall>i \<in> set ys. i < MAX_PROC \<and> state (proctab s i) = STATE_SLEEP"
  shows "\<exists>s' zs ws. ys = zs @ ws \<and> tick_loop s = Some s' \<and> rq s' (xs @ zs) \<and>
    chain (nxt s') (sleepQ s') ws \<and> (\<forall>i \<in> set ws. i < MAX_PROC \<and> state (proctab s' i) = STATE_SLEEP) \<and>
    sdiff s' = sdiff s \<and> (\<forall>z \<in> set zs. sdiff s z = 0) \<and> (ws \<noteq> [] \<longrightarrow> sdiff s (hd ws) \<noteq> 0)"
  using assms
proof (induction ys arbitrary: s xs)
  case Nil
  then have "tick_loop s = Some s" by (subst tick_loop.simps) simp
  with Nil show ?case by auto
next
  case (Cons y ys)
  then have q: "sleepQ s = Some y" and ch: "chain (nxt s) (nxt s y) ys" by simp_all
  show ?case
  proof (cases "sleepdiff (proctab s y) = 0")
    case False
    then have "tick_loop s = Some s" using q by (subst tick_loop.simps) simp
    moreover from False have "sdiff s y \<noteq> 0" by (simp add: sdiff_def unat_eq_0)
    ultimately show ?thesis using Cons.prems
      by (intro exI [of _ s] exI [of _ "[]"] exI [of _ "y # ys"]) auto
  next
    case True
    then have eq: "tick_loop s = tick_loop (tick_wake s y)" using q by (subst tick_loop.simps) simp
    from chain_distinct [OF Cons.prems(2)] have y: "y \<notin> set ys" by simp
    have yx: "y \<notin> set xs" "\<And>i. i \<in> set ys \<Longrightarrow> i \<notin> set xs"
      using Cons.prems(1,3) by (auto simp: rq_def)
    have tl: "Some i \<noteq> tail s" if "i \<in> set ys" for i
      using Cons.prems(1) yx(2) [OF that] by (auto simp: rq_def split: if_splits)
    have r1: "rq (tick_wake s y) (xs @ [y])" using Cons.prems(1,3) yx by (intro rq_tick_wake) auto
    have "chain (nxt (tick_wake s y)) (nxt s y) ys = chain (nxt s) (nxt s y) ys"
      by (rule chain_cong) (metis y tl tick_wake_facts(3))
    with ch have c1: "chain (nxt (tick_wake s y)) (sleepQ (tick_wake s y)) ys"
      by (simp add: tick_wake_facts)
    have "\<forall>i \<in> set ys. i < MAX_PROC \<and> state (proctab (tick_wake s y) i) = STATE_SLEEP"
      using Cons.prems(3) y by (metis list.set_intros(2) tick_wake_facts(4))
    from Cons.IH [OF r1 c1 this] obtain s' zs ws where
      "ys = zs @ ws" "tick_loop (tick_wake s y) = Some s'" "rq s' (xs @ y # zs)"
      "chain (nxt s') (sleepQ s') ws" "\<forall>i \<in> set ws. i < MAX_PROC \<and> state (proctab s' i) = STATE_SLEEP"
      "sdiff s' = sdiff s" "\<forall>z \<in> set zs. sdiff s z = 0" "ws \<noteq> [] \<longrightarrow> sdiff s (hd ws) \<noteq> 0"
      by (auto simp: tick_wake_facts)
    with eq True show ?thesis
      by (intro exI [of _ s'] exI [of _ "y # zs"] exI [of _ ws]) (simp add: sdiff_def)
  qed
qed

lemma dl_shift: "0 < a \<Longrightarrow> dl d (a - 1) xs = map (\<lambda>w. (fst w, snd w - 1)) (dl d a xs)"
proof (induction xs arbitrary: a)
  case (Cons x xs)
  from Cons.prems have "a - 1 + d x = (a + d x) - 1" by simp
  with Cons.prems Cons.IH [of "a + d x"] show ?case by simp
qed simp

lemma dl_dec_head:
  assumes "h \<notin> set vs" and "0 < d h" and "\<And>x. x \<noteq> h \<Longrightarrow> d' x = d x" and "d' h = d h - 1"
  shows "dl d' 0 (h # vs) = map (\<lambda>w. (fst w, snd w - 1)) (dl d 0 (h # vs))"
proof -
  have "dl d' (d h - 1) vs = dl d (d h - 1) vs" using assms(1,3) by (intro dl_cong) metis
  with assms dl_shift [of "d h" d vs] show ?thesis by simp
qed

lemma dl_zeros: "\<forall>z \<in> set zs. d z = 0 \<Longrightarrow> dl d a (zs @ ws) = map (\<lambda>z. (z, a)) zs @ dl d a ws"
  by (induction zs) auto

lemma dl_pos:
  assumes "ws \<noteq> [] \<longrightarrow> d (hd ws) \<noteq> 0"
  shows "\<forall>w \<in> set (dl d 0 ws). 0 < snd w"
proof (cases ws)
  case (Cons x xs)
  then show ?thesis using assms dl_ge_hd [of _ d 0 x xs] by force
qed simp

lemma timer_split:
  assumes "\<forall>w \<in> set ts. 0 < snd w" and eq: "map (\<lambda>w. (fst w, snd w - 1)) ts = map (\<lambda>z. (z, 0)) zs @ ws"
    and "\<forall>w \<in> set ws. 0 < snd w"
  shows "timer_due ts = zs" and "timer_tick ts = ws"
proof -
  have "filter (\<lambda>w. snd w = 0) (map (\<lambda>w. (fst w, snd w - 1)) ts) = map (\<lambda>z. (z, 0)) zs"
    unfolding eq using assms(3) by (simp add: filter_empty_conv)
  then have "map fst (filter (\<lambda>w. snd w = 0) (map (\<lambda>w. (fst w, snd w - 1)) ts)) = zs"
    by (simp add: o_def)
  moreover have "filter (\<lambda>w. snd w - 1 = 0) ts = filter (\<lambda>w. snd w \<le> 1) ts"
    by (rule filter_cong) auto
  ultimately show "timer_due ts = zs" by (simp add: timer_due_def filter_map o_def)
  have "filter (\<lambda>w. 0 < snd w) (map (\<lambda>w. (fst w, snd w - 1)) ts) = ws"
    unfolding eq using assms(3) by (simp add: filter_empty_conv)
  moreover have "filter (\<lambda>w. 0 < snd w - 1) ts = filter (\<lambda>w. 1 < snd w) ts"
    by (rule filter_cong) auto
  ultimately show "timer_tick ts = ws" by (simp add: timer_tick_def filter_map o_def)
qed

lemma tick_sched:
  assumes rq: "rq s xs" and sq: "sq s ys"
  shows "\<exists>s' ws. tick s = Inr s' \<and> rq s' (xs @ timer_due (dl (sdiff s) 0 ys)) \<and> sq s' ws \<and>
    dl (sdiff s') 0 ws = timer_tick (dl (sdiff s) 0 ys)"
proof (cases ys)
  case Nil
  with rq sq show ?thesis by (auto simp: tick_def sq_def timer_due_def timer_tick_def)
next
  case (Cons h vs)
  define s1 where "s1 = set_pcb s h (\<lambda>c. c\<lparr>sleepdiff := sleepdiff c - 1\<rparr>)"
  from sq Cons have q: "sleepQ s = Some h" and pos: "0 < sdiff s h" by (auto simp: sq_def)
  have n: "nxt s1 = nxt s" by (auto simp: s1_def nxt_def)
  have h: "h \<notin> set xs" using queues_disjoint [OF rq sq] Cons by auto
  have r1: "rq s1 xs" unfolding s1_def by (rule rq_set_other [OF rq h])
  have c1: "chain (nxt s1) (sleepQ s1) ys" using sq by (simp add: n sq_def) (simp add: s1_def)
  have st1: "\<forall>i \<in> set ys. i < MAX_PROC \<and> state (proctab s1 i) = STATE_SLEEP"
    using sq by (auto simp: s1_def sq_def)
  from tick_loop_eq [OF r1 c1 st1] obtain s' zs ws where r: "ys = zs @ ws" "tick_loop s1 = Some s'" "rq s' (xs @ zs)"
    "chain (nxt s') (sleepQ s') ws" "\<forall>i \<in> set ws. i < MAX_PROC \<and> state (proctab s' i) = STATE_SLEEP"
    "sdiff s' = sdiff s1" "\<forall>z \<in> set zs. sdiff s1 z = 0" "ws \<noteq> [] \<longrightarrow> sdiff s1 (hd ws) \<noteq> 0"
    by blast
  let ?ts = "dl (sdiff s) 0 ys"
  have "sdiff s1 h = sdiff s h - 1"
    using pos by (simp add: s1_def sdiff_def unat_sub word_le_nat_alt)
  then have "dl (sdiff s1) 0 ys = map (\<lambda>w. (fst w, snd w - 1)) ?ts"
    unfolding Cons using sq_distinct [OF sq] Cons pos
    by (intro dl_dec_head) (auto simp: s1_def sdiff_def)
  moreover from dl_zeros [OF r(7)] have "dl (sdiff s1) 0 ys = map (\<lambda>z. (z, 0)) zs @ dl (sdiff s1) 0 ws"
    by (simp add: r(1))
  ultimately have m: "map (\<lambda>w. (fst w, snd w - 1)) ?ts = map (\<lambda>z. (z, 0)) zs @ dl (sdiff s1) 0 ws"
    by simp
  have posw: "\<forall>w \<in> set (dl (sdiff s1) 0 ws). 0 < snd w"
    using r(8) by (rule dl_pos)
  have ts: "\<forall>w \<in> set ?ts. 0 < snd w \<and> snd w \<le> MAX_TICKS" using sq by (simp add: sq_def)
  have due: "timer_due ?ts = zs" "timer_tick ?ts = dl (sdiff s1) 0 ws"
    using timer_split [OF _ m posw] ts by auto
  have "snd w \<le> MAX_TICKS" if "w \<in> set (dl (sdiff s1) 0 ws)" for w
    using that ts unfolding due(2) [symmetric] by (auto simp: timer_tick_def)
  with posw r(4-6) have "sq s' ws" by (simp add: sq_def)
  moreover have "tick s = Inr s'" using q r(2) by (simp add: tick_def s1_def)
  ultimately show ?thesis using r(3,6) due by auto
qed

section \<open>Removal\<close>

lemma unlink_sleep_facts:
  assumes "prev \<noteq> p" and "nxt s p \<noteq> Some prev" and "nxt s p \<noteq> Some p"
  shows "nxt (unlink_sleep s p prev) = (nxt s)(prev := nxt s p, p := None)"
    and "sleepQ (unlink_sleep s p prev) = sleepQ s"
    and "head (unlink_sleep s p prev) = head s" and "tail (unlink_sleep s p prev) = tail s"
    and "state (proctab (unlink_sleep s p prev) i) = state (proctab s i)"
    and "sdiff (unlink_sleep s p prev) i =
      (if nxt s p = Some i then unat (sleepdiff (proctab s i) + sleepdiff (proctab s p)) else sdiff s i)"
  using assms
  by (auto simp: unlink_sleep_def Let_def nxt_def sdiff_def fun_eq_iff split: option.splits)

lemma dl_remove:
  assumes "distinct (us @ p # ws)" and "\<And>x. x \<in> set us \<union> set (tl ws) \<Longrightarrow> d' x = d x"
    and "ws \<noteq> [] \<Longrightarrow> d' (hd ws) = d (hd ws) + d p"
  shows "dl d' acc (us @ ws) = filter (\<lambda>w. fst w \<noteq> p) (dl d acc (us @ p # ws))"
proof -
  have keep: "filter (\<lambda>w. fst w \<noteq> p) (dl d a xs) = dl d a xs" if "p \<notin> set xs" for a xs
    using that by (induction xs arbitrary: a) auto
  have "dl d' acc us = dl d acc us" using assms(2) by (intro dl_cong) simp
  moreover have "sum_list (map d' us) = sum_list (map d us)" using assms(2) by (metis UnCI map_cong)
  moreover have "dl d' a ws = dl d (a + d p) ws" for a
  proof (cases ws)
    case (Cons w vs)
    moreover have "dl d' b vs = dl d b vs" for b using assms(2) Cons by (intro dl_cong) simp
    ultimately show ?thesis using assms(3) by (simp add: ac_simps)
  qed simp
  ultimately show ?thesis using assms(1) by (simp add: dl_append keep)
qed

lemma sq_removeI:
  assumes "sq s (us @ p # ws)" and "chain (nxt s') (sleepQ s') (us @ ws)"
    and "\<And>i. state (proctab s' i) = state (proctab s i)"
    and sd: "\<And>i. sdiff s' i = (if nxt s p = Some i
      then unat (sleepdiff (proctab s i) + sleepdiff (proctab s p)) else sdiff s i)"
  shows "sq s' (us @ ws) \<and>
    dl (sdiff s') 0 (us @ ws) = filter (\<lambda>w. fst w \<noteq> p) (dl (sdiff s) 0 (us @ p # ws))"
proof -
  have dist: "distinct (us @ p # ws)" by (rule sq_distinct [OF assms(1)])
  from assms(1) chain_split have np: "nxt s p = (case ws of [] \<Rightarrow> None | w # _ \<Rightarrow> Some w)"
    by (cases ws) (fastforce simp: sq_def)+
  have eq: "dl (sdiff s') 0 (us @ ws) = filter (\<lambda>w. fst w \<noteq> p) (dl (sdiff s) 0 (us @ p # ws))"
  proof (rule dl_remove [OF dist])
    show "sdiff s' x = sdiff s x" if "x \<in> set us \<union> set (tl ws)" for x
      using that dist np by (cases ws) (auto simp: sd)
    show "sdiff s' (hd ws) = sdiff s (hd ws) + sdiff s p" if "ws \<noteq> []"
    proof -
      from that obtain w vs where ws: "ws = w # vs" by (cases ws) auto
      let ?t = "sum_list (map (sdiff s) us) + sdiff s p + sdiff s w"
      have "(w, ?t) \<in> set (dl (sdiff s) 0 (us @ p # ws))" by (simp add: ws dl_append)
      with assms(1) have "?t \<le> MAX_TICKS" unfolding sq_def by fastforce
      then have "sdiff s w + sdiff s p < 4294967296" by simp
      with np ws show ?thesis by (simp add: sd) (simp add: sdiff_def unat_word_ariths)
    qed
  qed
  with assms show ?thesis by (auto simp: sq_def)
qed

lemma removeFromSleep_loop_eq:
  assumes "chain (nxt s) cur vs"
  shows "removeFromSleep_loop s p prev cur =
    Some (if p \<in> set vs then unlink_sleep s p (last (prev # takeWhile (\<lambda>x. x \<noteq> p) vs)) else s)"
  using assms
proof (induction vs arbitrary: prev cur)
  case Nil
  then show ?case by (simp add: removeFromSleep_loop.simps)
next
  case (Cons c vs)
  then have cur: "cur = Some c" and ch: "chain (nxt s) (pnext (proctab s c)) vs"
    by (auto simp flip: nxt_def)
  from Cons.IH [OF ch, of c] cur show ?case
    by (subst removeFromSleep_loop.simps) auto
qed

lemma removeFromSleep_head:
  assumes rq: "rq s xs" and sq: "sq s (p # vs)"
  shows "\<exists>s'. removeFromSleep s p = Inr s' \<and> rq s' xs \<and> sq s' vs \<and>
    dl (sdiff s') 0 vs = filter (\<lambda>w. fst w \<noteq> p) (dl (sdiff s) 0 (p # vs))"
proof -
  define s' where "s' = (case nxt s p of None \<Rightarrow> s\<lparr>sleepQ := nxt s p\<rparr>
    | Some n \<Rightarrow> set_pcb (s\<lparr>sleepQ := nxt s p\<rparr>) n
       (\<lambda>q. q\<lparr>sleepdiff := sleepdiff q + sleepdiff (proctab s p)\<rparr>))"
  from sq have q: "sleepQ s = Some p" and ch: "chain (nxt s) (nxt s p) vs" by (auto simp: sq_def)
  have nx: "nxt s' = nxt s" "sleepQ s' = nxt s p" "head s' = head s" "tail s' = tail s"
    by (auto simp: s'_def nxt_def split: option.splits)
  have "sq s' ([] @ vs) \<and> dl (sdiff s') 0 ([] @ vs) = filter (\<lambda>w. fst w \<noteq> p) (dl (sdiff s) 0 ([] @ p # vs))"
    by (rule sq_removeI) (use sq ch nx in \<open>auto simp: s'_def sdiff_def split: option.splits\<close>)
  moreover have "removeFromSleep s p = Inr s'"
    using q by (auto simp: removeFromSleep_def Let_def s'_def nxt_def split: option.splits)
  moreover have "rq s' xs"
    by (rule rq_frame [OF rq]) (use nx in \<open>auto simp: s'_def split: option.splits\<close>)
  ultimately show ?thesis by auto
qed

lemma sq_removed:
  assumes rq: "rq s xs" and sq: "sq s ((us @ [a]) @ p # ws)"
  shows "rq (unlink_sleep s p a) xs \<and> sq (unlink_sleep s p a) ((us @ [a]) @ ws) \<and>
    dl (sdiff (unlink_sleep s p a)) 0 ((us @ [a]) @ ws) =
      filter (\<lambda>w. fst w \<noteq> p) (dl (sdiff s) 0 ((us @ [a]) @ p # ws))"
proof -
  from sq_distinct [OF sq] have dist: "distinct ((us @ [a]) @ p # ws)" .
  from sq have c: "chain (nxt s) (sleepQ s) (us @ [a, p] @ ws)" by (simp add: sq_def)
  have "chain (nxt s) (nxt s p) ws" using chain_split [of "nxt s" "sleepQ s" "us @ [a]" p ws] c by simp
  then have "nxt s p \<noteq> Some a" "nxt s p \<noteq> Some p" using dist by (cases ws; auto)+
  moreover from dist have "a \<noteq> p" by auto
  ultimately have facts: "nxt (unlink_sleep s p a) = (nxt s)(a := nxt s p, p := None)"
    "sleepQ (unlink_sleep s p a) = sleepQ s" "head (unlink_sleep s p a) = head s"
    "tail (unlink_sleep s p a) = tail s"
    "\<And>i. state (proctab (unlink_sleep s p a) i) = state (proctab s i)"
    "\<And>i. sdiff (unlink_sleep s p a) i = (if nxt s p = Some i
      then unat (sleepdiff (proctab s i) + sleepdiff (proctab s p)) else sdiff s i)"
    by (simp_all add: unlink_sleep_facts)
  from chain_remove [OF c] dist have
    "chain ((nxt s)(a := nxt s p, p := None)) (sleepQ s) ((us @ [a]) @ ws)"
    by (subst chain_upd) auto
  then have "sq (unlink_sleep s p a) ((us @ [a]) @ ws) \<and>
    dl (sdiff (unlink_sleep s p a)) 0 ((us @ [a]) @ ws) =
      filter (\<lambda>w. fst w \<noteq> p) (dl (sdiff s) 0 ((us @ [a]) @ p # ws))"
    by (intro sq_removeI [OF sq]) (simp_all add: facts)
  moreover have "rq (unlink_sleep s p a) xs"
    by (rule rq_frame [OF rq]) (use queues_disjoint [OF rq sq] in \<open>auto simp: facts\<close>)
  ultimately show ?thesis by simp
qed

lemma removeFromSleep_sched:
  assumes rq: "rq s xs" and sq: "sq s ys"
  shows "\<exists>s'. removeFromSleep s p = Inr s' \<and> rq s' xs \<and> sq s' (remove1 p ys) \<and>
    dl (sdiff s') 0 (remove1 p ys) = filter (\<lambda>w. fst w \<noteq> p) (dl (sdiff s) 0 ys)"
proof -
  have keep: "filter (\<lambda>w. fst w \<noteq> p) (dl (sdiff s) a zs) = dl (sdiff s) a zs" if "p \<notin> set zs" for a zs
    using that by (induction zs arbitrary: a) auto
  consider "ys = []" | vs where "ys = p # vs" | h vs where "ys = h # vs" "h \<noteq> p" by (cases ys) auto
  then show ?thesis
  proof cases
    case 1
    with rq sq show ?thesis by (auto simp: removeFromSleep_def sq_def)
  next
    case 2
    with removeFromSleep_head [OF rq] sq show ?thesis by auto
  next
    case (3 h vs)
    with sq have q: "sleepQ s = Some h" and ch: "chain (nxt s) (nxt s h) vs" by (auto simp: sq_def)
    let ?a = "last (h # takeWhile (\<lambda>x. x \<noteq> p) vs)"
    have eq: "removeFromSleep s p = Inr (if p \<in> set vs then unlink_sleep s p ?a else s)"
      using 3 q removeFromSleep_loop_eq [OF ch, of p h] by (simp add: removeFromSleep_def nxt_def)
    show ?thesis
    proof (cases "p \<in> set vs")
      case False
      with 3 keep eq rq sq show ?thesis by (auto simp: remove1_idem)
    next
      case True
      then obtain us ws where vs: "vs = us @ p # ws" and us: "p \<notin> set us" by (meson split_list_first)
      then have a: "?a = last (h # us)" by (simp add: takeWhile_first)
      have ys: "ys = (butlast (h # us) @ [?a]) @ p # ws" unfolding a using 3 vs by simp
      from sq_removed [OF rq sq [unfolded ys]] have
        "rq (unlink_sleep s p ?a) xs \<and> sq (unlink_sleep s p ?a) ((butlast (h # us) @ [?a]) @ ws) \<and>
         dl (sdiff (unlink_sleep s p ?a)) 0 ((butlast (h # us) @ [?a]) @ ws) =
           filter (\<lambda>w. fst w \<noteq> p) (dl (sdiff s) 0 ys)" unfolding ys by simp
      moreover have "remove1 p ys = (butlast (h # us) @ [?a]) @ ws"
        unfolding a using us 3 vs by (simp add: remove1_append)
      ultimately show ?thesis using eq True by auto
    qed
  qed
qed

section \<open>A timer queue as an interface\<close>

fun run_ticks :: "('s \<Rightarrow> 's kres) \<Rightarrow> nat \<Rightarrow> 's \<Rightarrow> 's kres" where
  "run_ticks tk 0 s = Inr s"
| "run_ticks tk (Suc n) s = (case run_ticks tk n s of Inl f \<Rightarrow> Inl f | Inr s' \<Rightarrow> tk s')"

lemma filter_sorted_Suc:
  assumes "sorted (map snd ws)"
  shows "filter (\<lambda>w. snd w \<le> Suc n) ws = filter (\<lambda>w. snd w \<le> n) ws @ filter (\<lambda>w. snd w = Suc n) ws"
  using assms
proof (induction ws)
  case (Cons w ws)
  show ?case
  proof (cases "snd w \<le> n")
    case False
    with Cons.prems have "filter (\<lambda>w. snd w \<le> n) ws = []" by (auto simp: filter_empty_conv)
    with Cons False show ?thesis by auto
  qed (use Cons in auto)
qed simp

lemma sorted_dl: "sorted (map snd (dl d acc xs))"
proof (induction xs arbitrary: acc)
  case (Cons x xs)
  then show ?case using dl_bounds [of _ d "acc + d x" xs] by (auto simp: image_iff)
qed simp

locale timer_queue =
  fixes tk :: "'s \<Rightarrow> 's kres"
    and waiting :: "'s \<Rightarrow> ('p \<times> nat) list"
    and runnable :: "'s \<Rightarrow> 'p list"
    and inv :: "'s \<Rightarrow> bool"
  assumes tick_law: "inv s \<Longrightarrow> \<exists>s'. tk s = Inr s' \<and> inv s' \<and> waiting s' = timer_tick (waiting s) \<and>
      runnable s' = runnable s @ timer_due (waiting s)"
    and waiting_pos: "inv s \<Longrightarrow> w \<in> set (waiting s) \<Longrightarrow> 0 < snd w"
    and waiting_sorted: "inv s \<Longrightarrow> sorted (map snd (waiting s))"
begin

lemma run_ticks_law:
  assumes "inv s"
  shows "\<exists>s'. run_ticks tk n s = Inr s' \<and> inv s' \<and>
    waiting s' = map (\<lambda>w. (fst w, snd w - n)) (filter (\<lambda>w. n < snd w) (waiting s)) \<and>
    runnable s' = runnable s @ map fst (filter (\<lambda>w. snd w \<le> n) (waiting s))"
proof (induction n)
  case 0
  have "filter (\<lambda>w. 0 < snd w) (waiting s) = waiting s" "filter (\<lambda>w. snd w = 0) (waiting s) = []"
    using waiting_pos [OF assms] by (auto simp: filter_id_conv filter_empty_conv)
  with assms show ?case by simp
next
  case (Suc n)
  then obtain s1 where s1: "run_ticks tk n s = Inr s1" "inv s1"
    "waiting s1 = map (\<lambda>w. (fst w, snd w - n)) (filter (\<lambda>w. n < snd w) (waiting s))"
    "runnable s1 = runnable s @ map fst (filter (\<lambda>w. snd w \<le> n) (waiting s))" by blast
  from tick_law [OF s1(2)] obtain s2 where s2: "tk s1 = Inr s2" "inv s2"
    "waiting s2 = timer_tick (waiting s1)" "runnable s2 = runnable s1 @ timer_due (waiting s1)" by blast
  have w: "waiting s2 = map (\<lambda>w. (fst w, snd w - Suc n)) (filter (\<lambda>w. Suc n < snd w) (waiting s))"
    unfolding s2(3) s1(3) timer_tick_def by (auto simp: filter_map o_def intro!: arg_cong [where f = "map _"] filter_cong)
  have d: "timer_due (waiting s1) = map fst (filter (\<lambda>w. snd w = Suc n) (waiting s))"
    unfolding s1(3) timer_due_def by (auto simp: filter_map o_def intro!: arg_cong [where f = "map _"] filter_cong)
  have "runnable s2 = runnable s @ map fst (filter (\<lambda>w. snd w \<le> Suc n) (waiting s))"
    unfolding filter_sorted_Suc [OF waiting_sorted [OF assms]] s2(4) s1(4) d by simp
  with s1(1) s2(1,2) w show ?case by simp
qed

end

interpretation slpq: timer_queue tick sleepers readyq sched_ok
proof unfold_locales
  show "\<exists>s'. tick s = Inr s' \<and> sched_ok s' \<and> sleepers s' = timer_tick (sleepers s) \<and>
      readyq s' = readyq s @ timer_due (sleepers s)" if "sched_ok s" for s
  proof -
    from sched_okD [OF that] have "rq s (readyq s)" "sq s (sleepq s)" by auto
    from tick_sched [OF this] obtain s' ws where r: "tick s = Inr s'"
      "rq s' (readyq s @ timer_due (sleepers s))" "sq s' ws" "dl (sdiff s') 0 ws = timer_tick (sleepers s)"
      unfolding sleepers_def by blast
    with sched_okI [OF r(2,3)] show ?thesis by auto
  qed
  show "0 < snd w" if "sched_ok s" "w \<in> set (sleepers s)" for s w
    using sched_okD [OF that(1)] that(2) by (simp add: sq_def sleepers_def)
  show "sorted (map snd (sleepers s))" for s by (simp add: sleepers_def sorted_dl)
qed

section \<open>Properties\<close>

text \<open>
  C9. \<open>sleep\<close> for at least one tick refines insertion into a list of deadlines: with both queues
  well formed and the process on neither, it ends, keeps both queues well formed, leaves the ready
  queue alone, and puts the process among the sleepers with \<open>len / 10\<close> ticks to go, behind every
  sleeper that wakes no later, without changing anybody's remaining time.
\<close>

theorem sleep_spec:
  assumes "sched_ok s" and "p < MAX_PROC" and "p \<notin> set (readyq s)" and "p \<notin> set (sleepq s)"
    and "10 \<le> unat len"
  shows "\<exists>s'. sleep s p len = Inr s' \<and> sched_ok s' \<and> readyq s' = readyq s \<and>
    sleepers s' = timer_insert p (unat len div 10) (sleepers s)"
proof -
  from sched_okD [OF assms(1)] have q: "rq s (readyq s)" "sq s (sleepq s)" by auto
  from sleep_sched [OF q assms(2-5)] obtain s' ys where
    r: "sleep s p len = Inr s'" "rq s' (readyq s)" "sq s' ys"
    "dl (sdiff s') 0 ys = timer_insert p (unat len div 10) (sleepers s)"
    unfolding sleepers_def by blast
  with sched_okI [OF r(2,3)] show ?thesis by auto
qed

lemma boot_sched_ok: "sched_ok boot_sched \<and> readyq boot_sched = [] \<and> sleepq boot_sched = []
    \<and> sleepers boot_sched = []"
proof -
  have "sq boot_sched []" by (simp add: sq_def boot_sched_def dispatchinit_def)
  from sched_okI [OF boot_sched_rq this] show ?thesis by simp
qed

theorem sleep_spec_witness:
  "\<exists>s'. sleep boot_sched 3 70 = Inr s' \<and> sched_ok s' \<and> readyq s' = [] \<and> sleepers s' = [(3, 7)]"
  using sleep_spec [of boot_sched 3 70] boot_sched_ok by (simp add: timer_insert_def)

text \<open>
  C8. Timely wake-up: from a well-formed state, any number of ticks can be served, and after \<open>n\<close>
  ticks exactly the sleepers with at most \<open>n\<close> ticks to go have left the sleep queue for the end of
  the ready queue, in the order of their deadlines, while the others are still asleep with \<open>n\<close>
  ticks less to go.
\<close>

theorem ticks_wake_sleepers:
  assumes "sched_ok s"
  shows "\<exists>s'. run_ticks tick n s = Inr s' \<and> sched_ok s' \<and>
    sleepers s' = map (\<lambda>w. (fst w, snd w - n)) (filter (\<lambda>w. n < snd w) (sleepers s)) \<and>
    readyq s' = readyq s @ map fst (filter (\<lambda>w. snd w \<le> n) (sleepers s))"
  using assms by (rule slpq.run_ticks_law)

lemma two_asleep:
  "\<exists>s. sched_ok s \<and> readyq s = [] \<and> sleepers s = [(4, 3), (3, 7)]"
proof -
  from sleep_sched [of boot_sched "[]" "[]" 3 70] sched_okD [of boot_sched] boot_sched_ok
  obtain s1 ys where s1: "rq s1 []" "sq s1 ys" "dl (sdiff s1) 0 ys = [(3, 7)]"
    by (auto simp: timer_insert_def)
  then have "ys = [3]" by (metis list.simps(8) list.simps(9) fst_conv map_fst_dl)
  with sleep_sched [OF s1(1,2), of 4 30] s1(3) obtain s2 zs where
    s2: "rq s2 []" "sq s2 zs" "dl (sdiff s2) 0 zs = [(4, 3), (3, 7)]" by (auto simp: timer_insert_def)
  from sched_okI [OF s2(1,2)] s2(3) show ?thesis by auto
qed

theorem ticks_wake_sleepers_witness:
  "\<exists>s s'. sched_ok s \<and> sleepers s = [(4, 3), (3, 7)] \<and>
    run_ticks tick 5 s = Inr s' \<and> sleepers s' = [(3, 2)] \<and> readyq s' = [4]"
proof -
  from two_asleep obtain s where s: "sched_ok s" "readyq s = []" "sleepers s = [(4, 3), (3, 7)]" by blast
  with ticks_wake_sleepers [OF s(1), of 5] show ?thesis by auto
qed

text \<open>
  C12. \<open>removeFromSleep\<close> ends on every well-formed state, keeps both queues well formed and the
  ready queue as it is, takes exactly the given process out of the sleepers and leaves every other
  sleeper its remaining time.
\<close>

theorem removeFromSleep_spec:
  assumes "sched_ok s"
  shows "\<exists>s'. removeFromSleep s p = Inr s' \<and> sched_ok s' \<and> readyq s' = readyq s \<and>
    sleepers s' = filter (\<lambda>w. fst w \<noteq> p) (sleepers s)"
proof -
  from sched_okD [OF assms(1)] have q: "rq s (readyq s)" "sq s (sleepq s)" by auto
  from removeFromSleep_sched [OF q, of p] obtain s' where
    r: "removeFromSleep s p = Inr s'" "rq s' (readyq s)" "sq s' (remove1 p (sleepq s))"
    "dl (sdiff s') 0 (remove1 p (sleepq s)) = filter (\<lambda>w. fst w \<noteq> p) (sleepers s)"
    unfolding sleepers_def by blast
  with sched_okI [OF r(2,3)] show ?thesis by auto
qed

theorem removeFromSleep_spec_witness:
  "\<exists>s s'. sched_ok s \<and> sleepers s = [(4, 3), (3, 7)] \<and> removeFromSleep s 4 = Inr s' \<and>
    sleepers s' = [(3, 7)]"
proof -
  from two_asleep obtain s where s: "sched_ok s" "readyq s = []" "sleepers s = [(4, 3), (3, 7)]" by blast
  with removeFromSleep_spec [OF s(1), of 4] show ?thesis by auto
qed

lemma sleepers_nth:
  assumes "sleepers s = us @ (p, t) # vs"
  shows "sdiff s p = t - (if us = [] then 0 else snd (last us))"
    and "sleepQ s = Some (fst (hd (us @ [(p, t)])))"
    and "us \<noteq> [] \<Longrightarrow> sdiff s (fst (hd us)) = snd (hd us)"
proof -
  have q: "sleepq s = map fst us @ p # map fst vs"
    using assms map_fst_dl [of "sdiff s" 0 "sleepq s"] by (simp add: sleepers_def)
  have d: "dl (sdiff s) 0 (map fst us) = us \<and> sum_list (map (sdiff s) (map fst us)) + sdiff s p = t"
    using assms unfolding sleepers_def q by (simp add: dl_append append_eq_append_conv)
      (metis (no_types, lifting) append_eq_append_conv length_map map_fst_dl list.inject prod.inject)
  have "snd (last (dl (sdiff s) a xs)) = a + sum_list (map (sdiff s) xs)" if "xs \<noteq> []" for a xs
    using that by (induction xs arbitrary: a) (auto simp: add.assoc)
  from this [of "map fst us" 0] d show "sdiff s p = t - (if us = [] then 0 else snd (last us))"
    by (cases "us = []") auto
  show "sleepQ s = Some (fst (hd (us @ [(p, t)])))"
  proof (cases "sleepQ s")
    case None
    with q show ?thesis by (simp add: sleepq_def eval_nat_numeral)
  next
    case (Some h)
    then have "\<exists>zs. sleepq s = h # zs" by (simp add: sleepq_def eval_nat_numeral)
    with q Some show ?thesis by (cases us) auto
  qed
  show "sdiff s (fst (hd us)) = snd (hd us)" if "us \<noteq> []"
    using d that by (cases us) auto
qed

text \<open>
  C15. The value \<open>killInSleep\<close> gives for a sleeper with \<open>t\<close> ticks to go: ten times \<open>t\<close> when it is
  first, and ten times its distance from its predecessor plus the first sleeper's remaining time
  otherwise; so it is the remaining time in milliseconds for the first two sleepers, and in general
  not for later ones.
\<close>

theorem killInSleep_value:
  assumes "sched_ok s" and "sleepers s = us @ (p, t) # vs"
  shows "killInSleep s p =
    Inr (of_nat (10 * (if us = [] then t else t - snd (last us) + snd (hd us))))"
proof -
  note n = sleepers_nth [OF assms(2)]
  have word: "sleepdiff (proctab s i) = of_nat (sdiff s i)" for i by (simp add: sdiff_def)
  have "distinct (map fst (sleepers s))"
    using sq_distinct [OF conjunct2 [OF sched_okD [OF assms(1)]]] by (simp add: sleepers_def)
  then have "us \<noteq> [] \<Longrightarrow> fst (hd us) \<noteq> p" by (cases us) (auto simp: assms(2))
  with n show ?thesis by (cases "us = []") (simp_all add: killInSleep_def word mult.commute)
qed

theorem killInSleep_value_witness:
  "\<exists>s. sched_ok s \<and> sleepers s = [(4, 3), (3, 7)] \<and> killInSleep s 3 = Inr 70"
proof -
  from two_asleep obtain s where s: "sched_ok s" "sleepers s = [(4, 3)] @ (3, 7) # []" by auto
  with killInSleep_value [OF s] show ?thesis by auto
qed

lemma short_sleep:
  assumes "sched_ok s" and "p < MAX_PROC" and "p \<notin> set (readyq s)" and "p \<notin> set (sleepq s)"
    and "0 < unat len" and "unat len < 10"
  shows "\<exists>s'. sleep s p len = Inr s' \<and> sleepQ s' = Some p \<and> sleepdiff (proctab s' p) = 0 \<and>
    state (proctab s' p) = STATE_SLEEP \<and> rq s' (readyq s)"
proof -
  from sched_okD [OF assms(1)] have rq: "rq s (readyq s)" and sq: "sq s (sleepq s)" by auto
  have "unat (len div 10) = 0" using assms(6) by (simp add: unat_div)
  then have l: "\<not> len < 1" "len div 10 = 0"
    using assms(5) by (auto simp: word_less_nat_alt unat_eq_0)
  show ?thesis
  proof (cases "sleepQ s")
    case None
    have "rq ((set_pcb s p f)\<lparr>sleepQ := Some p\<rparr>) (readyq s)" for f
      by (rule rq_frame [OF rq]) (use assms(3) in \<open>auto simp: nxt_def\<close>)
    from rq_set_other [OF this assms(3)] None l show ?thesis
      by (simp add: sleep_def Let_def)
  next
    case (Some h)
    with sq obtain vs where ys: "sleepq s = h # vs" by (cases "sleepq s") (auto simp: sq_def)
    with sq have "0 < sdiff s h" by (simp add: sq_def)
    then have pos: "0 < sleepdiff (proctab s h)" by (simp add: sdiff_def word_less_nat_alt)
    from ys assms(4) have ph: "h \<noteq> p" by auto
    from queues_disjoint [OF rq sq] ys have h: "h \<notin> set (readyq s)" by auto
    have "rq ((set_pcb (set_pcb (set_pcb (set_pcb s p f) p g) h k) p m)\<lparr>sleepQ := Some p\<rparr>) (readyq s)"
      for f g k m
      by (rule rq_frame [OF rq]) (use assms(3) h in \<open>auto simp: nxt_def\<close>)
    with Some l pos ph show ?thesis by (simp add: sleep_def Let_def)
  qed
qed

text \<open>Ticks on a queue whose head has a negative difference.\<close>

lemma stuck_ticks:
  assumes "sleepQ s = Some p" and "sleepdiff (proctab s p) = 0" and "state (proctab s p) = STATE_SLEEP"
    and "rq s xs" and "p \<notin> set xs" and "n < 4294967296"
  shows "\<exists>s'. run_ticks tick n s = Inr s' \<and> sleepQ s' = Some p \<and> sleepdiff (proctab s' p) = - of_nat n \<and>
    state (proctab s' p) = STATE_SLEEP \<and> rq s' xs"
  using assms(6)
proof (induction n)
  case 0
  then show ?case using assms by simp
next
  case (Suc n)
  then obtain s1 where s1: "run_ticks tick n s = Inr s1" "sleepQ s1 = Some p" "sleepdiff (proctab s1 p) = - of_nat n"
    "state (proctab s1 p) = STATE_SLEEP" "rq s1 xs" by auto
  let ?s2 = "set_pcb s1 p (\<lambda>c. c\<lparr>sleepdiff := sleepdiff c - 1\<rparr>)"
  have "unat (of_nat (Suc n) :: u32) = Suc n" using Suc.prems by (simp only: unat_of_nat) simp
  then have "of_nat (Suc n) \<noteq> (0 :: u32)" by (metis nat.distinct(1) unat_0)
  then have "- of_nat (Suc n) \<noteq> (0 :: u32)" by (simp only: neg_equal_0_iff_equal not_False_eq_True)
  moreover have d: "sleepdiff (proctab ?s2 p) = - of_nat (Suc n)" by (simp add: s1(3))
  ultimately have "sleepdiff (proctab ?s2 p) \<noteq> 0" by (simp only: not_False_eq_True)
  then have "tick_loop ?s2 = Some ?s2" using s1(2) by (subst tick_loop.simps) (simp del: set_pcb_simps add: set_pcb_simps(4))
  then have "tick s1 = Inr ?s2" using s1(2) by (simp add: tick_def)
  with s1 d rq_set_other [OF s1(5) assms(5)] show ?case by (intro exI [of _ ?s2]) simp
qed

text \<open>
  C16. A sleep of one to nine milliseconds is rounded down to a difference of 0 and put at the head
  of the queue; the next tick takes that difference below 0. So for each number \<open>n\<close> of ticks up to \<open>2 ^ 31\<close>,
  that is for over eight months, the process is still asleep at the head after \<open>n\<close> ticks, with the
  difference \<open>- n\<close>, and the ready queue is as it was: neither it nor any sleeper behind it is woken.
\<close>

theorem short_sleep_stuck:
  assumes "sched_ok s" and "p < MAX_PROC" and "p \<notin> set (readyq s)" and "p \<notin> set (sleepq s)"
    and "0 < unat len" and "unat len < 10" and "n \<le> 2147483648"
  shows "\<exists>s' s''. sleep s p len = Inr s' \<and> sleepQ s' = Some p \<and> sleepdiff (proctab s' p) = 0 \<and>
    run_ticks tick n s' = Inr s'' \<and> sleepQ s'' = Some p \<and> sleepdiff (proctab s'' p) = - of_nat n \<and>
    state (proctab s'' p) = STATE_SLEEP \<and> readyq s'' = readyq s"
proof -
  from short_sleep [OF assms(1-6)] obtain s' where
    s': "sleep s p len = Inr s'" "sleepQ s' = Some p" "sleepdiff (proctab s' p) = 0"
    "state (proctab s' p) = STATE_SLEEP" "rq s' (readyq s)" by blast
  from stuck_ticks [OF s'(2-5) assms(3), of n] assms(7) s' rq_readyq show ?thesis by fastforce
qed

theorem short_sleep_stuck_witness:
  "\<exists>s' s''. sleep boot_sched 3 5 = Inr s' \<and> run_ticks tick 1000 s' = Inr s'' \<and> sleepQ s'' = Some 3 \<and>
    state (proctab s'' 3) = STATE_SLEEP \<and> readyq s'' = []"
  using short_sleep_stuck [of boot_sched 3 5 1000] boot_sched_ok by fastforce

end
