(* ===== verification/Scheduler.thy ===== *)
theory Scheduler
  imports SleepQ
begin

text \<open>
  Ready queue and sleep queue together, as the dispatcher uses them: \<open>run_ok s p\<close> holds while \<open>p\<close>
  runs, and each queue operation is restated over the two abstractions \<open>readyq\<close> and \<open>sleepers\<close>.
  No queue operation changes a process identifier; \<open>pids_ok\<close> says that an identifier determines the
  slot it is in.
\<close>

section \<open>Queue operations over the abstractions\<close>

lemma sleepq_sleepers: "sched_ok s \<Longrightarrow> map fst (sleepers s) = sleepq s"
  by (simp add: sleepers_def)

lemma sched_states:
  assumes "sched_ok s"
  shows "i \<in> set (readyq s) \<Longrightarrow> i < MAX_PROC \<and> state (proctab s i) = STATE_READY"
    and "i \<in> set (sleepq s) \<Longrightarrow> i < MAX_PROC \<and> state (proctab s i) = STATE_SLEEP"
  using sched_okD [OF assms] by (auto simp: rq_def sq_def)

lemma not_queued:
  assumes "sched_ok s" and "state (proctab s p) \<noteq> STATE_READY" and "state (proctab s p) \<noteq> STATE_SLEEP"
  shows "p \<notin> set (readyq s)" "p \<notin> set (sleepq s)"
  using sched_states [OF assms(1)] assms(2,3) by blast+

text \<open>Two states whose queues look the same.\<close>

definition same_queues :: "sched \<Rightarrow> sched \<Rightarrow> bool" where
  "same_queues s s' \<longleftrightarrow> sched_ok s' \<and> readyq s' = readyq s \<and> sleepq s' = sleepq s \<and> sleepers s' = sleepers s"

lemma same_queues_trans: "same_queues s s' \<Longrightarrow> same_queues s' s'' \<Longrightarrow> same_queues s s''"
  by (simp add: same_queues_def)

lemma same_queuesI:
  assumes "sched_ok s" and "head s' = head s" and "tail s' = tail s" and "sleepQ s' = sleepQ s"
    and "\<And>i. i \<in> set (readyq s) \<union> set (sleepq s) \<Longrightarrow>
      nxt s' i = nxt s i \<and> state (proctab s' i) = state (proctab s i) \<and> sdiff s' i = sdiff s i"
  shows "same_queues s s'"
proof -
  from sched_okD [OF assms(1)] have q: "rq s (readyq s)" "sq s (sleepq s)" by auto
  have "rq s' (readyq s)" by (rule rq_frame [OF q(1) assms(2,3)]) (use assms(5) in blast)
  moreover have "sq s' (sleepq s) \<and> dl (sdiff s') 0 (sleepq s) = dl (sdiff s) 0 (sleepq s)"
    by (rule sq_frame [OF q(2) assms(4)]) (use assms(5) in blast)
  ultimately show ?thesis using sched_okI by (auto simp: same_queues_def sleepers_def)
qed

lemma set_pcb_outside:
  assumes "sched_ok s" and "p \<notin> set (readyq s)" and "p \<notin> set (sleepq s)"
  shows "same_queues s (set_pcb s p f)"
  by (rule same_queuesI [OF assms(1)]) (use assms in \<open>auto simp: nxt_def sdiff_def\<close>)

text \<open>Fields the queues do not use may change anywhere.\<close>

lemma set_pcb_fields:
  assumes "sched_ok s"
    and "\<And>c. pnext (f c) = pnext c" and "\<And>c. state (f c) = state c" and "\<And>c. sleepdiff (f c) = sleepdiff c"
  shows "same_queues s (set_pcb s p f)"
  by (rule same_queuesI [OF assms(1)]) (auto simp: nxt_def sdiff_def assms)

lemma ready_sched:
  assumes "sched_ok s" and "p < MAX_PROC" and "p \<notin> set (readyq s)" and "p \<notin> set (sleepq s)"
  shows "sched_ok (ready s p)" "readyq (ready s p) = readyq s @ [p]" "sleepq (ready s p) = sleepq s"
    "sleepers (ready s p) = sleepers s"
proof -
  from sched_okD [OF assms(1)] have q: "rq s (readyq s)" "sq s (sleepq s)" by auto
  have r: "rq (ready s p) (readyq s @ [p])" by (rule rq_ready [OF q(1) assms(3,2)])
  have tl: "tail s \<noteq> Some i" if "i \<in> set (sleepq s)" for i
    using q queues_disjoint [OF q] that by (auto simp: rq_def split: if_splits)
  have "sq (ready s p) (sleepq s) \<and> dl (sdiff (ready s p)) 0 (sleepq s) = dl (sdiff s) 0 (sleepq s)"
  proof (rule sq_frame [OF q(2)])
    show "nxt (ready s p) i = nxt s i \<and> state (proctab (ready s p) i) = state (proctab s i) \<and>
        sdiff (ready s p) i = sdiff s i" if "i \<in> set (sleepq s)" for i
      using that assms(4) tl [OF that]
      by (auto simp: nxt_ready ready_proctab sdiff_def split: option.splits)
  qed simp
  with sched_okI [OF r] show "sched_ok (ready s p)" "readyq (ready s p) = readyq s @ [p]"
    "sleepq (ready s p) = sleepq s" "sleepers (ready s p) = sleepers s" by (auto simp: sleepers_def)
qed

lemma next_sched:
  assumes "sched_ok s" and "readyq s = x # xs"
  shows "\<exists>s'. next_proc s = Inr (x, s') \<and> sched_ok s' \<and> readyq s' = xs \<and> sleepq s' = sleepq s \<and>
    sleepers s' = sleepers s \<and> x < MAX_PROC \<and> state (proctab s' x) = STATE_READY \<and> x \<notin> set xs"
proof -
  from sched_okD [OF assms(1)] assms(2) have q: "rq s (x # xs)" "sq s (sleepq s)" by auto
  from rq_next_proc [OF q(1)] obtain s' where n: "next_proc s = Inr (x, s')" "rq s' xs" by blast
  note f = next_proc_fields [OF n(1)]
  have x: "x \<notin> set (sleepq s)" using queues_disjoint [OF q] by auto
  have "sq s' (sleepq s) \<and> dl (sdiff s') 0 (sleepq s) = dl (sdiff s) 0 (sleepq s)"
    by (rule sq_frame [OF q(2)]) (use x in \<open>auto simp: f sdiff_def\<close>)
  with sched_okI [OF n(2)] have "sched_ok s'" "readyq s' = xs" "sleepq s' = sleepq s" "sleepers s' = sleepers s"
    by (auto simp: sleepers_def)
  moreover have "x < MAX_PROC" "state (proctab s' x) = STATE_READY" using q(1) by (auto simp: f rq_def)
  ultimately show ?thesis using n(1) rq_distinct [OF q(1)] by auto
qed

lemma tick_ok:
  assumes "sched_ok s"
  shows "\<exists>s'. tick s = Inr s' \<and> sched_ok s' \<and> readyq s' = readyq s @ timer_due (sleepers s) \<and>
    sleepers s' = timer_tick (sleepers s)"
proof -
  from sched_okD [OF assms] have q: "rq s (readyq s)" "sq s (sleepq s)" by auto
  from tick_sched [OF q] obtain s' ws where "tick s = Inr s'"
    "rq s' (readyq s @ timer_due (sleepers s))" "sq s' ws" "dl (sdiff s') 0 ws = timer_tick (sleepers s)"
    unfolding sleepers_def by blast
  with sched_okI show ?thesis by metis
qed

text \<open>\<open>removeFromReady\<close> touches only links inside the ready queue.\<close>

lemma removeFromReady_frame:
  assumes "rq s xs" and "removeFromReady s p = Inr s'"
  shows "state (proctab s' i) = state (proctab s i)" "sdiff s' i = sdiff s i"
    "i \<notin> set xs \<Longrightarrow> proctab s' i = proctab s i"
proof -
  have "\<exists>a. s' = unlink_ready s p a \<and> a \<in> set xs \<and> p \<in> set xs \<or> proctab s' = proctab s"
  proof (cases xs)
    case Nil
    with assms show ?thesis by (auto simp: rq_def removeFromReady_def)
  next
    case (Cons h vs)
    with assms(1) have hd: "head s = Some h" and ch: "chain (nxt s) (nxt s h) vs" by (auto simp: rq_def)
    show ?thesis
    proof (cases "h = p")
      case True
      with assms(2) hd show ?thesis by (auto simp: removeFromReady_def Let_def split: if_splits)
    next
      case False
      let ?a = "last (h # takeWhile (\<lambda>x. x \<noteq> p) vs)"
      have "?a \<in> set (h # takeWhile (\<lambda>x. x \<noteq> p) vs)" by (rule last_in_set) simp
      then have "?a \<in> set xs" using Cons by (auto dest: set_takeWhileD simp del: last.simps)
      moreover have "s' = (if p \<in> set vs then unlink_ready s p ?a else s)"
        using False hd removeFromReady_loop_eq [OF ch, of p h] assms(2)
        by (simp add: removeFromReady_def nxt_def)
      ultimately show ?thesis using Cons by (auto simp del: last.simps)
    qed
  qed
  then show "state (proctab s' i) = state (proctab s i)" "sdiff s' i = sdiff s i"
    "i \<notin> set xs \<Longrightarrow> proctab s' i = proctab s i"
    by (auto simp: sdiff_def unlink_ready_def Let_def)
qed

lemma removeFromReady_sched:
  assumes "sched_ok s"
  shows "\<exists>s'. removeFromReady s p = Inr s' \<and> sched_ok s' \<and> readyq s' = remove1 p (readyq s) \<and>
    sleepq s' = sleepq s \<and> sleepers s' = sleepers s \<and> (\<forall>i. state (proctab s' i) = state (proctab s i))"
proof -
  from sched_okD [OF assms] have q: "rq s (readyq s)" "sq s (sleepq s)" by auto
  from rq_removeFromReady [OF q(1)] obtain s' where
    r: "removeFromReady s p = Inr s'" "rq s' (remove1 p (readyq s))" "sleepQ s' = sleepQ s" by blast
  note f = removeFromReady_frame [OF q(1) r(1)]
  have "i \<notin> set (readyq s)" if "i \<in> set (sleepq s)" for i using queues_disjoint [OF q] that by blast
  then have "sq s' (sleepq s) \<and> dl (sdiff s') 0 (sleepq s) = dl (sdiff s) 0 (sleepq s)"
    by (intro sq_frame [OF q(2) r(3)]) (simp add: nxt_def f)
  with sched_okI [OF r(2)] r(1) f(1) show ?thesis by (auto simp: sleepers_def)
qed

section \<open>Running\<close>

definition run_ok :: "sched \<Rightarrow> nat \<Rightarrow> bool" where
  "run_ok s p \<longleftrightarrow> sched_ok s \<and> p < MAX_PROC \<and> p \<notin> set (readyq s) \<and> state (proctab s p) = STATE_READY"

lemma run_okD:
  assumes "run_ok s p"
  shows "sched_ok s" "p < MAX_PROC" "p \<notin> set (readyq s)" "p \<notin> set (sleepq s)" "state (proctab s p) = STATE_READY"
  using assms sched_states(2) [of s p] by (auto simp: run_ok_def)

lemma run_ok_same:
  "run_ok s p \<Longrightarrow> same_queues s s' \<Longrightarrow> state (proctab s' p) = STATE_READY \<Longrightarrow> run_ok s' p"
  by (simp add: run_ok_def same_queues_def)

lemma ready_length:
  assumes "run_ok s p"
  shows "length (readyq s) < MAX_PROC"
proof -
  note r = run_okD [OF assms]
  have "rq s (readyq s)" using sched_okD [OF r(1)] by simp
  then have "distinct (p # readyq s)" using rq_distinct r(3) by simp
  moreover have "set (p # readyq s) \<subseteq> {..<64}" using sched_states(1) [OF r(1)] r(2) by auto
  ultimately have "length (p # readyq s) \<le> card {..<64::nat}" by (metis card_mono distinct_card finite_lessThan)
  then show ?thesis by simp
qed

text \<open>The process taken off a non-empty ready queue may run.\<close>

lemma next_run:
  assumes "sched_ok s" and "readyq s = x # xs"
  shows "\<exists>s'. next_proc s = Inr (x, s') \<and> run_ok s' x \<and> readyq s' = xs \<and> sleepers s' = sleepers s"
  using next_sched [OF assms] by (auto simp: run_ok_def)

lemma next_cases:
  assumes "sched_ok s"
  obtains "readyq s = []" "next_proc s = Inl Halt"
  | x xs s' where "readyq s = x # xs" "next_proc s = Inr (x, s')" "run_ok s' x" "readyq s' = xs"
      "sleepers s' = sleepers s"
proof (cases "readyq s")
  case Nil
  with sched_okD [OF assms] next_proc_empty that(1) show thesis by auto
next
  case (Cons x xs)
  with next_run [OF assms] that(2) show thesis by blast
qed

section \<open>Identifiers\<close>

definition pids_ok :: "sched \<Rightarrow> bool" where
  "pids_ok s \<longleftrightarrow> (\<forall>i < MAX_PROC. pid (proctab s i) = 0 \<or> unat (pid (proctab s i)) mod MAX_PROC = i)"

text \<open>
  What the queue operations do to an entry of the process table is proved once, for any reflexive and
  transitive relation \<open>R\<close> that the assignments of the queue code keep. A field no queue operation touches
  is one instance of it, a property of entries that survives the assignments another.
\<close>

definition proc_states :: "u32 set" where
  "proc_states = {STATE_STOPPED, STATE_READY, STATE_WAIT, STATE_SLEEP, STATE_BLOCKED}"

definition related :: "(pcb \<Rightarrow> pcb \<Rightarrow> bool) \<Rightarrow> sched \<Rightarrow> sched \<Rightarrow> bool" where
  "related R s s' \<longleftrightarrow> (\<forall>i. R (proctab s i) (proctab s' i))"

definition same_field :: "(pcb \<Rightarrow> 'a) \<Rightarrow> sched \<Rightarrow> sched \<Rightarrow> bool" where
  "same_field g s s' \<longleftrightarrow> (\<forall>i. g (proctab s' i) = g (proctab s i))"

lemma same_field_refl: "same_field g s s" by (simp add: same_field_def)

lemma same_field_trans: "same_field g s s' \<Longrightarrow> same_field g s' s'' \<Longrightarrow> same_field g s s''"
  by (simp add: same_field_def)

lemma related_same: "related (\<lambda>c c'. g c' = g c) = same_field g"
  by (intro ext) (simp add: related_def same_field_def)

locale pcb_rel =
  fixes R :: "pcb \<Rightarrow> pcb \<Rightarrow> bool"
  assumes R_refl: "R c c"
    and R_trans: "R a b \<Longrightarrow> R b c \<Longrightarrow> R a c"
    and R_links: "R c (c\<lparr>pnext := x\<rparr>)" "R c (c\<lparr>pprev := x\<rparr>)" "R c (c\<lparr>sleepdiff := v\<rparr>)"
    and R_values: "R c (c\<lparr>ret := v\<rparr>)" "R c (c\<lparr>esp := v\<rparr>)" "R c (c\<lparr>waitpid := v\<rparr>)" "R c (c\<lparr>sigmask := v\<rparr>)"
      "R c (c\<lparr>currSigLvl := v\<rparr>)"
    and R_state: "v \<in> proc_states \<Longrightarrow> R c (c\<lparr>state := v\<rparr>)"
begin

lemmas R_upd = R_links [THEN R_trans [rotated]] R_values [THEN R_trans [rotated]] R_state [THEN R_trans [rotated]]

lemma related_refl: "related R s s" by (simp add: related_def R_refl)

lemma related_trans: "related R s s' \<Longrightarrow> related R s' s'' \<Longrightarrow> related R s s''"
  unfolding related_def using R_trans by blast

lemma rel_set_pcb: "(\<And>c. R c (f c)) \<Longrightarrow> related R s (set_pcb s p f)"
  by (simp add: related_def R_refl)

lemma rel_ready: "related R s (ready s p)"
  by (auto simp: related_def ready_proctab proc_states_def intro!: R_upd R_refl)

lemma rel_next: "next_proc s = Inr (p, s') \<Longrightarrow> related R s s'"
  by (auto simp: related_def next_proc_fields intro!: R_upd R_refl)

lemma rel_sleep: "sleep s p len = Inr s' \<Longrightarrow> related R s s'"
  by (auto simp: sleep_def Let_def rel_ready related_def ready_proctab sleep_insert_def proc_states_def
      intro!: R_upd R_refl split: if_splits option.splits prod.splits)

lemma rel_tick_wake: "related R s (tick_wake s t)"
  by (auto simp: tick_wake_def Let_def related_def ready_proctab proc_states_def intro!: R_upd R_refl)

lemma rel_tick_loop:
  assumes "tick_loop s = Some s'"
  shows "related R s s'"
proof (rule tick_loop.raw_induct [OF _ assms])
  fix loop :: "sched \<Rightarrow> sched option" and s s'
  assume "\<And>s s'. loop s = Some s' \<Longrightarrow> related R s s'"
    and "(if sleepQ s = None then Some s
      else if sleepdiff (proctab s (the (sleepQ s))) = 0 then loop (tick_wake s (the (sleepQ s)))
      else Some s) = Some s'"
  then show "related R s s'"
    by (metis option.inject related_refl rel_tick_wake related_trans)
qed

lemma rel_tick:
  assumes "tick s = Inr s'"
  shows "related R s s'"
proof -
  have "related R s (set_pcb s t (\<lambda>c. c\<lparr>sleepdiff := sleepdiff c - 1\<rparr>))" for t
    by (rule rel_set_pcb) (rule R_links)
  with assms show ?thesis
    by (auto simp: tick_def related_refl split: option.splits dest!: rel_tick_loop intro: related_trans)
qed

lemma rel_unlink: "related R s (unlink_ready s p prev)" "related R s (unlink_sleep s p prev)"
  by (auto simp: related_def unlink_ready_def unlink_sleep_def Let_def intro!: R_upd R_refl split: option.splits)

lemma rel_removeFromReady_loop:
  assumes "removeFromReady_loop s p prev cur = Some s'"
  shows "related R s s'"
proof (rule removeFromReady_loop.raw_induct [OF _ assms])
  fix loop :: "sched \<Rightarrow> nat \<Rightarrow> nat \<Rightarrow> pptr \<Rightarrow> sched option" and s p prev cur s'
  assume "\<And>s p prev cur s'. loop s p prev cur = Some s' \<Longrightarrow> related R s s'"
    and "(if cur = None then Some s
      else if cur = Some p then Some (unlink_ready s p prev)
      else loop s p (the cur) (pnext (proctab s (the cur)))) = Some s'"
  then show "related R s s'" by (metis option.inject related_refl rel_unlink(1))
qed

lemma rel_removeFromReady: "removeFromReady s p = Inr s' \<Longrightarrow> related R s s'"
  by (auto simp: removeFromReady_def Let_def related_def intro!: R_upd R_refl
      split: option.splits if_splits dest!: rel_removeFromReady_loop)

lemma rel_removeFromSleep_loop:
  assumes "removeFromSleep_loop s p prev cur = Some s'"
  shows "related R s s'"
proof (rule removeFromSleep_loop.raw_induct [OF _ assms])
  fix loop :: "sched \<Rightarrow> nat \<Rightarrow> nat \<Rightarrow> pptr \<Rightarrow> sched option" and s p prev cur s'
  assume "\<And>s p prev cur s'. loop s p prev cur = Some s' \<Longrightarrow> related R s s'"
    and "(if cur = None then Some s
      else if cur = Some p then Some (unlink_sleep s p prev)
      else loop s p (the cur) (pnext (proctab s (the cur)))) = Some s'"
  then show "related R s s'" by (metis option.inject related_refl rel_unlink(2))
qed

lemma rel_removeFromSleep: "removeFromSleep s p = Inr s' \<Longrightarrow> related R s s'"
  by (auto simp: removeFromSleep_def Let_def related_def intro!: R_upd R_refl
      split: option.splits if_splits dest!: rel_removeFromSleep_loop)

end

text \<open>A field that the assignments of the queue code leave alone.\<close>

locale kept_field =
  fixes g :: "pcb \<Rightarrow> 'a"
  assumes g_upd: "g (c\<lparr>pnext := x\<rparr>) = g c" "g (c\<lparr>pprev := x\<rparr>) = g c" "g (c\<lparr>state := v\<rparr>) = g c"
    "g (c\<lparr>sleepdiff := v\<rparr>) = g c" "g (c\<lparr>ret := v\<rparr>) = g c" "g (c\<lparr>esp := v\<rparr>) = g c"
    "g (c\<lparr>waitpid := v\<rparr>) = g c" "g (c\<lparr>sigmask := v\<rparr>) = g c" "g (c\<lparr>currSigLvl := v\<rparr>) = g c"

sublocale kept_field \<subseteq> kept: pcb_rel "\<lambda>c c'. g c' = g c"
  by unfold_locales (simp_all add: g_upd)

context kept_field
begin

lemmas kept_ready = kept.rel_ready [unfolded related_same]
lemmas kept_next = kept.rel_next [unfolded related_same]
lemmas kept_sleep = kept.rel_sleep [unfolded related_same]
lemmas kept_tick = kept.rel_tick [unfolded related_same]
lemmas kept_removeFromReady = kept.rel_removeFromReady [unfolded related_same]

end

interpretation pids: kept_field pid
  by unfold_locales simp_all

interpretation fds: kept_field fdt
  by unfold_locales simp_all

abbreviation same_pids :: "sched \<Rightarrow> sched \<Rightarrow> bool" where
  "same_pids \<equiv> same_field pid"

abbreviation same_fdts :: "sched \<Rightarrow> sched \<Rightarrow> bool" where
  "same_fdts \<equiv> same_field fdt"

lemmas same_pids_def = same_field_def [where g = pid]
lemmas same_pids_refl = same_field_refl [where g = pid]
lemmas same_pids_trans = same_field_trans [where g = pid]

lemma same_pids_ok: "same_pids s s' \<Longrightarrow> pids_ok s' = pids_ok s"
  by (simp add: same_pids_def pids_ok_def)

text \<open>The table search finds the slot of a live identifier and nothing else.\<close>

lemma findPCB_pid:
  assumes "pids_ok s" and "n \<noteq> 0"
  shows "findPCB s n = (if pid (proctab s (unat n mod MAX_PROC)) = n then Some (unat n mod MAX_PROC) else None)"
proof -
  have u: "i = unat n mod MAX_PROC" if "i < MAX_PROC" "pid (proctab s i) = n" for i
    using assms that by (auto simp: pids_ok_def)
  show ?thesis
  proof (cases "pid (proctab s (unat n mod MAX_PROC)) = n")
    case True
    have "findPCB s n \<noteq> None"
      unfolding findPCB_def find_None_iff using True by (auto intro!: exI [of _ "unat n mod 64"])
    then obtain i where i: "findPCB s n = Some i" by blast
    with u [of i] have "i = unat n mod MAX_PROC" by (auto simp: findPCB_def dest!: find_SomeD)
    with i True show ?thesis by simp
  next
    case False
    have "findPCB s n = None" unfolding findPCB_def find_None_iff using False u by auto
    with False show ?thesis by simp
  qed
qed

end
