(* ===== verification/Machine.thy ===== *)
theory Machine
  imports Prelude "HOL-Library.Signed_Division"
begin

unbundle bit_operations_syntax

text \<open>
  The byte-addressed memory of the machine: little-endian 32-bit loads and stores, the byte loops
  \<open>memset\<close> and \<open>memCpy\<close>, and variable argument lists. A \<open>va_list\<close> on the target is the address of
  the next argument, and each argument the kernel takes with \<open>va_arg\<close> is one 32-bit word.
\<close>

section \<open>Words in memory\<close>

type_synonym ram = "u32 \<Rightarrow> u8"

definition load32 :: "ram \<Rightarrow> u32 \<Rightarrow> u32" where
  "load32 m a = ucast (m a) OR push_bit 8 (ucast (m (a + 1))) OR push_bit 16 (ucast (m (a + 2))) OR
     push_bit 24 (ucast (m (a + 3)))"

definition store32 :: "ram \<Rightarrow> u32 \<Rightarrow> u32 \<Rightarrow> ram" where
  "store32 m a v = m(a := ucast v, a + 1 := ucast (drop_bit 8 v), a + 2 := ucast (drop_bit 16 v),
     a + 3 := ucast (drop_bit 24 v))"

text \<open>A run of words at consecutive addresses.\<close>

fun store_words :: "ram \<Rightarrow> u32 \<Rightarrow> u32 list \<Rightarrow> ram" where
  "store_words m a [] = m"
| "store_words m a (v # vs) = store_words (store32 m a v) (a + 4) vs"

fun load_words :: "ram \<Rightarrow> u32 \<Rightarrow> nat \<Rightarrow> u32 list" where
  "load_words m a 0 = []"
| "load_words m a (Suc n) = load32 m a # load_words m (a + 4) n"

section \<open>Byte loops\<close>

text \<open>
  \<open>memset\<close> of the C library and \<open>memCpy\<close> of \<open>disp.c\<close>, whose index is compared as an unsigned
  number. The loop runs upwards one byte at a time, so that a copy onto an overlapping higher
  address reads bytes it has already written.
\<close>

fun memset :: "ram \<Rightarrow> u32 \<Rightarrow> u8 \<Rightarrow> nat \<Rightarrow> ram" where
  "memset m a c 0 = m"
| "memset m a c (Suc n) = memset (m(a := c)) (a + 1) c n"

fun memCpy :: "ram \<Rightarrow> u32 \<Rightarrow> u32 \<Rightarrow> nat \<Rightarrow> ram" where
  "memCpy m dest src 0 = m"
| "memCpy m dest src (Suc n) = memCpy (m(dest := m src)) (dest + 1) (src + 1) n"

section \<open>Argument lists\<close>

definition va_arg :: "ram \<Rightarrow> u32 \<Rightarrow> nat \<Rightarrow> u32" where
  "va_arg m ap i = load32 m (ap + 4 * of_nat i)"

section \<open>Loads after stores\<close>

lemma bytes_join:
  fixes v :: u32
  shows "ucast (ucast v :: u8) OR push_bit 8 (ucast (ucast (drop_bit 8 v) :: u8)) OR
     push_bit 16 (ucast (ucast (drop_bit 16 v) :: u8)) OR push_bit 24 (ucast (ucast (drop_bit 24 v) :: u8)) = v"
proof (rule bit_word_eqI)
  fix n assume n: "n < LENGTH(32)"
  then consider "n < 8" | "8 \<le> n" "n < 16" | "16 \<le> n" "n < 24" | "24 \<le> n" "n < 32" by fastforce
  then show "bit ((ucast (ucast v :: u8) OR push_bit 8 (ucast (ucast (drop_bit 8 v) :: u8)) OR
     push_bit 16 (ucast (ucast (drop_bit 16 v) :: u8)) OR push_bit 24 (ucast (ucast (drop_bit 24 v) :: u8))) :: u32) n = bit v n"
    by cases (auto simp: bit_simps)
qed

lemma load32_store32 [simp]: "load32 (store32 m a v) a = v"
  by (simp add: load32_def store32_def bytes_join)

lemma offset_apart:
  fixes a b i j :: u32
  assumes "4 \<le> b - a" and "4 \<le> a - b" and "i < 4" and "j < 4"
  shows "b + i \<noteq> a + j"
proof
  assume "b + i = a + j"
  then have 1: "b - a = j - i" and 2: "a - b = i - j" by (simp_all add: algebra_simps)
  show False
  proof (cases "i \<le> j")
    case True
    then have "j - i \<le> j" by (simp add: word_sub_le)
    with assms(1,4) 1 show False by simp
  next
    case False
    then have "i - j \<le> i" by (simp add: word_sub_le)
    with assms(2,3) 2 show False by simp
  qed
qed

lemma load32_store32_other:
  assumes "4 \<le> b - a" and "4 \<le> a - b"
  shows "load32 (store32 m a v) b = load32 m b"
proof -
  note ne = offset_apart [OF assms]
  show ?thesis
    using ne [of 0 0, simplified] ne [of 0 1, simplified] ne [of 0 2, simplified] ne [of 0 3, simplified]
    ne [of 1 0, simplified] ne [of 1 1, simplified] ne [of 1 2, simplified] ne [of 1 3, simplified]
    ne [of 2 0, simplified] ne [of 2 1, simplified] ne [of 2 2, simplified] ne [of 2 3, simplified]
    ne [of 3 0, simplified] ne [of 3 1, simplified] ne [of 3 2, simplified] ne [of 3 3, simplified]
    by (simp add: load32_def store32_def)
qed

text \<open>A store outside the range of \<open>n\<close> words from \<open>a\<close> on.\<close>

lemma load_words_store32_other:
  assumes "\<forall>i < n. 4 \<le> a + 4 * of_nat i - b \<and> 4 \<le> b - (a + 4 * of_nat i)"
  shows "load_words (store32 m b v) a n = load_words m a n"
  using assms
proof (induction n arbitrary: a)
  case (Suc n)
  from Suc.prems have "4 \<le> a - b" "4 \<le> b - a" by force+
  moreover have "\<forall>i < n. 4 \<le> a + 4 + 4 * of_nat i - b \<and> 4 \<le> b - (a + 4 + 4 * of_nat i)"
  proof (intro allI impI)
    fix i assume "i < n"
    with Suc.prems have "4 \<le> a + 4 * of_nat (Suc i) - b \<and> 4 \<le> b - (a + 4 * of_nat (Suc i))" by blast
    then show "4 \<le> a + 4 + 4 * of_nat i - b \<and> 4 \<le> b - (a + 4 + 4 * of_nat i)"
      by (simp add: algebra_simps)
  qed
  ultimately show ?case using Suc.IH [of "a + 4"] by (simp add: load32_store32_other)
qed simp

lemma unat_neg: "x \<noteq> 0 \<Longrightarrow> unat (- x :: u32) = 4294967296 - unat x"
  using unat_sub_if' [of 0 x] by (simp add: unat_gt_0)

lemma word_index_apart:
  assumes "i < n" and "n < 1073741824"
  shows "4 \<le> (4 :: u32) + 4 * of_nat i" and "4 \<le> - (4 + 4 * of_nat i :: u32)"
proof -
  have u: "unat (4 + 4 * of_nat i :: u32) = 4 + 4 * i"
    using assms unat_of_nat_u32 [of "4 + 4 * i"] by simp
  then show "4 \<le> (4 :: u32) + 4 * of_nat i" by (simp add: word_le_nat_alt)
  have "unat (- (4 + 4 * of_nat i :: u32)) = 4294967296 - (4 + 4 * i)"
    using u unat_neg [of "4 + 4 * of_nat i"] by fastforce
  then show "4 \<le> - (4 + 4 * of_nat i :: u32)" using assms by (simp add: word_le_nat_alt)
qed

text \<open>What \<open>store_words\<close> leaves behind: the words, and every word outside them as it was.\<close>

lemma load32_store_words_before:
  assumes "4 \<le> b - a \<and> 4 \<le> a - b" and "4 * length vs \<le> unat (b - a)"
  shows "load32 (store_words m a vs) b = load32 m b"
  using assms
proof (induction vs arbitrary: a m)
  case (Cons v vs)
  show ?case
  proof (cases vs)
    case Nil
    with Cons.prems show ?thesis by (simp add: load32_store32_other)
  next
    case (Cons w ws)
    with Cons.prems have 8: "4 + 4 * length vs \<le> unat (b - a)" "8 \<le> unat (b - a)" by simp_all
    then have u: "unat (b - (a + 4)) = unat (b - a) - 4"
      using unat_sub [of 4 "b - a"] by (simp add: word_le_nat_alt diff_diff_eq)
    have "4 \<le> a + 4 - b"
    proof -
      have "unat (a + 4 - b) = 4294967296 - unat (b - (a + 4))"
        using unat_neg [of "b - (a + 4)"] u 8 by fastforce
      with u 8 unat_u32_less [of "b - a"] show ?thesis by (simp add: word_le_nat_alt)
    qed
    with u 8 Cons.IH [of "a + 4" "store32 m a v"] \<open>4 \<le> b - a \<and> 4 \<le> a - b\<close> show ?thesis
      by (simp add: load32_store32_other word_le_nat_alt)
  qed
qed simp

lemma load_words_store_words:
  assumes "length vs < 1073741824"
  shows "load_words (store_words m a vs) a (length vs) = vs"
proof -
  have keep: "load32 (store_words m (a + 4) vs) a = load32 m a" if "length vs < 1073741823" for m a vs
  proof (rule load32_store_words_before)
    have u: "unat (a - (a + 4)) = 4294967292" by (simp add: unat_neg)
    then show "4 \<le> a - (a + 4) \<and> 4 \<le> a + 4 - a" by (simp add: word_le_nat_alt)
    show "4 * length vs \<le> unat (a - (a + 4))" unfolding u using that by simp
  qed
  show ?thesis using assms by (induction vs arbitrary: a m) (simp_all add: keep)
qed

lemma memset_nth:
  assumes "n \<le> 4294967296"
  shows "memset m a c n x = (if unat (x - a) < n then c else m x)"
  using assms
proof (induction n arbitrary: m a)
  case (Suc n)
  show ?case
  proof (cases "x = a")
    case True
    have "unat (- 1 :: u32) = 4294967295" by (simp add: unat_neg)
    with True Suc show ?thesis by simp
  next
    case False
    then have "unat (x - (a + 1)) = unat (x - a) - 1" using unat_minus_one [of "x - a"] by (simp add: diff_diff_eq)
    moreover have "0 < unat (x - a)" using False by (simp add: unat_gt_0)
    ultimately have "unat (x - (a + 1)) < n \<longleftrightarrow> unat (x - a) < Suc n" by linarith
    with Suc False show ?thesis by simp
  qed
qed simp

lemma memCpy_nth:
  assumes "n \<le> 4294967296" and "n \<le> unat (dest - src) \<or> dest = src"
  shows "memCpy m dest src n x = (if unat (x - dest) < n then m (x - dest + src) else m x)"
  using assms
proof (induction n arbitrary: m dest src)
  case (Suc n)
  have cnd: "n \<le> unat (dest + 1 - (src + 1)) \<or> dest + 1 = src + 1" using Suc.prems(2) by auto
  have ih: "memCpy (m(dest := m src)) (dest + 1) (src + 1) n x =
    (if unat (x - (dest + 1)) < n then (m(dest := m src)) (x - (dest + 1) + (src + 1)) else (m(dest := m src)) x)"
    using Suc.prems(1) by (intro Suc.IH cnd) simp
  show ?case
  proof (cases "x = dest")
    case True
    have "unat (- 1 :: u32) = 4294967295" by (simp add: unat_neg)
    with True ih Suc.prems(1) show ?thesis by simp
  next
    case False
    then have "unat (x - (dest + 1)) = unat (x - dest) - 1" using unat_minus_one [of "x - dest"] by (simp add: diff_diff_eq)
    moreover have "0 < unat (x - dest)" using False by (simp add: unat_gt_0)
    ultimately have lt: "unat (x - (dest + 1)) < n \<longleftrightarrow> unat (x - dest) < Suc n" by linarith
    have e: "x - (dest + 1) + (src + 1) = x - dest + src" by simp
    have "(m(dest := m src)) (x - dest + src) = m (x - dest + src)" if "unat (x - dest) < Suc n"
    proof (cases "x - dest + src = dest")
      case True
      then have "x - dest = dest - src" by (simp add: algebra_simps)
      with Suc.prems(2) that False have "dest = src" by auto
      with True show ?thesis by simp
    qed simp
    with False ih lt show ?thesis by (simp only: memCpy.simps e) simp
  qed
qed simp

end
