(* ===== verification/Kernel.thy ===== *)
theory Kernel
  imports Scheduler Mem Machine
begin

text \<open>
  The state of the whole kernel: the scheduler, the memory manager, the machine's memory, and the
  static variables of \<open>create.c\<close>, \<open>kbd.c\<close> and \<open>init.c\<close>.

  The header words of the memory manager are kept in the typed heap of \<open>Mem\<close> and every other byte in
  \<open>ram\<close>: that the two do not overlap is what \<open>boot_allocations_disjoint\<close> is about. The random number
  generator of the C library is a parameter: its \<open>n\<close>-th value after \<open>srand(seed)\<close> is
  \<open>rand_seq lib seed n\<close>, and a program that never calls \<open>srand\<close> starts from seed 1.
\<close>

lemma int_unat_sint: "0 \<le> sint (n :: u32) \<Longrightarrow> int (unat n) = sint n"
proof -
  assume 0: "0 \<le> sint n"
  have "sint n < 2 ^ (LENGTH(32) - 1)" by (rule sint_lt)
  then have "take_bit 32 (sint n) = sint n" using 0 by (simp add: take_bit_eq_mod)
  then show ?thesis using uint_sint [of n] by simp
qed

lemma sint_small: "j < 2147483648 \<Longrightarrow> sint (of_nat j :: u32) = int j"
  by (simp add: sint_uint uint_nat unat_of_nat signed_take_bit_int_eq_self)

record kbdstate =
  kstate :: u32
  eof :: u32
  echo :: u32
  kbdbuff :: "nat \<Rightarrow> u8"
  irq_on :: bool

record kernel =
  sch :: sched
  kmem :: memstate
  nextpid :: u32
  ram :: ram
  devtable :: "nat \<Rightarrow> devsw"
  kbd :: kbdstate
  rseed :: u32
  rcalls :: nat
  console :: "u8 list"

record lib =
  rand_seq :: "u32 \<Rightarrow> nat \<Rightarrow> u32"

abbreviation (input) proc :: "kernel \<Rightarrow> nat \<Rightarrow> pcb" where
  "proc k p \<equiv> proctab (sch k) p"

text \<open>Assignment of fields of \<open>proctab[p]\<close>.\<close>

definition upd :: "kernel \<Rightarrow> nat \<Rightarrow> (pcb \<Rightarrow> pcb) \<Rightarrow> kernel" where
  "upd k p f = k\<lparr>sch := set_pcb (sch k) p f\<rparr>"

lemma upd_simps [simp]:
  "sch (upd k p f) = set_pcb (sch k) p f" "kmem (upd k p f) = kmem k" "nextpid (upd k p f) = nextpid k"
  "ram (upd k p f) = ram k" "devtable (upd k p f) = devtable k" "kbd (upd k p f) = kbd k"
  "rseed (upd k p f) = rseed k" "rcalls (upd k p f) = rcalls k" "console (upd k p f) = console k"
  by (simp_all add: upd_def)

definition kbd_image :: kbdstate where
  "kbd_image = \<lparr>kstate = 0, eof = 4, echo = ECHO_ON, kbdbuff = (\<lambda>_. 0), irq_on = False\<rparr>"

definition no_dev :: devsw where
  "no_dev = \<lparr>dvnum = 0, dvopen = None, dvclose = None, dvread = None, dvwrite = None, dvioctl = None\<rparr>"

text \<open>The kernel's static data as the loader leaves them, over some contents of memory.\<close>

definition image :: "ram \<Rightarrow> (u32 \<Rightarrow> memHeader) \<Rightarrow> kernel" where
  "image m h = \<lparr>sch = \<lparr>proctab = (\<lambda>_. zero_pcb), head = None, tail = None, sleepQ = None\<rparr>,
     kmem = \<lparr>memSlot = 0, hdrs = h\<rparr>, nextpid = 0, ram = m, devtable = (\<lambda>_. no_dev), kbd = kbd_image,
     rseed = 1, rcalls = 0, console = []\<rparr>"

end
