(* ===== verification/Create.thy ===== *)
theory Create
  imports Kernel
begin

text \<open>
  Process creation, \<open>c/create.c\<close>. A new process gets the first free slot of the table, counting on
  from the last process identifier handed out, an identifier that is congruent to its slot, and a
  fresh stack with a context frame that makes the first context switch enter the process function.
  \<open>cf->returnAddr\<close>, which the header does not declare, is taken to be the word after the frame,
  \<open>stackSlots[0]\<close>.
\<close>

section \<open>Operations\<close>

definition STARTING_EFLAGS :: u32 where [simp]: "STARTING_EFLAGS = 0x3200"

definition sizeof_context_frame :: u32 where [simp]: "sizeof_context_frame = 44"

text \<open>The search loop, with the number of rounds left.\<close>

fun create_probe :: "nat \<Rightarrow> sched \<Rightarrow> u32 \<Rightarrow> pptr \<times> u32" where
  "create_probe 0 s n = (None, n)"
| "create_probe (Suc i) s n =
    (let n' = n + 1; pIndex = unat n' mod MAX_PROC in
     if state (proctab s pIndex) = STATE_STOPPED then (Some pIndex, n') else create_probe i s n')"

text \<open>The initial frame at \<open>cf\<close>: filled with 0xA5, then the fields that matter.\<close>

definition create_frame :: "platform \<Rightarrow> ram \<Rightarrow> u32 \<Rightarrow> u32 \<Rightarrow> ram" where
  "create_frame pl m cf fp =
    (let m1 = memset m cf 0xA5 (unat sizeof_context_frame);
         m2 = store32 m1 (cf + 36) (getCS pl);
         m3 = store32 m2 (cf + 32) fp;
         m4 = store32 m3 (cf + 40) STARTING_EFLAGS;
         m5 = store32 m4 (cf + 44) (addr_sysstop pl);
         m6 = store32 m5 (cf + 12) (cf + sizeof_context_frame)
     in store32 m6 (cf + 8) (load32 m6 (cf + 12)))"

definition create :: "platform \<Rightarrow> kernel \<Rightarrow> u32 \<Rightarrow> u32 \<Rightarrow> (u32 \<times> kernel) kres" where
  "create pl k fp stackSize0 =
    (let stackSize = (if stackSize0 < PROC_STACK then PROC_STACK else stackSize0);
         (slot, n) = create_probe MAX_PROC (sch k) (nextpid k);
         k1 = k\<lparr>nextpid := n\<rparr>
     in case slot of
          None \<Rightarrow> Inr (CREATE_FAILURE, k1)
        | Some p \<Rightarrow>
            (case kmalloc (kmem k1) stackSize of
               Inl e \<Rightarrow> Inl e
             | Inr (blk, ms) \<Rightarrow>
                 let k2 = k1\<lparr>kmem := ms\<rparr> in
                 if blk = 0 then Inr (CREATE_FAILURE, k2)
                 else
                   let cf = blk + stackSize - 4 - sizeof_context_frame;
                       k3 = k2\<lparr>ram := create_frame pl (ram k2) cf fp\<rparr>;
                       k4 = upd k3 p (\<lambda>c. c\<lparr>esp := cf, state := STATE_READY, pid := nextpid k3\<rparr>);
                       k5 = k4\<lparr>sch := ready (sch k4) p\<rparr>
                   in Inr (pid (proc k5 p), k5)))"

section \<open>The slot search\<close>

lemma create_probe_None:
  "create_probe i s n = (None, n') \<Longrightarrow>
     n' = n + of_nat i \<and> (\<forall>j < i. state (proctab s (unat (n + 1 + of_nat j) mod 64)) \<noteq> STATE_STOPPED)"
proof (induction i arbitrary: n)
  case (Suc i)
  then have st: "state (proctab s (unat (n + 1) mod 64)) \<noteq> STATE_STOPPED" and r: "create_probe i s (n + 1) = (None, n')"
    by (auto simp: Let_def split: if_splits)
  from Suc.IH [OF r] have n': "n' = n + 1 + of_nat i"
    and all: "\<forall>j < i. state (proctab s (unat (n + 1 + 1 + of_nat j) mod 64)) \<noteq> STATE_STOPPED" by blast+
  have "state (proctab s (unat (n + 1 + of_nat j) mod 64)) \<noteq> STATE_STOPPED" if "j < Suc i" for j
  proof (cases j)
    case (Suc j')
    with that all have "state (proctab s (unat (n + 1 + 1 + of_nat j') mod 64)) \<noteq> STATE_STOPPED" by simp
    with Suc show ?thesis by (simp add: algebra_simps)
  qed (use st in simp)
  with n' show ?case by (simp add: algebra_simps)
qed simp

lemma create_probe_Some:
  "create_probe i s n = (Some p, n') \<Longrightarrow> p = unat n' mod 64 \<and> state (proctab s p) = STATE_STOPPED"
  by (induction i arbitrary: n) (auto simp: Let_def split: if_splits)

text \<open>Sixty-four consecutive identifiers visit every slot.\<close>

lemma probe_surj:
  assumes "q < 64"
  shows "\<exists>j < 64. unat (n + 1 + of_nat j :: u32) mod 64 = q"
proof -
  let ?j = "(q + 64 - unat (n + 1) mod 64) mod 64"
  have "unat (n + 1 + of_nat ?j) mod 64 = (unat (n + 1) + ?j) mod 4294967296 mod 64"
    by (simp add: unat_word_ariths)
  also have "\<dots> = (unat (n + 1) + ?j) mod 64" by (rule mod_mod_cancel) simp
  also have "\<dots> = q"
  proof -
    define a where "a = unat (n + 1)"
    have r: "a mod 64 < 64" by simp
    have "(a + (q + 64 - a mod 64) mod 64) mod 64 = (a + (q + 64 - a mod 64)) mod 64"
      by (rule mod_add_right_eq)
    also have "\<dots> = (a mod 64 + (q + 64 - a mod 64)) mod 64" by (rule mod_add_left_eq [symmetric])
    also have "a mod 64 + (q + 64 - a mod 64) = q + 64" using r by simp
    finally show ?thesis using assms by (simp add: a_def)
  qed
  finally show ?thesis by (intro exI [of _ ?j]) simp
qed

lemma create_probe_full:
  assumes "create_probe MAX_PROC s n = (None, n')" and "q < MAX_PROC"
  shows "state (proctab s q) \<noteq> STATE_STOPPED"
proof -
  from probe_surj [of q n] assms(2) obtain j where "j < 64" "unat (n + 1 + of_nat j) mod 64 = q" by auto
  with create_probe_None [of 64 s n n'] assms(1) show ?thesis by auto
qed

section \<open>The new frame\<close>

lemma load32_memset:
  assumes "unat (b - a) + 4 \<le> n" and "n < 4294967292"
  shows "load32 (memset m a c n) b = load32 (\<lambda>_. c) 0"
proof -
  have u: "unat (b + of_nat i - a) = unat (b - a) + i" if "i < 4" for i :: nat
  proof -
    have i: "unat (of_nat i :: u32) = i" using that by simp
    then have "unat (b - a) + unat (of_nat i :: u32) < 2 ^ LENGTH(32)" using assms that by simp
    then have "unat ((b - a) + of_nat i) = unat (b - a) + unat (of_nat i :: u32)"
      by (rule iffD1 [OF unat_add_lem])
    with i show ?thesis by (simp add: algebra_simps)
  qed
  from u [of 0] u [of 1] u [of 2] u [of 3] assms show ?thesis
    by (simp add: load32_def memset_nth)
qed

lemma create_frame_words:
  "load32 (create_frame pl m cf fp) (cf + 32) = fp"
  "load32 (create_frame pl m cf fp) (cf + 36) = getCS pl"
  "load32 (create_frame pl m cf fp) (cf + 40) = STARTING_EFLAGS"
  "load32 (create_frame pl m cf fp) (cf + 44) = addr_sysstop pl"
  "load32 (create_frame pl m cf fp) (cf + 12) = cf + 44"
  "load32 (create_frame pl m cf fp) (cf + 8) = cf + 44"
  by (simp_all add: create_frame_def Let_def load32_store32_other word_le_nat_alt unat_neg)

lemma create_frame_fill:
  "a \<in> {0, 4, 16, 20, 24, 28} \<Longrightarrow> load32 (create_frame pl m cf fp) (cf + a) = 0xA5A5A5A5"
proof -
  have f: "load32 (\<lambda>_. 0xA5) 0 = 0xA5A5A5A5" by (simp add: load32_def)
  show "a \<in> {0, 4, 16, 20, 24, 28} \<Longrightarrow> ?thesis"
    by (elim insertE emptyE) (simp_all add: create_frame_def Let_def load32_store32_other word_le_nat_alt unat_neg
        load32_memset f)
qed

section \<open>Properties\<close>

lemma unat_sub_le: "unat b \<le> unat a \<Longrightarrow> unat (a - b :: u32) = unat a - unat b"
  by (rule unat_sub) (simp add: word_le_nat_alt)

text \<open>The frame lies at the end of the new block, with the return address in its last word.\<close>

lemma frame_in_block:
  fixes blk sz :: u32
  assumes "48 \<le> unat sz" and "unat blk + unat sz < 4294967296"
  defines "cf \<equiv> blk + sz - 4 - 44"
  shows "unat cf + 48 = unat blk + unat sz"
proof -
  have 1: "unat (blk + sz) = unat blk + unat sz" using assms(2) by (simp add: unat_word_ariths)
  then have 2: "unat (blk + sz - 4) = unat blk + unat sz - 4" using assms(1) by (subst unat_sub_le) simp_all
  then have "unat cf = unat blk + unat sz - 4 - 44" using assms(1) unfolding cf_def by (subst unat_sub_le) simp_all
  with assms(1) show ?thesis by simp
qed

lemma heap_block_bound:
  assumes "heap n s (r # rs)"
  shows "unat r + blk_room s r < 4294967296"
  using assms by (auto simp: heap_def owned_def blk_end_def blk_room_def)

text \<open>What \<open>create\<close> leaves behind when it succeeds.\<close>

definition created :: "platform \<Rightarrow> kernel \<Rightarrow> u32 \<Rightarrow> nat \<Rightarrow> u32 \<Rightarrow> kernel \<Rightarrow> bool" where
  "created pl k fp p r k' \<longleftrightarrow> p < MAX_PROC \<and> p = unat r mod MAX_PROC \<and> state (proc k p) = STATE_STOPPED \<and>
     pid (proc k' p) = r \<and> nextpid k' = r \<and> sched_ok (sch k') \<and> readyq (sch k') = readyq (sch k) @ [p] \<and>
     sleepers (sch k') = sleepers (sch k) \<and>
     (let e = esp (proc k' p) in
        load32 (ram k') (e + 32) = fp \<and> load32 (ram k') (e + 36) = getCS pl \<and>
        load32 (ram k') (e + 40) = STARTING_EFLAGS \<and> load32 (ram k') (e + 44) = addr_sysstop pl)"

lemma create_result:
  assumes "sched_ok (sch k)" and "heap (Suc n) (kmem k) rs" and "unat sz \<le> 4294967264"
  shows "\<exists>r k'. create pl k fp sz = Inr (r, k') \<and>
    ((\<forall>q < MAX_PROC. state (proc k q) \<noteq> STATE_STOPPED) \<and> r = - 1 \<and> k' = k\<lparr>nextpid := nextpid k + 64\<rparr> \<or>
     kmalloc (kmem k) (if sz < PROC_STACK then PROC_STACK else sz) = Inr (0, kmem k) \<and> r = - 1 \<and>
       k' = k\<lparr>nextpid := nextpid k'\<rparr> \<or>
     (\<exists>p blk. created pl k fp p r k' \<and> heap n (kmem k') (blk # rs) \<and>
        unat blk \<le> unat (esp (proc k' p)) \<and> unat (esp (proc k' p)) + 48 \<le> unat blk + blk_room (kmem k') blk))"
proof -
  define size where "size = (if sz < PROC_STACK then PROC_STACK else sz)"
  have size: "48 \<le> unat size" "unat size \<le> 4294967264"
    using assms(3) by (auto simp: size_def word_less_nat_alt split: if_splits)
  note ceq = create_def [of pl k fp sz, folded size_def]
  obtain slot m where pr: "create_probe MAX_PROC (sch k) (nextpid k) = (slot, m)" by fastforce
  show ?thesis
  proof (cases slot)
    case None
    with pr create_probe_full [of "sch k" "nextpid k" m] create_probe_None [of 64 "sch k" "nextpid k" m]
    show ?thesis by (auto simp: ceq)
  next
    case (Some p)
    from pr Some have p: "p = unat m mod 64" "state (proc k p) = STATE_STOPPED"
      using create_probe_Some [of 64 "sch k" "nextpid k" p m] by auto
    from km.alloc_law [OF assms(2) size(2)] obtain blk ms where
      al: "kmalloc (kmem k) size = Inr (blk, ms)"
      "blk = 0 \<and> ms = kmem k \<or> blk \<noteq> 0 \<and> heap n ms (blk # rs) \<and> unat size \<le> blk_room ms blk \<and>
         (\<forall>q \<in> set rs. blk_room ms q = blk_room (kmem k) q)" by blast
    show ?thesis
    proof (cases "blk = 0")
      case True
      with al have "ms = kmem k" by simp
      then have "k\<lparr>nextpid := m, kmem := ms\<rparr> = k\<lparr>nextpid := m\<rparr>" by (cases k) simp
      with True al(1) pr Some have "create pl k fp sz = Inr (- 1, k\<lparr>nextpid := m\<rparr>)" by (simp add: ceq)
      moreover have "kmalloc (kmem k) (if sz < PROC_STACK then PROC_STACK else sz) = Inr (0, kmem k)"
        using al(1) True \<open>ms = kmem k\<close> unfolding size_def by simp
      ultimately show ?thesis
        by (intro exI [of _ "- 1"] exI [of _ "k\<lparr>nextpid := m\<rparr>"] conjI disjI2 disjI1) simp_all
    next
      case False
      with al have h: "heap n ms (blk # rs)" "unat size \<le> blk_room ms blk" by auto
      define cf where "cf = blk + size - 4 - 44"
      have fr: "unat cf + 48 = unat blk + unat size"
        unfolding cf_def by (rule frame_in_block [OF size(1)]) (use heap_block_bound [OF h(1)] h(2) in simp)
      define k4 where "k4 = upd (k\<lparr>nextpid := m, kmem := ms, ram := create_frame pl (ram k) cf fp\<rparr>) p
        (\<lambda>c. c\<lparr>esp := cf, state := STATE_READY, pid := m\<rparr>)"
      define k' where "k' = k4\<lparr>sch := ready (sch k4) p\<rparr>"
      have e: "create pl k fp sz = Inr (m, k')"
        using pr Some al(1) False
        by (simp add: ceq Let_def cf_def k'_def k4_def ready_proctab)
      have out: "p \<notin> set (readyq (sch k))" "p \<notin> set (sleepq (sch k))"
        using not_queued [OF assms(1), of p] p(2) by auto
      from set_pcb_outside [OF assms(1) out] have
        sq: "sched_ok (sch k4)" "readyq (sch k4) = readyq (sch k)" "sleepq (sch k4) = sleepq (sch k)"
        "sleepers (sch k4) = sleepers (sch k)" by (auto simp: same_queues_def k4_def)
      have "p < MAX_PROC" by (simp add: p(1))
      note r = ready_sched [OF sq(1) this] sq(2-4) out
      have "created pl k fp p m k'"
        using r p create_frame_words [of pl "ram k" cf fp]
        by (simp add: created_def Let_def k'_def) (simp add: k4_def ready_proctab)
      moreover have "esp (proc k' p) = cf" "kmem k' = ms" by (simp_all add: k'_def k4_def ready_proctab)
      moreover have "unat blk \<le> unat cf" "unat cf + 48 \<le> unat blk + blk_room ms blk"
        using fr size(1) h(2) by linarith+
      ultimately show ?thesis using e h(1)
        by (intro exI [of _ m] exI [of _ k'] conjI disjI2 exI [of _ p] exI [of _ blk]) simp_all
    qed
  qed
qed

text \<open>
  C19. Creating a process. With both queues well formed and the memory manager able to serve one more
  request, \<open>create\<close> always returns, in one of three ways. Every slot is taken: it returns -1, having
  advanced \<open>nextpid\<close> by 64 and changed nothing else. There is a free slot but no memory: it returns -1
  and only \<open>nextpid\<close> has changed. Otherwise it returns the new process's identifier: the process is in
  a slot that was free, the one its identifier is congruent to; it is the last on the ready queue and
  the other queues and processes on them are as before; its stack is a new block that overlaps no
  block in use, and the frame at its \<open>esp\<close> lies inside that block, enters the process function with
  interrupts on, and has \<open>sysstop\<close> as the address the function returns to.
\<close>

theorem create_spec:
  assumes "sched_ok (sch k)" and "heap (Suc n) (kmem k) rs" and "unat sz \<le> 4294967264"
  shows "\<exists>r k'. create pl k fp sz = Inr (r, k') \<and>
    ((\<forall>q < MAX_PROC. state (proc k q) \<noteq> STATE_STOPPED) \<and> r = - 1 \<and> k' = k\<lparr>nextpid := nextpid k + 64\<rparr> \<or>
     kmalloc (kmem k) (if sz < PROC_STACK then PROC_STACK else sz) = Inr (0, kmem k) \<and> r = - 1 \<and>
       k' = k\<lparr>nextpid := nextpid k'\<rparr> \<or>
     (\<exists>p blk. created pl k fp p r k' \<and> heap n (kmem k') (blk # rs) \<and>
        unat blk \<le> unat (esp (proc k' p)) \<and> unat (esp (proc k' p)) + 48 \<le> unat blk + blk_room (kmem k') blk))"
  using assms by (rule create_result)

text \<open>The image with its memory set up, as \<open>create\<close> first meets it.\<close>

definition fresh :: kernel where
  "fresh = (image (\<lambda>_. 0) (hdrs raw_mem))\<lparr>kmem := kmeminit pc_platform raw_mem\<rparr>"

lemma fresh_ok:
  "sched_ok (sch fresh)" "n \<le> 62976 \<Longrightarrow> heap n (kmem fresh) []" "readyq (sch fresh) = []"
  "sleepq (sch fresh) = []" "sleepers (sch fresh) = []" "pids_ok (sch fresh)"
proof -
  have s: "sch fresh = boot_sched" by (simp add: fresh_def image_def boot_sched_def dispatchinit_def)
  show "sched_ok (sch fresh)" "readyq (sch fresh) = []" "sleepq (sch fresh) = []" "sleepers (sch fresh) = []"
    using boot_sched_ok by (simp_all add: s)
  show "pids_ok (sch fresh)" by (simp add: s pids_ok_def boot_sched_def dispatchinit_def zero_pcb_def)
  show "heap n (kmem fresh) []" if "n \<le> 62976"
    using kmeminit_fl [OF pc_layout [OF that]] by (auto simp: heap_def fresh_def)
qed

lemma fresh_kmalloc: "\<exists>ms. kmalloc (kmem fresh) PROC_STACK = Inr (0x20020, ms)"
proof -
  have k: "memSlot (kmem fresh) = 0x20010" "mh_size (hdrs (kmem fresh) 0x20010) = 0x7FFE0"
    by (simp_all add: fresh_def kmeminit_def pc_platform_def aligned_def Let_def)
  have "aligned 16384 = 16384" by (simp add: aligned_def)
  then show ?thesis by (simp add: kmalloc_def k kmalloc_loop.simps [of _ _ "0x20010"] kmalloc_split_def Let_def)
qed

lemma fresh_free:
  "\<not> (\<forall>q < MAX_PROC. state (proc fresh q) \<noteq> STATE_STOPPED)"
  "kmalloc (kmem fresh) (if 1000 < PROC_STACK then PROC_STACK else 1000) \<noteq> Inr (0, kmem fresh)"
proof -
  have "state (proc fresh 0) = STATE_STOPPED" by (simp add: fresh_def image_def zero_pcb_def)
  then show "\<not> (\<forall>q < MAX_PROC. state (proc fresh q) \<noteq> STATE_STOPPED)" by (auto intro!: exI [of _ 0])
  show "kmalloc (kmem fresh) (if 1000 < PROC_STACK then PROC_STACK else 1000) \<noteq> Inr (0, kmem fresh)"
    using fresh_kmalloc by auto
qed

lemma fresh_created:
  "\<exists>r k' p. create pc_platform fresh 0x5000 1000 = Inr (r, k') \<and> created pc_platform fresh 0x5000 p r k'"
proof -
  have h: "heap (Suc 0) (kmem fresh) []" and sz: "unat (1000 :: u32) \<le> 4294967264"
    by (rule fresh_ok(2)) simp_all
  show ?thesis using create_result [OF fresh_ok(1) h sz, of pc_platform "0x5000"] fresh_free by blast
qed

theorem create_spec_witness:
  "\<exists>r k' p. create pc_platform fresh 0x5000 1000 = Inr (r, k') \<and> created pc_platform fresh 0x5000 p r k'"
proof -
  have h: "heap (Suc 0) (kmem fresh) []" and sz: "unat (1000 :: u32) \<le> 4294967264"
    by (rule fresh_ok(2)) simp_all
  show ?thesis using create_spec [OF fresh_ok(1) h sz, of pc_platform "0x5000"] fresh_free by blast
qed

text \<open>The slot and the rest of the process table.\<close>

lemma create_table:
  assumes "create pl k fp sz = Inr (r, k')"
  obtains (failed) "sch k' = sch k" "r = - 1" "devtable k' = devtable k"
  | (made) cf where "devtable k' = devtable k"
      "sch k' = ready (set_pcb (sch k) (unat r mod MAX_PROC) (\<lambda>c. c\<lparr>esp := cf, state := STATE_READY, pid := r\<rparr>))
         (unat r mod MAX_PROC)"
proof -
  obtain slot m where pr: "create_probe MAX_PROC (sch k) (nextpid k) = (slot, m)" by fastforce
  show thesis
  proof (cases slot)
    case None
    with pr assms failed show thesis by (auto simp: create_def)
  next
    case (Some p)
    then have p: "p = unat m mod 64" using create_probe_Some [of 64 "sch k" "nextpid k" p m] pr by auto
    with pr Some assms failed made show thesis
      by (auto simp: create_def Let_def ready_proctab split: sum.splits if_splits)
  qed
qed

lemma create_keeps_pids:
  assumes "pids_ok (sch k)" and "create pl k fp sz = Inr (r, k')"
  shows "pids_ok (sch k')" "r = - 1 \<or> pid (proc k' (unat r mod MAX_PROC)) = r"
proof -
  let ?q = "unat r mod MAX_PROC"
  have "r = - 1 \<and> sch k' = sch k \<or> (\<forall>i. pid (proc k' i) = (if i = ?q then r else pid (proc k i)))"
    by (cases rule: create_table [OF assms(2)]) (simp_all add: ready_proctab)
  with assms(1) show "pids_ok (sch k')" "r = - 1 \<or> pid (proc k' ?q) = r" unfolding pids_ok_def by metis+
qed

text \<open>
  Identifiers determine slots. \<open>create\<close> keeps the invariant that a process identifier other than
  0 sits in the slot it is congruent to modulo 64, so no two slots share one, and the table search
  for the identifier it returns finds the slot of the new process.
\<close>

theorem create_pids:
  assumes "pids_ok (sch k)" and "create pl k fp sz = Inr (r, k')"
  shows "pids_ok (sch k') \<and>
    (\<forall>i < MAX_PROC. \<forall>j < MAX_PROC. pid (proc k' i) = pid (proc k' j) \<longrightarrow> pid (proc k' i) \<noteq> 0 \<longrightarrow> i = j) \<and>
    (r \<noteq> 0 \<longrightarrow> r \<noteq> - 1 \<longrightarrow> findPCB (sch k') r = Some (unat r mod MAX_PROC))"
proof -
  note po = create_keeps_pids [OF assms]
  have "i = j" if "i < MAX_PROC" "j < MAX_PROC" "pid (proc k' i) = pid (proc k' j)" "pid (proc k' i) \<noteq> 0" for i j
    using that po(1) unfolding pids_ok_def by metis
  with po findPCB_pid [OF po(1), of r] show ?thesis by auto
qed

theorem create_pids_witness:
  "\<exists>r k'. create pc_platform fresh 0x5000 1000 = Inr (r, k') \<and> pids_ok (sch k')"
proof -
  have h: "heap (Suc 0) (kmem fresh) []" and sz: "unat (1000 :: u32) \<le> 4294967264"
    by (rule fresh_ok(2)) simp_all
  from km.alloc_law [OF h, of "PROC_STACK"] obtain blk ms where "kmalloc (kmem fresh) PROC_STACK = Inr (blk, ms)"
    by auto
  then have "\<exists>r k'. create pc_platform fresh 0x5000 1000 = Inr (r, k')"
    by (auto simp: create_def Let_def split: option.splits prod.splits)
  with create_pids [OF fresh_ok(6)] show ?thesis by blast
qed

text \<open>
  C20. A new process inherits from the one that had its slot before. \<open>create\<close> sets the stack pointer, the
  state and the identifier only, so that the new process starts with the descriptors, the signal handlers,
  the pending signals and signal level, the processor time and the pending return value of the process that
  stopped in that slot.
\<close>

theorem create_inherits:
  assumes "create pl k fp sz = Inr (r, k')" and "r \<noteq> - 1"
  shows "fdt (proc k' (unat r mod MAX_PROC)) = fdt (proc k (unat r mod MAX_PROC)) \<and>
    sigtab (proc k' (unat r mod MAX_PROC)) = sigtab (proc k (unat r mod MAX_PROC)) \<and>
    sigmask (proc k' (unat r mod MAX_PROC)) = sigmask (proc k (unat r mod MAX_PROC)) \<and>
    currSigLvl (proc k' (unat r mod MAX_PROC)) = currSigLvl (proc k (unat r mod MAX_PROC)) \<and>
    cpuTime (proc k' (unat r mod MAX_PROC)) = cpuTime (proc k (unat r mod MAX_PROC)) \<and>
    ret (proc k' (unat r mod MAX_PROC)) = ret (proc k (unat r mod MAX_PROC))"
  using assms(1)
proof (cases rule: create_table)
  case failed
  with assms(2) show ?thesis by simp
next
  case made
  then show ?thesis by (simp add: ready_proctab)
qed

text \<open>A stopped process in slot 1 that had installed a handler for signal 5.\<close>

definition left_handler :: kernel where
  "left_handler = upd fresh 1 (\<lambda>c. c\<lparr>sigtab := (\<lambda>_. 0)(5 := 0x7000)\<rparr>)"

theorem create_inherits_witness:
  "\<exists>k'. create pc_platform left_handler 0x5000 1000 = Inr (1, k') \<and> sigtab (proc k' 1) 5 = 0x7000"
proof -
  obtain ms where "kmalloc (kmem left_handler) PROC_STACK = Inr (0x20020, ms)"
    using fresh_kmalloc by (auto simp: left_handler_def)
  moreover have "create_probe (Suc 63) (sch left_handler) (nextpid left_handler) = (Some 1, 1)"
    by (subst create_probe.simps(2)) (simp add: left_handler_def fresh_def image_def zero_pcb_def)
  ultimately have "\<exists>k'. create pc_platform left_handler 0x5000 1000 = Inr (1, k')"
    by (simp add: create_def Let_def ready_proctab)
  then obtain k' where k: "create pc_platform left_handler 0x5000 1000 = Inr (1, k')" by blast
  from create_inherits [OF k] k show ?thesis by (simp add: left_handler_def)
qed

end
