(* ===== verification/Context.thy ===== *)
theory Context
  imports Create
begin

text \<open>
  The context switch of \<open>c/ctsw.c\<close>, split where control leaves the kernel: \<open>switch_out\<close> is the code
  up to \<open>iret\<close>, \<open>switch_in\<close> the code from one of the three entry points on, the pushes of the
  processor included. What the process does in between is an argument of \<open>contextswitch\<close>, a function
  from the registers and the memory it starts with to a trap: the trap number, the registers and
  the memory at that moment. Kernel and processes share one address space and privilege level, so
  that the processor pushes only \<open>eflags\<close>, \<open>cs\<close> and \<open>eip\<close>.
\<close>

section \<open>Operations\<close>

definition SYS_TIMER :: u32 where [simp]: "SYS_TIMER = 33"
definition SYS_KEYBOARD :: u32 where [simp]: "SYS_KEYBOARD = 187"

record regs =
  r_edi :: u32
  r_esi :: u32
  r_ebp :: u32
  r_esp :: u32
  r_ebx :: u32
  r_edx :: u32
  r_ecx :: u32
  r_eax :: u32
  r_eip :: u32
  r_cs :: u32
  r_eflags :: u32

text \<open>\<open>popa\<close> and \<open>iret\<close> from the frame at \<open>sp\<close>; \<open>popa\<close> skips the saved stack pointer.\<close>

definition popa_iret :: "ram \<Rightarrow> u32 \<Rightarrow> regs" where
  "popa_iret m sp = \<lparr>r_edi = load32 m sp, r_esi = load32 m (sp + 4), r_ebp = load32 m (sp + 8),
     r_esp = sp + 44, r_ebx = load32 m (sp + 16), r_edx = load32 m (sp + 20), r_ecx = load32 m (sp + 24),
     r_eax = load32 m (sp + 28), r_eip = load32 m (sp + 32), r_cs = load32 m (sp + 36),
     r_eflags = load32 m (sp + 40)\<rparr>"

text \<open>The processor's pushes on a trap, then \<open>pusha\<close>: the new stack pointer and the memory.\<close>

definition trap_pusha :: "ram \<Rightarrow> regs \<Rightarrow> ram \<times> u32" where
  "trap_pusha m r =
    (let sp = r_esp r;
         m1 = store32 (store32 (store32 m (sp - 4) (r_eflags r)) (sp - 8) (r_cs r)) (sp - 12) (r_eip r);
         m2 = store32 (store32 (store32 (store32 m1 (sp - 16) (r_eax r)) (sp - 20) (r_ecx r))
                (sp - 24) (r_edx r)) (sp - 28) (r_ebx r);
         m3 = store32 (store32 (store32 (store32 m2 (sp - 32) (sp - 12)) (sp - 36) (r_ebp r))
                (sp - 40) (r_esi r)) (sp - 44) (r_edi r)
     in (m3, sp - 44))"

definition switch_out :: "kernel \<Rightarrow> nat \<Rightarrow> regs \<times> kernel" where
  "switch_out k p =
    (let saveESP = esp (proc k p);
         rc = ret (proc k p);
         m = store32 (ram k) (saveESP + 28) rc
     in (popa_iret m saveESP, k\<lparr>ram := m\<rparr>))"

definition switch_in :: "kernel \<Rightarrow> nat \<Rightarrow> u32 \<Rightarrow> regs \<Rightarrow> u32 \<times> kernel" where
  "switch_in k p trapNo r =
    (let (m, saveESP) = trap_pusha (ram k) r;
         rc = r_eax r;
         args' = r_edx r;
         k1 = upd (k\<lparr>ram := m\<rparr>) p (\<lambda>c. c\<lparr>esp := saveESP\<rparr>)
     in if trapNo = 1 then (SYS_TIMER, upd k1 p (\<lambda>c. c\<lparr>ret := rc\<rparr>))
        else if trapNo = 2 then (SYS_KEYBOARD, upd k1 p (\<lambda>c. c\<lparr>ret := rc\<rparr>))
        else (rc, upd k1 p (\<lambda>c. c\<lparr>args := args'\<rparr>)))"

type_synonym user_run = "regs \<Rightarrow> ram \<Rightarrow> u32 \<times> regs \<times> ram"

definition contextswitch :: "kernel \<Rightarrow> nat \<Rightarrow> user_run \<Rightarrow> u32 \<times> kernel" where
  "contextswitch k p u =
    (let (r, k1) = switch_out k p;
         (trapNo, r', m) = u r (ram k1)
     in switch_in (k1\<lparr>ram := m\<rparr>) p trapNo r')"

section \<open>Save and restore\<close>

text \<open>The words of a frame at \<open>sp\<close> that a restore reads.\<close>

definition same_frame :: "ram \<Rightarrow> ram \<Rightarrow> u32 \<Rightarrow> bool" where
  "same_frame m m' sp \<longleftrightarrow>
     (\<forall>i \<in> {0, 4, 8, 16, 20, 24, 28, 32, 36, 40}. load32 m' (sp + i) = load32 m (sp + i))"

lemma popa_trap:
  "popa_iret (fst (trap_pusha m r)) (snd (trap_pusha m r)) = r"
  by (simp add: popa_iret_def trap_pusha_def Let_def load32_store32_other word_le_nat_alt unat_neg)

lemma popa_same_frame: "same_frame m m' sp \<Longrightarrow> popa_iret m' sp = popa_iret m sp"
  by (simp add: same_frame_def popa_iret_def)

lemma popa_store_eax: "popa_iret (store32 m (sp + 28) v) sp = (popa_iret m sp)\<lparr>r_eax := v\<rparr>"
  by (simp add: popa_iret_def load32_store32_other word_le_nat_alt unat_neg)

lemma switch_in_eq:
  assumes "switch_in k p t r = (rc, k')"
  shows "rc = (if t = 1 then SYS_TIMER else if t = 2 then SYS_KEYBOARD else r_eax r)"
    "k' = (k\<lparr>ram := fst (trap_pusha (ram k) r), sch := set_pcb (sch k) p (\<lambda>c. c\<lparr>esp := r_esp r - 44,
       ret := (if t = 1 \<or> t = 2 then r_eax r else ret c), args := (if t = 1 \<or> t = 2 then args c else r_edx r)\<rparr>)\<rparr>)"
  using assms by (auto simp: switch_in_def trap_pusha_def Let_def upd_def set_pcb_def split: if_splits)

lemma switch_in_fields:
  assumes "switch_in k p t r = (rc, k')"
  shows "esp (proc k' p) = r_esp r - 44" "ram k' = fst (trap_pusha (ram k) r)"
    "rc = (if t = 1 then SYS_TIMER else if t = 2 then SYS_KEYBOARD else r_eax r)"
    "ret (proc k' p) = (if t = 1 \<or> t = 2 then r_eax r else ret (proc k p))"
    "args (proc k' p) = (if t = 1 \<or> t = 2 then args (proc k p) else r_edx r)"
    "same_queues (sch k) (sch k') \<or> \<not> sched_ok (sch k)" "same_pids (sch k) (sch k')"
    "state (proc k' i) = state (proc k i)"
proof -
  note eq = switch_in_eq [OF assms]
  show "rc = (if t = 1 then SYS_TIMER else if t = 2 then SYS_KEYBOARD else r_eax r)" by (rule eq(1))
  show "esp (proc k' p) = r_esp r - 44" "ram k' = fst (trap_pusha (ram k) r)"
    "ret (proc k' p) = (if t = 1 \<or> t = 2 then r_eax r else ret (proc k p))"
    "args (proc k' p) = (if t = 1 \<or> t = 2 then args (proc k p) else r_edx r)"
    "same_pids (sch k) (sch k')" "state (proc k' i) = state (proc k i)"
    by (auto simp: eq(2) same_pids_def)
  show "same_queues (sch k) (sch k') \<or> \<not> sched_ok (sch k)"
    by (auto simp: eq(2) intro!: set_pcb_fields)
qed

text \<open>Resuming a process whose frame is as the trap left it.\<close>

lemma switch_resume:
  assumes "switch_in k p t r = (rc, k1)" and "esp (proc k2 p) = esp (proc k1 p)"
    and "same_frame (ram k1) (ram k2) (esp (proc k1 p))"
  shows "fst (switch_out k2 p) = r\<lparr>r_eax := ret (proc k2 p)\<rparr>"
proof -
  note f = switch_in_fields [OF assms(1)]
  have sp: "snd (trap_pusha (ram k) r) = r_esp r - 44" by (simp add: trap_pusha_def Let_def)
  have "popa_iret (ram k2) (esp (proc k2 p)) = r"
    using popa_same_frame [OF assms(3)] popa_trap [of "ram k" r] by (simp add: assms(2) f(1,2) sp)
  then show ?thesis by (simp add: switch_out_def Let_def popa_store_eax)
qed

section \<open>Properties\<close>

text \<open>
  C23. The context switch loses nothing. Take a process that traps with registers \<open>r\<close> into the kernel,
  and any later kernel state in which its saved stack pointer and the words of its frame are still
  those of the trap. Switching to it then resumes it with exactly the registers it had, but for
  \<open>eax\<close>, which is the return value the kernel has recorded; and after a timer or keyboard interrupt
  that value is the interrupted \<open>eax\<close> itself unless the kernel changes it.
\<close>

theorem switch_roundtrip:
  assumes "switch_in k p t r = (rc, k1)" and "esp (proc k2 p) = esp (proc k1 p)"
    and "same_frame (ram k1) (ram k2) (esp (proc k1 p))"
  shows "fst (switch_out k2 p) = r\<lparr>r_eax := ret (proc k2 p)\<rparr> \<and>
    (t = 1 \<or> t = 2 \<longrightarrow> ret (proc k2 p) = ret (proc k1 p) \<longrightarrow> fst (switch_out k2 p) = r)"
  using switch_resume [OF assms] switch_in_fields(4) [OF assms(1)] by auto

theorem switch_roundtrip_witness:
  "fst (switch_out (snd (switch_in fresh 3 1 (popa_iret (\<lambda>a. ucast a) 0x30000))) 3) =
     popa_iret (\<lambda>a. ucast a) 0x30000"
proof -
  let ?r = "popa_iret (\<lambda>a. ucast a) 0x30000"
  obtain rc k1 where s: "switch_in fresh 3 1 ?r = (rc, k1)" by fastforce
  have "same_frame (ram k1) (ram k1) (esp (proc k1 3))" by (simp add: same_frame_def)
  with switch_roundtrip [OF s refl this] s show ?thesis by (metis snd_conv)
qed

text \<open>A block in use ends below the top of the address space.\<close>

lemma heap_top:
  assumes "heap n s rs" and "b \<in> set rs"
  shows "unat b + blk_room s b < 4294967296"
proof -
  from assms have "unat b = unat (b - 16) + 16 \<and> blk_end (hdrs s) (b - 16) < 4294967296"
    by (auto simp: heap_def owned_def)
  then show ?thesis by (simp add: blk_end_def blk_room_def)
qed

text \<open>
  C24. The life of a process begins at its function. When \<open>create\<close>, called with both queues well formed and
  room for one more allocation, returns an identifier \<open>r\<close>, the first switch to the process in slot
  \<open>r mod 64\<close> starts it at the function given to \<open>create\<close>, with the kernel's code segment, the starting flags and the
  return value of its slot in \<open>eax\<close>. Its stack pointer is at the word that holds the address of
  \<open>sysstop\<close>, so that returning from the function stops the process; and that word lies inside a block
  that the memory manager has handed out for it and that is apart from every block handed out before.
\<close>

theorem first_switch:
  assumes "sched_ok (sch k)" and "heap (Suc n) (kmem k) bs" and "unat sz \<le> 4294967264"
    and "create pl k fp sz = Inr (r, k')" and "r \<noteq> - 1" and "p = unat r mod MAX_PROC"
    and "switch_out k' p = (rs, k'')"
  shows "r_eip rs = fp \<and> r_cs rs = getCS pl \<and> r_eflags rs = STARTING_EFLAGS \<and>
    r_eax rs = ret (proc k p) \<and> load32 (ram k'') (r_esp rs) = addr_sysstop pl \<and>
    (\<exists>blk. heap n (kmem k') (blk # bs) \<and> (\<forall>b \<in> set bs. apart (blk_room (kmem k')) blk b) \<and>
       unat blk \<le> unat (r_esp rs) \<and> unat (r_esp rs) + 4 \<le> unat blk + blk_room (kmem k') blk)"
proof -
  from create_result [OF assms(1-3), of pl fp] assms(4,5) obtain q blk where
    c: "created pl k fp q r k'" and b: "heap n (kmem k') (blk # bs)" "unat blk \<le> unat (esp (proc k' q))"
      "unat (esp (proc k' q)) + 48 \<le> unat blk + blk_room (kmem k') blk" by auto
  have q: "q = p" using c assms(6) by (simp add: created_def)
  have "unat (esp (proc k' p)) + 48 \<le> 4294967296" using heap_top [OF b(1), of blk] b(3) q by simp
  then have "unat (esp (proc k' p) + 44) = unat (esp (proc k' p)) + 44" by (simp add: unat_word_ariths)
  moreover have "ret (proc k' p) = ret (proc k p)"
    using assms(4)
  proof (cases rule: create_table)
    case failed
    with assms(5) show ?thesis by simp
  next
    case made
    with assms(6) show ?thesis by (simp add: ready_proctab)
  qed
  moreover have "r_esp rs = esp (proc k' p) + 44"
    using assms(7) by (auto simp: switch_out_def Let_def popa_iret_def)
  moreover have "r_eip rs = fp \<and> r_cs rs = getCS pl \<and> r_eflags rs = STARTING_EFLAGS \<and>
      r_eax rs = ret (proc k' p) \<and> load32 (ram k'') (r_esp rs) = addr_sysstop pl"
    using assms(7) c unfolding q
    by (auto simp: created_def switch_out_def Let_def popa_iret_def load32_store32_other word_le_nat_alt unat_neg)
  moreover have "\<forall>x \<in> set bs. apart (blk_room (kmem k')) blk x" using heap_apart [OF b(1)] by simp
  ultimately show ?thesis using b unfolding q by auto
qed

theorem first_switch_witness:
  "\<exists>r k' rs k''. create pc_platform fresh 0x5000 1000 = Inr (r, k') \<and> switch_out k' (unat r mod MAX_PROC) = (rs, k'') \<and>
     r_eip rs = 0x5000 \<and> r_cs rs = 8 \<and> load32 (ram k'') (r_esp rs) = 0x1000"
proof -
  have h: "heap (Suc 0) (kmem fresh) []" by (rule fresh_ok(2)) simp
  have sz: "unat (1000 :: u32) \<le> 4294967264" by simp
  obtain ms where "kmalloc (kmem fresh) PROC_STACK = Inr (0x20020, ms)" using fresh_kmalloc by auto
  moreover have "create_probe (Suc 63) (sch fresh) (nextpid fresh) = (Some 1, 1)"
    by (subst create_probe.simps(2)) (simp add: fresh_def image_def zero_pcb_def)
  ultimately have "\<exists>k'. create pc_platform fresh 0x5000 1000 = Inr (1, k')" by (simp add: create_def Let_def ready_proctab)
  then obtain k' where c: "create pc_platform fresh 0x5000 1000 = Inr (1, k')" by blast
  obtain rs k'' where s: "switch_out k' (unat (1 :: u32) mod MAX_PROC) = (rs, k'')" by fastforce
  from first_switch [OF fresh_ok(1) h sz c _ refl s] c s show ?thesis by (auto simp: pc_platform_def)
qed

end
