(* ===== verification/Ctsw_Asm.thy ===== *)
theory Ctsw_Asm
  imports Context
begin

unbundle bit_operations_syntax

text \<open>
  The assembly code of \<open>contextswitch\<close>, instruction by instruction, with the kernel's own stack and the
  four static variables of \<open>c/ctsw.c\<close>, and the entries \<open>contextinit\<close> makes in the interrupt table. The
  code is executed up to the \<open>iret\<close> into the process and again from one of the entry points to the
  end of the block. It is shown to implement \<open>switch_out\<close> and \<open>switch_in\<close> of \<open>Context\<close>, which speak of
  the process's stack only.
\<close>

section \<open>Instructions\<close>

datatype reg = EAX | EBX | ECX | EDX | ESP

datatype gvar = SaveESP | Rc | TrapNo | Args

datatype label = TimerEntryPoint | KeyboardEntryPoint | KernelEntryPoint | CommonJumpPoint

datatype instr =
    PUSHF
  | PUSHA
  | POPA
  | POPF
  | CLI
  | IRET
  | MOV_var_reg gvar reg
  | MOV_reg_var reg gvar
  | MOV_reg_reg reg reg
  | MOV_imm_reg u32 reg
  | MOV_reg_stk reg u32
  | JMP label
  | LABEL label

text \<open>The processor, the static variables of the file and memory.\<close>

record cpu =
  cregs :: regs
  gvars :: "gvar \<Rightarrow> u32"
  cram :: ram

fun rget :: "reg \<Rightarrow> regs \<Rightarrow> u32" where
  "rget EAX r = r_eax r" | "rget EBX r = r_ebx r" | "rget ECX r = r_ecx r" | "rget EDX r = r_edx r"
| "rget ESP r = r_esp r"

fun rset :: "reg \<Rightarrow> u32 \<Rightarrow> regs \<Rightarrow> regs" where
  "rset EAX v r = r\<lparr>r_eax := v\<rparr>" | "rset EBX v r = r\<lparr>r_ebx := v\<rparr>" | "rset ECX v r = r\<lparr>r_ecx := v\<rparr>"
| "rset EDX v r = r\<lparr>r_edx := v\<rparr>" | "rset ESP v r = r\<lparr>r_esp := v\<rparr>"

definition push :: "u32 \<Rightarrow> cpu \<Rightarrow> cpu" where
  "push v s =
    (let sp = r_esp (cregs s) - 4
     in s\<lparr>cregs := (cregs s)\<lparr>r_esp := sp\<rparr>, cram := store32 (cram s) sp v\<rparr>)"

text \<open>Word \<open>i\<close> from the top of the stack.\<close>

definition stk :: "cpu \<Rightarrow> u32 \<Rightarrow> u32" where
  "stk s i = load32 (cram s) (r_esp (cregs s) + i)"

fun exec1 :: "instr \<Rightarrow> cpu \<Rightarrow> cpu" where
  "exec1 PUSHF s = push (r_eflags (cregs s)) s"
| "exec1 PUSHA s =
    (let r = cregs s
     in push (r_edi r) (push (r_esi r) (push (r_ebp r) (push (r_esp r) (push (r_ebx r)
          (push (r_edx r) (push (r_ecx r) (push (r_eax r) s))))))))"
| "exec1 POPA s = s\<lparr>cregs := (cregs s)\<lparr>r_edi := stk s 0, r_esi := stk s 4, r_ebp := stk s 8, r_ebx := stk s 16,
     r_edx := stk s 20, r_ecx := stk s 24, r_eax := stk s 28, r_esp := r_esp (cregs s) + 32\<rparr>\<rparr>"
| "exec1 POPF s = s\<lparr>cregs := (cregs s)\<lparr>r_eflags := stk s 0, r_esp := r_esp (cregs s) + 4\<rparr>\<rparr>"
| "exec1 CLI s = s\<lparr>cregs := (cregs s)\<lparr>r_eflags := r_eflags (cregs s) AND NOT 0x200\<rparr>\<rparr>"
| "exec1 IRET s = s\<lparr>cregs := (cregs s)\<lparr>r_eip := stk s 0, r_cs := stk s 4, r_eflags := stk s 8,
     r_esp := r_esp (cregs s) + 12\<rparr>\<rparr>"
| "exec1 (MOV_var_reg g r) s = s\<lparr>cregs := rset r (gvars s g) (cregs s)\<rparr>"
| "exec1 (MOV_reg_var r g) s = s\<lparr>gvars := (gvars s)(g := rget r (cregs s))\<rparr>"
| "exec1 (MOV_reg_reg r q) s = s\<lparr>cregs := rset q (rget r (cregs s)) (cregs s)\<rparr>"
| "exec1 (MOV_imm_reg v r) s = s\<lparr>cregs := rset r v (cregs s)\<rparr>"
| "exec1 (MOV_reg_stk r i) s = s\<lparr>cram := store32 (cram s) (r_esp (cregs s) + i) (rget r (cregs s))\<rparr>"
| "exec1 (JMP l) s = s"
| "exec1 (LABEL l) s = s"

section \<open>The code of \<open>contextswitch\<close>\<close>

definition ctsw_code :: "instr list" where
  "ctsw_code =
    [PUSHF, PUSHA, MOV_var_reg Rc EAX, MOV_var_reg SaveESP EDX, MOV_reg_var ESP SaveESP, MOV_reg_reg EDX ESP,
     MOV_reg_stk EAX 28, POPA, IRET,
     LABEL TimerEntryPoint, CLI, PUSHA, MOV_imm_reg 1 ECX, JMP CommonJumpPoint,
     LABEL KeyboardEntryPoint, CLI, PUSHA, MOV_imm_reg 2 ECX, JMP CommonJumpPoint,
     LABEL KernelEntryPoint, CLI, PUSHA, MOV_imm_reg 0 ECX,
     LABEL CommonJumpPoint, MOV_reg_reg EAX EBX, MOV_var_reg SaveESP EAX, MOV_reg_var ESP SaveESP, MOV_reg_reg EAX ESP,
     MOV_reg_stk EBX 28, MOV_reg_stk ECX 24, MOV_reg_stk EDX 20, POPA, POPF, MOV_reg_var EAX Rc, MOV_reg_var ECX TrapNo,
     MOV_reg_var EDX Args]"

text \<open>The code from a label on.\<close>

definition code_at :: "label \<Rightarrow> instr list" where
  "code_at l = dropWhile (\<lambda>i. i \<noteq> LABEL l) ctsw_code"

text \<open>
  Execution with a bound on the number of instructions: the state after the \<open>iret\<close> (\<open>True\<close>) or at the
  end of the block (\<open>False\<close>).
\<close>

fun exec :: "nat \<Rightarrow> instr list \<Rightarrow> cpu \<Rightarrow> (bool \<times> cpu) option" where
  "exec 0 is s = None"
| "exec (Suc n) [] s = Some (False, s)"
| "exec (Suc n) (i # is) s =
    (case i of
       IRET \<Rightarrow> Some (True, exec1 IRET s)
     | JMP l \<Rightarrow> exec n (code_at l) s
     | _ \<Rightarrow> exec n is (exec1 i s))"

text \<open>What the processor does on an interrupt, before the handler's first instruction.\<close>

definition interrupt :: "cpu \<Rightarrow> cpu" where
  "interrupt s = push (r_eip (cregs s)) (push (r_cs (cregs s)) (push (r_eflags (cregs s)) s))"

text \<open>The C code before and after the assembly block.\<close>

definition ctsw_enter :: "kernel \<Rightarrow> nat \<Rightarrow> cpu \<Rightarrow> cpu" where
  "ctsw_enter k p s = s\<lparr>gvars := (gvars s)(SaveESP := esp (proc k p), Rc := ret (proc k p))\<rparr>"

definition ctsw_leave :: "kernel \<Rightarrow> nat \<Rightarrow> cpu \<Rightarrow> u32 \<times> kernel" where
  "ctsw_leave k p s =
    (let k1 = upd (k\<lparr>ram := cram s\<rparr>) p (\<lambda>c. c\<lparr>esp := gvars s SaveESP\<rparr>) in
     if gvars s TrapNo = 1 then (SYS_TIMER, upd k1 p (\<lambda>c. c\<lparr>ret := gvars s Rc\<rparr>))
     else if gvars s TrapNo = 2 then (SYS_KEYBOARD, upd k1 p (\<lambda>c. c\<lparr>ret := gvars s Rc\<rparr>))
     else (gvars s Rc, upd k1 p (\<lambda>c. c\<lparr>args := gvars s Args\<rparr>)))"

text \<open>The trap number an entry point puts in \<open>ecx\<close>.\<close>

definition trap_of :: "label \<Rightarrow> u32" where
  "trap_of l = (if l = TimerEntryPoint then 1 else if l = KeyboardEntryPoint then 2 else 0)"

text \<open>
  The whole routine. The process is a function from the registers and the memory it starts with to
  the entry point through which it comes back and its registers and memory then. The result is
  the value and the kernel state the routine returns, and the processor.
\<close>

type_synonym user_entry = "regs \<Rightarrow> ram \<Rightarrow> label \<times> regs \<times> ram"

definition contextswitch_asm :: "kernel \<Rightarrow> nat \<Rightarrow> user_entry \<Rightarrow> cpu \<Rightarrow> ((u32 \<times> kernel) \<times> cpu) option" where
  "contextswitch_asm k p u s =
    (case exec 40 ctsw_code (ctsw_enter k p s) of
       Some (True, s1) \<Rightarrow>
         (let (l, r, m) = u (cregs s1) (cram s1)
          in case exec 40 (code_at l) (interrupt (s1\<lparr>cregs := r, cram := m\<rparr>)) of
               Some (False, s2) \<Rightarrow> Some (ctsw_leave k p s2, s2)
             | _ \<Rightarrow> None)
     | _ \<Rightarrow> None)"

section \<open>\<open>contextinit\<close>\<close>

definition KERNEL_INT :: u32 where [simp]: "KERNEL_INT = 80"
definition KEYBOARD_INT :: u32 where [simp]: "KEYBOARD_INT = 33"
definition TIMER_INT :: "u32 \<Rightarrow> u32" where [simp]: "TIMER_INT timer_irq = timer_irq + 32"

text \<open>
  The routines \<open>set_evec\<close> and \<open>initPIT\<close> of the start-up code are parameters, over some type of states of
  the interrupt hardware; \<open>timer_irq\<close> is the constant of \<open>i386.h\<close>.
\<close>

definition contextinit :: "(u32 \<Rightarrow> label \<Rightarrow> 'h \<Rightarrow> 'h) \<Rightarrow> (u32 \<Rightarrow> 'h \<Rightarrow> 'h) \<Rightarrow> u32 \<Rightarrow> 'h \<Rightarrow> 'h" where
  "contextinit set_evec initPIT timer_irq h =
    initPIT 100 (set_evec KEYBOARD_INT KeyboardEntryPoint (set_evec (TIMER_INT timer_irq) TimerEntryPoint
      (set_evec KERNEL_INT KernelEntryPoint h)))"

section \<open>Symbolic execution\<close>

lemma exec_numeral [simp]:
  "exec (numeral n) [] s = Some (False, s)"
  "exec (numeral n) (i # is) s =
    (case i of
       IRET \<Rightarrow> Some (True, exec1 IRET s)
     | JMP l \<Rightarrow> exec (pred_numeral n) (code_at l) s
     | _ \<Rightarrow> exec (pred_numeral n) is (exec1 i s))"
  by (simp_all add: numeral_eq_Suc)

lemma code_at_eq:
  "code_at TimerEntryPoint = [LABEL TimerEntryPoint, CLI, PUSHA, MOV_imm_reg 1 ECX, JMP CommonJumpPoint,
     LABEL KeyboardEntryPoint, CLI, PUSHA, MOV_imm_reg 2 ECX, JMP CommonJumpPoint,
     LABEL KernelEntryPoint, CLI, PUSHA, MOV_imm_reg 0 ECX] @ code_at CommonJumpPoint"
  "code_at KeyboardEntryPoint = [LABEL KeyboardEntryPoint, CLI, PUSHA, MOV_imm_reg 2 ECX, JMP CommonJumpPoint,
     LABEL KernelEntryPoint, CLI, PUSHA, MOV_imm_reg 0 ECX] @ code_at CommonJumpPoint"
  "code_at KernelEntryPoint = [LABEL KernelEntryPoint, CLI, PUSHA, MOV_imm_reg 0 ECX] @ code_at CommonJumpPoint"
  by (simp_all add: code_at_def ctsw_code_def)

lemma code_at_common:
  "code_at CommonJumpPoint = [LABEL CommonJumpPoint, MOV_reg_reg EAX EBX, MOV_var_reg SaveESP EAX, MOV_reg_var ESP SaveESP,
     MOV_reg_reg EAX ESP, MOV_reg_stk EBX 28, MOV_reg_stk ECX 24, MOV_reg_stk EDX 20, POPA, POPF, MOV_reg_var EAX Rc,
     MOV_reg_var ECX TrapNo, MOV_reg_var EDX Args]"
  by (simp add: code_at_def ctsw_code_def)

section \<open>Areas of memory\<close>

definition area :: "u32 \<Rightarrow> nat \<Rightarrow> u32 set" where
  "area b n = {a. unat (a - b) < n}"

text \<open>Two memories that differ at most inside \<open>K\<close>.\<close>

definition agree :: "u32 set \<Rightarrow> ram \<Rightarrow> ram \<Rightarrow> bool" where
  "agree K m m' \<longleftrightarrow> (\<forall>a. a \<notin> K \<longrightarrow> m a = m' a)"

lemma agree_refl [simp]: "agree K m m" by (simp add: agree_def)

lemma agree_sym: "agree K m m' \<Longrightarrow> agree K m' m" by (simp add: agree_def)

lemma agree_trans: "agree K m m' \<Longrightarrow> agree K m' m'' \<Longrightarrow> agree K m m''" by (simp add: agree_def)

lemma agree_store_both: "agree K m m' \<Longrightarrow> agree K (store32 m a v) (store32 m' a v)"
  by (simp add: agree_def store32_def)

lemma word_area: "area a 4 = {a, a + 1, a + 2, a + 3}"
proof (rule set_eqI)
  fix x :: u32
  have "unat (x - a) < 4 \<longleftrightarrow> x - a = 0 \<or> x - a = 1 \<or> x - a = 2 \<or> x - a = 3"
  proof
    assume "unat (x - a) < 4"
    then have "unat (x - a) = 0 \<or> unat (x - a) = 1 \<or> unat (x - a) = 2 \<or> unat (x - a) = 3" by linarith
    then show "x - a = 0 \<or> x - a = 1 \<or> x - a = 2 \<or> x - a = 3" by (simp add: word_unat_eq_iff)
  qed auto
  also have "\<dots> \<longleftrightarrow> x \<in> {a, a + 1, a + 2, a + 3}" by (auto simp: algebra_simps)
  finally show "x \<in> area a 4 \<longleftrightarrow> x \<in> {a, a + 1, a + 2, a + 3}" by (simp add: area_def)
qed

lemma agree_store_in: "area a 4 \<subseteq> K \<Longrightarrow> agree K (store32 m a v) m"
  by (auto simp: agree_def store32_def word_area)

lemma agree_load: "agree K m m' \<Longrightarrow> area a 4 \<inter> K = {} \<Longrightarrow> load32 m a = load32 m' a"
  by (auto simp: agree_def load32_def word_area)

lemma load_same: "\<forall>x \<in> area a 4. m x = m' x \<Longrightarrow> load32 m a = load32 m' a"
  by (auto simp: load32_def word_area)

lemma area_sub:
  assumes "i + k \<le> n" and "n < 4294967296"
  shows "area (b + of_nat i) k \<subseteq> area b n"
proof
  fix x assume "x \<in> area (b + of_nat i) k"
  then have x: "unat (x - b - of_nat i) < k" by (simp add: area_def diff_diff_eq)
  have i: "unat (of_nat i :: u32) = i" using assms by simp
  define y where "y = x - b - of_nat i"
  have "unat (y + of_nat i) = unat y + i"
    using x i assms by (simp add: unat_word_ariths(1) y_def [symmetric])
  then have "unat (x - b) = unat y + i" by (simp add: y_def)
  with x assms(1) show "x \<in> area b n" by (simp add: area_def y_def)
qed

lemma area_word: "i + 4 \<le> n \<Longrightarrow> n < 4294967296 \<Longrightarrow> area (b + of_nat i) 4 \<subseteq> area b n"
  by (rule area_sub)

section \<open>Leaving the kernel\<close>

text \<open>The kernel's stack after \<open>pushf\<close> and \<open>pusha\<close>.\<close>

definition ksave :: "ram \<Rightarrow> regs \<Rightarrow> ram" where
  "ksave m r = cram (exec1 PUSHA (exec1 PUSHF \<lparr>cregs = r, gvars = (\<lambda>_. 0), cram = m\<rparr>))"

lemma ksave_words:
  "load32 (ksave m r) (r_esp r - 36) = r_edi r" "load32 (ksave m r) (r_esp r - 32) = r_esi r"
  "load32 (ksave m r) (r_esp r - 28) = r_ebp r" "load32 (ksave m r) (r_esp r - 20) = r_ebx r"
  "load32 (ksave m r) (r_esp r - 4) = r_eflags r"
  by (simp_all add: ksave_def push_def Let_def load32_store32_other word_le_nat_alt unat_neg)

lemma area_below: "i \<le> n \<Longrightarrow> 4 \<le> i \<Longrightarrow> n < 4294967296 \<Longrightarrow> area (b - of_nat i) 4 \<subseteq> area (b - of_nat n) n"
  using area_sub [of "n - i" 4 n "b - of_nat n"] by (simp add: of_nat_diff)

lemma ksave_agree: "agree (area (r_esp r - 36) 36) (ksave m r) m"
proof -
  let ?K = "area (r_esp r - 36) 36"
  have sub: "area (r_esp r - of_nat i) 4 \<subseteq> ?K" if "4 \<le> i" "i \<le> 36" for i
    using area_below [of i 36 "r_esp r"] that by simp
  show ?thesis
    unfolding ksave_def
    using sub [of 4] sub [of 8] sub [of 12] sub [of 16] sub [of 20] sub [of 24] sub [of 28] sub [of 32] sub [of 36]
    by (simp add: push_def Let_def) (intro agree_trans [OF agree_store_in] agree_refl; simp)
qed

text \<open>A frame that lies outside an area is restored the same from memories that agree outside it.\<close>

lemma popa_agree:
  assumes "agree K m m'" and "area sp 44 \<inter> K = {}"
  shows "popa_iret m sp = popa_iret m' sp"
proof (rule popa_same_frame [symmetric], unfold same_frame_def, intro ballI)
  fix i :: u32 assume "i \<in> {0, 4, 8, 16, 20, 24, 28, 32, 36, 40}"
  then have i: "unat i + 4 \<le> 44" by auto
  have "area (sp + i) 4 \<subseteq> area sp 44" using area_word [OF i, of sp] by simp
  then have "area (sp + i) 4 \<inter> K = {}" using assms(2) by blast
  then show "load32 m' (sp + i) = load32 m (sp + i)" by (rule agree_load [OF assms(1), symmetric])
qed

lemma leave_exec:
  "exec 40 ctsw_code (ctsw_enter k p s) =
    Some (True, s\<lparr>cregs := popa_iret (store32 (ksave (cram s) (cregs s)) (esp (proc k p) + 28) (ret (proc k p))) (esp (proc k p)),
      gvars := (gvars s)(Rc := ret (proc k p), SaveESP := r_esp (cregs s) - 36),
      cram := store32 (ksave (cram s) (cregs s)) (esp (proc k p) + 28) (ret (proc k p))\<rparr>)"
proof (cases s)
  case (fields r g m)
  then show ?thesis
    by (cases r) (simp add: ctsw_code_def ctsw_enter_def ksave_def push_def stk_def Let_def popa_iret_def add.commute)
qed

lemma leave_refines:
  assumes "agree (area (r_esp (cregs s) - 36) 36) (ram k) (cram s)"
    and "area (esp (proc k p)) 44 \<inter> area (r_esp (cregs s) - 36) 36 = {}"
  shows "\<exists>s1. exec 40 ctsw_code (ctsw_enter k p s) = Some (True, s1) \<and> cregs s1 = fst (switch_out k p) \<and>
    agree (area (r_esp (cregs s) - 36) 36) (ram (snd (switch_out k p))) (cram s1) \<and>
    gvars s1 SaveESP = r_esp (cregs s) - 36 \<and> (\<forall>a \<in> area (r_esp (cregs s) - 36) 36. cram s1 a = ksave (cram s) (cregs s) a)"
proof -
  let ?K = "area (r_esp (cregs s) - 36) 36" and ?e = "esp (proc k p)" and ?v = "ret (proc k p)"
  let ?m = "store32 (ksave (cram s) (cregs s)) (?e + 28) ?v"
  have "agree ?K (ram k) (ksave (cram s) (cregs s))" using assms(1) ksave_agree agree_sym agree_trans by blast
  then have ag: "agree ?K (store32 (ram k) (?e + 28) ?v) ?m" by (rule agree_store_both)
  have "area (?e + of_nat 28) 4 \<subseteq> area ?e 44" by (rule area_word) simp_all
  then have "area (?e + 28) 4 \<inter> ?K = {}" using assms(2) by auto
  then have "\<forall>a \<in> ?K. ?m a = ksave (cram s) (cregs s) a" by (auto simp: store32_def word_area)
  with leave_exec [of k p s] ag popa_agree [OF ag assms(2)] show ?thesis by (simp add: switch_out_def Let_def)
qed

section \<open>Entering the kernel\<close>

lemma trap_agree: "agree (area (r_esp r - 44) 44) (fst (trap_pusha m r)) m"
proof -
  let ?K = "area (r_esp r - 44) 44"
  have sub: "area (r_esp r - of_nat i) 4 \<subseteq> ?K" if "4 \<le> i" "i \<le> 44" for i
    using area_below [of i 44 "r_esp r"] that by simp
  show ?thesis
    using sub [of 4] sub [of 8] sub [of 12] sub [of 16] sub [of 20] sub [of 24] sub [of 28] sub [of 32] sub [of 36]
      sub [of 40] sub [of 44]
    by (simp add: trap_pusha_def Let_def) (intro agree_trans [OF agree_store_in] agree_refl; simp)
qed

text \<open>The three words of the kernel's stack through which the request leaves the block.\<close>

definition kpatch :: "ram \<Rightarrow> u32 \<Rightarrow> u32 \<Rightarrow> u32 \<Rightarrow> u32 \<Rightarrow> ram" where
  "kpatch m b req t ap = store32 (store32 (store32 m (b + 28) req) (b + 24) t) (b + 20) ap"

lemma kpatch_agree: "agree (area b 36) (kpatch m b req t ap) m"
  unfolding kpatch_def
  using area_word [of 28 36 b] area_word [of 24 36 b] area_word [of 20 36 b]
  by (intro agree_trans [OF agree_store_in] agree_refl; simp)

lemma kpatch_words:
  "load32 (kpatch m b req t ap) (b + 28) = req" "load32 (kpatch m b req t ap) (b + 24) = t"
  "load32 (kpatch m b req t ap) (b + 20) = ap" "load32 (kpatch m b req t ap) b = load32 m b"
  "load32 (kpatch m b req t ap) (b + 4) = load32 m (b + 4)" "load32 (kpatch m b req t ap) (b + 8) = load32 m (b + 8)"
  "load32 (kpatch m b req t ap) (b + 16) = load32 m (b + 16)" "load32 (kpatch m b req t ap) (b + 32) = load32 m (b + 32)"
  by (simp_all add: kpatch_def load32_store32_other word_le_nat_alt unat_neg)

lemma enter_exec:
  assumes "l \<noteq> CommonJumpPoint" and "cregs s = r" and "gvars s SaveESP = b"
  shows "\<exists>s2. exec 40 (code_at l) (interrupt s) = Some (False, s2) \<and>
    cram s2 = kpatch (fst (trap_pusha (cram s) r)) b (r_eax r) (trap_of l) (r_edx r) \<and>
    gvars s2 SaveESP = r_esp r - 44 \<and> gvars s2 Rc = load32 (cram s2) (b + 28) \<and>
    gvars s2 TrapNo = load32 (cram s2) (b + 24) \<and> gvars s2 Args = load32 (cram s2) (b + 20) \<and>
    r_esp (cregs s2) = b + 36 \<and> r_edi (cregs s2) = load32 (cram s2) b \<and> r_esi (cregs s2) = load32 (cram s2) (b + 4) \<and>
    r_ebp (cregs s2) = load32 (cram s2) (b + 8) \<and> r_ebx (cregs s2) = load32 (cram s2) (b + 16) \<and>
    r_eflags (cregs s2) = load32 (cram s2) (b + 32)"
  using assms
  by (cases l) (simp_all add: code_at_eq code_at_common interrupt_def push_def stk_def Let_def trap_pusha_def kpatch_def
      trap_of_def add.commute)

lemma trap_agree_both: "agree K m m' \<Longrightarrow> agree K (fst (trap_pusha m r)) (fst (trap_pusha m' r))"
  by (simp add: trap_pusha_def Let_def agree_store_both)

text \<open>The two results of a context switch, up to the bytes of the kernel's stack.\<close>

definition same_result :: "u32 set \<Rightarrow> u32 \<times> kernel \<Rightarrow> u32 \<times> kernel \<Rightarrow> bool" where
  "same_result K x y \<longleftrightarrow> fst x = fst y \<and> snd x = (snd y)\<lparr>ram := ram (snd x)\<rparr> \<and> agree K (ram (snd x)) (ram (snd y))"

text \<open>The registers the compiler expects unchanged across the block.\<close>

definition same_saved :: "regs \<Rightarrow> regs \<Rightarrow> bool" where
  "same_saved r r' \<longleftrightarrow> r_ebx r' = r_ebx r \<and> r_esi r' = r_esi r \<and> r_edi r' = r_edi r \<and> r_ebp r' = r_ebp r \<and>
     r_esp r' = r_esp r \<and> r_eflags r' = r_eflags r"

lemma leave_result:
  assumes "cram s2 = m2" and "agree K m m2" and "gvars s2 SaveESP = snd (trap_pusha (ram k) r)"
    and "m = fst (trap_pusha (ram k) r)"
    and "gvars s2 Rc = r_eax r" and "gvars s2 TrapNo = t" and "gvars s2 Args = r_edx r"
  shows "same_result K (switch_in k p t r) (ctsw_leave k p s2)"
  using assms
  by (auto simp: same_result_def switch_in_def ctsw_leave_def upd_def Let_def split_beta)

lemma enter_refines:
  assumes l: "l \<noteq> CommonJumpPoint" and b: "gvars s SaveESP = b" and ag: "agree (area b 36) (ram k) (cram s)"
    and off: "area (r_esp (cregs s) - 44) 44 \<inter> area b 36 = {}"
    and saved: "\<forall>a \<in> area b 36. cram s a = ksave mk rk a" and rk: "b = r_esp rk - 36"
  shows "\<exists>s2. exec 40 (code_at l) (interrupt s) = Some (False, s2) \<and>
    same_result (area b 36) (switch_in k p (trap_of l) (cregs s)) (ctsw_leave k p s2) \<and> same_saved rk (cregs s2)"
proof -
  let ?K = "area b 36" and ?r = "cregs s" and ?m = "fst (trap_pusha (cram s) (cregs s))"
  from enter_exec [OF l refl b] obtain s2 where
    s2: "exec 40 (code_at l) (interrupt s) = Some (False, s2)"
      "cram s2 = kpatch ?m b (r_eax ?r) (trap_of l) (r_edx ?r)" "gvars s2 SaveESP = r_esp ?r - 44"
      "gvars s2 Rc = load32 (cram s2) (b + 28)" "gvars s2 TrapNo = load32 (cram s2) (b + 24)"
      "gvars s2 Args = load32 (cram s2) (b + 20)" and
    rs: "r_esp (cregs s2) = b + 36" "r_edi (cregs s2) = load32 (cram s2) b"
      "r_esi (cregs s2) = load32 (cram s2) (b + 4)" "r_ebp (cregs s2) = load32 (cram s2) (b + 8)"
      "r_ebx (cregs s2) = load32 (cram s2) (b + 16)" "r_eflags (cregs s2) = load32 (cram s2) (b + 32)"
    by blast
  have "agree ?K (fst (trap_pusha (ram k) ?r)) (cram s2)"
    unfolding s2(2) by (rule agree_trans [OF trap_agree_both [OF ag] agree_sym [OF kpatch_agree]])
  then have res: "same_result ?K (switch_in k p (trap_of l) ?r) (ctsw_leave k p s2)"
    by (rule leave_result [OF refl]) (simp_all add: s2 kpatch_words, simp add: trap_pusha_def Let_def)
  have "\<forall>a \<in> ?K. ?m a = ksave mk rk a"
    using trap_agree [of ?r "cram s"] off saved by (auto simp: agree_def)
  then have w: "load32 ?m (b + i) = load32 (ksave mk rk) (b + i)" if "unat i + 4 \<le> 36" for i
    using area_word [OF that, of b] by (intro load_same) auto
  have "same_saved rk (cregs s2)"
    using w [of 0] w [of 4] w [of 8] w [of 16] w [of 32] ksave_words [of mk rk]
    by (simp add: same_saved_def rs s2(2) kpatch_words) (simp add: rk)
  with s2(1) res show ?thesis by blast
qed

section \<open>Properties\<close>

text \<open>
  A process that keeps off the area \<open>K\<close>: what it does depends on no byte of it and changes none, and it
  comes back through an entry point of the interrupt table with a stack pointer whose next \<open>44\<close> bytes lie outside.
\<close>

definition keeps_off :: "u32 set \<Rightarrow> user_entry \<Rightarrow> bool" where
  "keeps_off K u \<longleftrightarrow> (\<forall>r m m'. agree K m m' \<longrightarrow>
     (case (u r m, u r m') of ((l, r1, m1), (l', r1', m1')) \<Rightarrow>
        l' = l \<and> r1' = r1 \<and> agree K m1 m1' \<and> (\<forall>a \<in> K. m1' a = m' a) \<and> l \<noteq> CommonJumpPoint \<and>
        area (r_esp r1 - 44) 44 \<inter> K = {}))"

text \<open>
  C21. The assembly code of the context switch implements its description. Let \<open>K\<close> be the \<open>36\<close> bytes below
  the kernel's stack pointer, where \<open>pushf\<close> and \<open>pusha\<close> save the kernel's registers, and let the frame of
  the process and what it touches lie outside. Then the code runs through: the process starts with
  the registers \<open>switch_out\<close> gives, and when it comes back by a trap or an interrupt the routine returns the
  request, and leaves the process table and memory, as \<open>switch_in\<close> says, up to the bytes of \<open>K\<close>; and the kernel
  has its flags, its stack pointer and \<open>ebx\<close>, \<open>esi\<close>, \<open>edi\<close> and \<open>ebp\<close> back.
\<close>

theorem ctsw_refines:
  assumes K: "K = area (r_esp (cregs s) - 36) 36" and ag: "agree K (ram k) (cram s)"
    and frame: "area (esp (proc k p)) 44 \<inter> K = {}" and u: "keeps_off K u"
  shows "\<exists>res s2. contextswitch_asm k p u s = Some (res, s2) \<and>
    same_result K (contextswitch k p (\<lambda>r m. case u r m of (l, r1, m1) \<Rightarrow> (trap_of l, r1, m1))) res \<and>
    same_saved (cregs s) (cregs s2)"
proof -
  let ?b = "r_esp (cregs s) - 36"
  from leave_refines [OF ag [unfolded K] frame [unfolded K]] obtain s1 where
    s1: "exec 40 ctsw_code (ctsw_enter k p s) = Some (True, s1)" "cregs s1 = fst (switch_out k p)"
      "agree K (ram (snd (switch_out k p))) (cram s1)" "gvars s1 SaveESP = ?b"
      "\<forall>a \<in> K. cram s1 a = ksave (cram s) (cregs s) a"
    by (auto simp: K)
  obtain l r a2 where ua: "u (cregs s1) (ram (snd (switch_out k p))) = (l, r, a2)" by (cases "u (cregs s1) (ram (snd (switch_out k p)))")
  obtain l' r' m2 where uc: "u (cregs s1) (cram s1) = (l', r', m2)" by (cases "u (cregs s1) (cram s1)")
  have keep: "l' = l" "r' = r" "agree K a2 m2" "\<forall>a \<in> K. m2 a = cram s1 a" "l \<noteq> CommonJumpPoint"
      "area (r_esp r - 44) 44 \<inter> K = {}"
    using u [unfolded keeps_off_def, rule_format, OF s1(3), of "cregs s1"] by (simp_all add: ua uc)
  let ?s = "s1\<lparr>cregs := r, cram := m2\<rparr>" and ?k = "(snd (switch_out k p))\<lparr>ram := a2\<rparr>"
  have "\<exists>s2. exec 40 (code_at l) (interrupt ?s) = Some (False, s2) \<and>
      same_result (area ?b 36) (switch_in ?k p (trap_of l) (cregs ?s)) (ctsw_leave ?k p s2) \<and>
      same_saved (cregs s) (cregs s2)"
    by (rule enter_refines [where mk = "cram s"]) (use keep s1 in \<open>auto simp: K\<close>)
  then obtain s2 where s2: "exec 40 (code_at l) (interrupt ?s) = Some (False, s2)"
    "same_result K (switch_in ?k p (trap_of l) r) (ctsw_leave ?k p s2)" "same_saved (cregs s) (cregs s2)"
    by (auto simp: K)
  have "ctsw_leave ?k p s2 = ctsw_leave k p s2" by (simp add: ctsw_leave_def switch_out_def upd_def Let_def)
  with s1 s2 uc ua keep(1,2) show ?thesis
    by (simp add: contextswitch_asm_def contextswitch_def split_beta Let_def)
qed

lemma area_range: "unat b + n \<le> 4294967296 \<Longrightarrow> x \<in> area b n \<longleftrightarrow> unat b \<le> unat x \<and> unat x < unat b + n"
  by (auto simp: area_def unat_sub_if_size word_size)

theorem ctsw_refines_witness:
  "\<exists>res s2. contextswitch_asm fresh 3 (\<lambda>r m. (TimerEntryPoint, r\<lparr>r_esp := 0x30000\<rparr>, m))
      \<lparr>cregs = (popa_iret (\<lambda>_. 7) 0)\<lparr>r_esp := 0x9000\<rparr>, gvars = (\<lambda>_. 0), cram = ram fresh\<rparr> = Some (res, s2) \<and>
    fst res = SYS_TIMER \<and> r_esp (cregs s2) = 0x9000 \<and> r_ebx (cregs s2) = 0x07070707"
proof -
  let ?u = "\<lambda>r m. (TimerEntryPoint, r\<lparr>r_esp := 0x30000\<rparr>, m) :: label \<times> regs \<times> ram"
  let ?s = "\<lparr>cregs = (popa_iret (\<lambda>_. 7) 0)\<lparr>r_esp := 0x9000\<rparr>, gvars = (\<lambda>_. 0), cram = ram fresh\<rparr> :: cpu"
  let ?K = "area 0x8FDC 36 :: u32 set"
  have u: "keeps_off ?K ?u" and frame: "area (esp (proc fresh 3)) 44 \<inter> ?K = {}"
    by (auto simp: keeps_off_def area_range fresh_def image_def zero_pcb_def)
  have K: "?K = area (r_esp (cregs ?s) - 36) 36" and ag: "agree ?K (ram fresh) (cram ?s)" by simp_all
  from ctsw_refines [OF K ag frame u] obtain res s2 where *: "contextswitch_asm fresh 3 ?u ?s = Some (res, s2)"
    "same_result ?K (contextswitch fresh 3 (\<lambda>r m. case ?u r m of (l, r1, m1) \<Rightarrow> (trap_of l, r1, m1))) res"
    "same_saved (cregs ?s) (cregs s2)"
    by blast
  have "fst res = SYS_TIMER"
    using *(2) by (simp add: same_result_def contextswitch_def trap_of_def switch_in_def split_beta Let_def)
  moreover have "load32 (\<lambda>_. 7) 16 = 0x07070707" by (simp add: load32_def)
  ultimately show ?thesis using *(1,3) by (auto simp: same_saved_def popa_iret_def)
qed

text \<open>
  C22. After \<open>contextinit\<close> the three vectors lead to the three kinds of request. If \<open>set_evec\<close> sets one entry of
  the interrupt table and \<open>initPIT\<close> none, as their documentation says, and the timer's vector is none of
  the other two, a process that executes \<open>int 80\<close> comes back with the request in \<open>eax\<close> and the
  arguments in \<open>edx\<close>, the timer's vector gives \<open>SYS_TIMER\<close> and the keyboard's \<open>SYS_KEYBOARD\<close>, both with \<open>eax\<close> kept as
  the return value.
\<close>

theorem vectors_give_requests:
  assumes set_evec_law: "\<And>x l h i. handler (set_evec x l h) i = (if i = x then Some l else handler h i)"
    and initPIT_law: "\<And>n h i. handler (initPIT n h) i = handler h i"
    and timer: "TIMER_INT timer_irq \<noteq> KERNEL_INT" "TIMER_INT timer_irq \<noteq> KEYBOARD_INT"
    and at: "handler (contextinit set_evec initPIT timer_irq h) v = Some l" "v \<in> {KERNEL_INT, TIMER_INT timer_irq, KEYBOARD_INT}"
    and sw: "switch_in k p (trap_of l) r = (rc, k')"
  shows "(v = KERNEL_INT \<longrightarrow> rc = r_eax r \<and> args (proc k' p) = r_edx r) \<and>
    (v = TIMER_INT timer_irq \<longrightarrow> rc = SYS_TIMER \<and> ret (proc k' p) = r_eax r) \<and>
    (v = KEYBOARD_INT \<longrightarrow> rc = SYS_KEYBOARD \<and> ret (proc k' p) = r_eax r)"
proof -
  have "trap_of l = (if v = KERNEL_INT then 0 else if v = TIMER_INT timer_irq then 1 else 2)"
    using at timer by (auto simp: contextinit_def set_evec_law initPIT_law trap_of_def split: if_splits)
  then show ?thesis using at(2) timer switch_in_fields(3-5) [OF sw] by auto
qed

theorem vectors_give_requests_witness:
  "fst (switch_in fresh 3 (trap_of (the (contextinit (\<lambda>x l h. h(x \<mapsto> l)) (\<lambda>n h. h) 0 Map.empty 32))) (popa_iret (\<lambda>_. 7) 0)) = SYS_TIMER"
proof -
  let ?se = "\<lambda>x l h. h(x \<mapsto> l) :: u32 \<rightharpoonup> label" and ?ip = "\<lambda>n h. h :: u32 \<rightharpoonup> label"
  have at: "contextinit ?se ?ip 0 Map.empty 32 = Some TimerEntryPoint" by (simp add: contextinit_def)
  obtain rc k' where sw: "switch_in fresh 3 (trap_of TimerEntryPoint) (popa_iret (\<lambda>_. 7) 0) = (rc, k')" by fastforce
  from vectors_give_requests [of "\<lambda>h. h" ?se ?ip 0 Map.empty 32 TimerEntryPoint, OF _ _ _ _ at _ sw]
  show ?thesis by (simp add: at sw)
qed

end
