(* ===== verification/Signals.thy ===== *)
theory Signals
  imports Context
begin

unbundle bit_operations_syntax

text \<open>
  Signals: \<open>signal\<close> of \<open>c/signal.c\<close>, \<open>kill\<close> of \<open>c/disp.c\<close> and the dispatcher's arms for installing a
  handler and for returning from one. Delivering a signal pushes the arguments of \<open>sigtramp\<close> and a
  fresh context frame below the process's saved frame; returning drops them again.
\<close>

section \<open>Operations\<close>

definition sizeof_signal_frame :: u32 where [simp]: "sizeof_signal_frame = 24"

definition signal :: "platform \<Rightarrow> kernel \<Rightarrow> nat \<Rightarrow> u32 \<Rightarrow> u32 \<times> kernel" where
  "signal pl k p signum =
    (if sigtab (proc k p) (unat signum) \<noteq> 0 then
       let msk = push_bit (unat signum) 1;
           k1 = upd k p (\<lambda>c. c\<lparr>sigmask := sigmask c OR msk\<rparr>)
       in if sint (currSigLvl (proc k1 p)) < sint signum then
            let sigframe = esp (proc k1 p) - sizeof_signal_frame;
                cf = esp (proc k1 p) - sizeof_signal_frame - sizeof_context_frame;
                m1 = store32 (ram k1) (cf + 12) cf;
                m2 = store32 m1 (cf + 32) (addr_sigtramp pl);
                m3 = store32 m2 (cf + 36) (getCS pl);
                m4 = store32 m3 (cf + 40) 0x3200;
                m5 = store32 m4 (sigframe + 4) (sigtab (proc k1 p) (unat signum));
                m6 = store32 m5 (sigframe + 8) cf;
                m7 = store32 m6 (sigframe + 12) (esp (proc k1 p));
                m8 = store32 m7 (sigframe + 16) (ret (proc k1 p));
                m9 = store32 m8 (sigframe + 20) (currSigLvl (proc k1 p))
            in (0, upd (k1\<lparr>ram := m9\<rparr>) p (\<lambda>c. c\<lparr>currSigLvl := signum, esp := cf\<rparr>))
          else (0, k1)
     else (0, k))"

text \<open>
  \<open>kill\<close>: the loop that wakes the processes waiting for the target when the signal is 31, one table
  entry at a time.
\<close>

definition kill_wake_step :: "nat \<Rightarrow> nat \<Rightarrow> sched \<Rightarrow> sched" where
  "kill_wake_step t i s =
    (if state (proctab s i) = STATE_WAIT \<and> waitpid (proctab s i) = pid (proctab s t)
     then set_pcb (ready s i) i (\<lambda>c. c\<lparr>waitpid := 0\<rparr>) else s)"

text \<open>A waiting or sleeping target is made ready, with the value its system call returns.\<close>

definition kill_wait :: "kernel \<Rightarrow> nat \<Rightarrow> kernel" where
  "kill_wait k t =
    (if state (proc k t) = STATE_WAIT
     then let k' = upd k t (\<lambda>c. c\<lparr>ret := - 666\<rparr>) in k'\<lparr>sch := ready (sch k') t\<rparr>
     else k)"

definition kill_sleep :: "kernel \<Rightarrow> nat \<Rightarrow> kernel kres" where
  "kill_sleep k t =
    (if state (proc k t) = STATE_SLEEP
     then (case killInSleep (sch k) t of
             Inl e \<Rightarrow> Inl e
           | Inr v \<Rightarrow> let k' = upd k t (\<lambda>c. c\<lparr>ret := v\<rparr>) in Inr (k'\<lparr>sch := ready (sch k') t\<rparr>))
     else Inr k)"

definition kill_31 :: "kernel \<Rightarrow> nat \<Rightarrow> kernel kres" where
  "kill_31 k t =
    (case (if state (proc k t) = STATE_READY then removeFromReady (sch k) t
           else if state (proc k t) = STATE_SLEEP then removeFromSleep (sch k) t
           else Inr (sch k)) of
       Inl e \<Rightarrow> Inl e
     | Inr s \<Rightarrow> Inr (k\<lparr>sch := fold (kill_wake_step t) [0..<MAX_PROC] s\<rparr>))"

definition kill :: "platform \<Rightarrow> kernel \<Rightarrow> u32 \<Rightarrow> u32 \<Rightarrow> (u32 \<times> kernel) kres" where
  "kill pl k pid' signum =
    (if sint signum < 0 \<or> 31 < sint signum then Inr (- 1, k)
     else case findPCB (sch k) pid' of
       None \<Rightarrow> Inr (- 999, k)
     | Some t \<Rightarrow>
         if sigmask (proc k t) AND push_bit (unat signum) 1 \<noteq> 0 then Inr (0, k)
         else
           (case kill_sleep (kill_wait k t) t of
              Inl e \<Rightarrow> Inl e
            | Inr k2 \<Rightarrow>
                (case (if signum = 31 then kill_31 k2 t else Inr k2) of
                   Inl e \<Rightarrow> Inl e
                 | Inr k3 \<Rightarrow> Inr (signal pl k3 t signum))))"

text \<open>
  The process table as an array of words: 59 for each \<open>struct struct_pcb\<close>, of which the words 12 to 43 are
  \<open>sigtab\<close> and the words from 47 on the descriptors, three each. \<open>None\<close> is a word that holds a pointer to
  another structure (\<open>next\<close>, \<open>prev\<close> and the \<open>device\<close> of a descriptor), which has no number here.
\<close>

definition pcb_words :: nat where [simp]: "pcb_words = 59"

definition pcb_word :: "nat \<Rightarrow> pcb \<Rightarrow> u32 option" where
  "pcb_word w c =
    (if w = 0 then Some (esp c) else if w = 3 then Some (state c) else if w = 4 then Some (pid c)
     else if w = 5 then Some (ret c) else if w = 6 then Some (args c) else if w = 7 then Some (otherpid c)
     else if w = 8 then Some (buffer c) else if w = 9 then Some (bufferlen c)
     else if w = 10 then Some (sleepdiff c) else if w = 11 then Some (cpuTime c)
     else if 12 \<le> w \<and> w < 44 then Some (sigtab c (w - 12)) else if w = 44 then Some (sigmask c)
     else if w = 45 then Some (currSigLvl c) else if w = 46 then Some (waitpid c)
     else if 47 \<le> w \<and> w < 59 \<and> (w - 47) mod 3 = 1 then Some (status (fdt c ((w - 47) div 3)))
     else if 47 \<le> w \<and> w < 59 \<and> (w - 47) mod 3 = 2 then Some (dataBuffer (fdt c ((w - 47) div 3)))
     else None)"

definition set_pcb_word :: "nat \<Rightarrow> u32 \<Rightarrow> pcb \<Rightarrow> pcb" where
  "set_pcb_word w v c =
    (if w = 0 then c\<lparr>esp := v\<rparr> else if w = 3 then c\<lparr>state := v\<rparr> else if w = 4 then c\<lparr>pid := v\<rparr>
     else if w = 5 then c\<lparr>ret := v\<rparr> else if w = 6 then c\<lparr>args := v\<rparr> else if w = 7 then c\<lparr>otherpid := v\<rparr>
     else if w = 8 then c\<lparr>buffer := v\<rparr> else if w = 9 then c\<lparr>bufferlen := v\<rparr>
     else if w = 10 then c\<lparr>sleepdiff := v\<rparr> else if w = 11 then c\<lparr>cpuTime := v\<rparr>
     else if 12 \<le> w \<and> w < 44 then c\<lparr>sigtab := (sigtab c)(w - 12 := v)\<rparr> else if w = 44 then c\<lparr>sigmask := v\<rparr>
     else if w = 45 then c\<lparr>currSigLvl := v\<rparr> else if w = 46 then c\<lparr>waitpid := v\<rparr>
     else let i = (w - 47) div 3 in
       if (w - 47) mod 3 = 1 then c\<lparr>fdt := (fdt c)(i := (fdt c i)\<lparr>status := v\<rparr>)\<rparr>
       else if (w - 47) mod 3 = 2 then c\<lparr>fdt := (fdt c)(i := (fdt c i)\<lparr>dataBuffer := v\<rparr>)\<rparr> else c)"

text \<open>
  The dispatcher's arm for \<open>SYS_SIGHANDLER\<close>. The signal number is not checked: any other than 0 to 31
  reaches another field of this or of another process, as the index counts words from \<open>sigtab\<close> on, modulo
  the size of the address space. \<open>OutOfBounds\<close> is left for an address outside the process table, where
  the variable it belongs to is the linker's choice, and for a word that holds a pointer.
\<close>

definition sighandler :: "platform \<Rightarrow> kernel \<Rightarrow> nat \<Rightarrow> u32 \<Rightarrow> u32 \<Rightarrow> kernel kres" where
  "sighandler pl k p signum handler =
    (if bad_addr pl handler then Inr (upd k p (\<lambda>c. c\<lparr>ret := 0\<rparr>))
     else let n = int (pcb_words * p + 12) + signed_take_bit 29 (sint signum);
              q = nat n div pcb_words;
              w = nat n mod pcb_words
          in if n < 0 \<or> int (pcb_words * MAX_PROC) \<le> n then Inl OutOfBounds
             else (case pcb_word w (proc k q) of
                     None \<Rightarrow> Inl OutOfBounds
                   | Some old \<Rightarrow> Inr (upd (upd k p (\<lambda>c. c\<lparr>ret := old\<rparr>)) q (set_pcb_word w handler))))"

lemma in_range_index: "0 \<le> sint (n :: u32) \<Longrightarrow> sint n < int MAX_SIG \<Longrightarrow> signed_take_bit 29 (sint n) = sint n"
  by (rule signed_take_bit_int_eq_self) auto

lemma sighandler_in_range:
  assumes "p < MAX_PROC" and "0 \<le> sint signum" and "sint signum < int MAX_SIG"
  shows "sighandler pl k p signum handler =
    (if bad_addr pl handler then Inr (upd k p (\<lambda>c. c\<lparr>ret := 0\<rparr>))
     else Inr (upd k p (\<lambda>c. c\<lparr>ret := sigtab c (unat signum), sigtab := (sigtab c)(unat signum := handler)\<rparr>)))"
proof -
  let ?i = "unat signum"
  have i: "sint signum = int ?i" by (rule int_unat_sint [OF assms(2), symmetric])
  have "?i < 32" using i assms(3) unfolding MAX_SIG_def by linarith
  note i = i this
  have n: "int (59 * p + 12) + signed_take_bit 29 (sint signum) = int (59 * p + (12 + ?i))"
    using in_range_index [OF assms(2,3)] i(1) by linarith
  have "(59 * p + (12 + ?i)) div 59 = p" "(59 * p + (12 + ?i)) mod 59 = 12 + ?i" using i(2) by simp_all
  moreover have "59 * p + (12 + ?i) < 59 * 64" using assms(1) i(2) by simp
  moreover have "pcb_word (12 + ?i) (proc k p) = Some (sigtab (proc k p) ?i)" using i(2) by (simp add: pcb_word_def)
  moreover have "set_pcb_word (12 + ?i) handler c = c\<lparr>sigtab := (sigtab c)(?i := handler)\<rparr>" for c
    using i(2) by (simp add: set_pcb_word_def)
  ultimately show ?thesis
    by (simp add: sighandler_def n Let_def upd_def set_pcb_def del: of_nat_add of_nat_mult)
qed

text \<open>For a slot outside the table the address is outside the table, too.\<close>

lemma sighandler_no_slot:
  assumes "\<not> p < MAX_PROC" and "0 \<le> sint signum" and "sint signum < int MAX_SIG" and "\<not> bad_addr pl handler"
  shows "sighandler pl k p signum handler = Inl OutOfBounds"
proof -
  show ?thesis using assms by (simp add: sighandler_def Let_def in_range_index [OF assms(2,3)])
qed

text \<open>
  The arm for \<open>SYS_SIGRETURN\<close>. The loop that is to clear the pending bit starts from \<open>1 << 31\<close>, which
  is negative as an \<open>int\<close>, and runs while its variable is greater than 1.
\<close>

function sigreturn_loop :: "int \<Rightarrow> u32 \<Rightarrow> u32" where
  "sigreturn_loop i msk =
    (if 1 < i then
       if word_of_int i AND msk \<noteq> 0 then msk - word_of_int i else sigreturn_loop (i div 2) msk
     else msk)"
  by pat_completeness auto
termination by (relation "measure (\<lambda>(i, msk). nat i)") auto

definition sigreturn :: "kernel \<Rightarrow> nat \<Rightarrow> u32 \<Rightarrow> u32 \<Rightarrow> u32 \<Rightarrow> kernel" where
  "sigreturn k p old_sp old_ret sigLvl =
    upd k p (\<lambda>c. c\<lparr>sigmask := sigreturn_loop (sint (push_bit 31 1 :: u32)) (sigmask c),
      esp := old_sp, currSigLvl := sigLvl, ret := old_ret\<rparr>)"

section \<open>Delivery\<close>

text \<open>When a signal is put on the stack of a process.\<close>

definition delivers :: "kernel \<Rightarrow> nat \<Rightarrow> u32 \<Rightarrow> bool" where
  "delivers k p signum \<longleftrightarrow> sigtab (proc k p) (unat signum) \<noteq> 0 \<and> sint (currSigLvl (proc k p)) < sint signum"

lemma sigreturn_mask: "sigreturn_loop (sint (push_bit 31 1 :: u32)) msk = msk"
  by simp

lemma signal_set_pcb:
  obtains f where "sch (snd (signal pl k p n)) = set_pcb (sch k) p f" "\<And>c. pnext (f c) = pnext c"
    "\<And>c. state (f c) = state c" "\<And>c. sleepdiff (f c) = sleepdiff c" "\<And>c. pid (f c) = pid c"
proof -
  let ?f = "\<lambda>c. c\<lparr>sigmask := sigmask c OR push_bit (unat n) 1\<rparr>"
  consider "sigtab (proc k p) (unat n) = 0" | "delivers k p n"
    | "sigtab (proc k p) (unat n) \<noteq> 0" "\<not> sint (currSigLvl (proc k p)) < sint n"
    by (auto simp: delivers_def)
  then show thesis
  proof cases
    case 1
    then show thesis by (intro that [of "\<lambda>c. c"]) (simp_all add: signal_def set_pcb_def)
  next
    case 2
    then show thesis
      by (intro that [of "\<lambda>c. (?f c)\<lparr>currSigLvl := n, esp := esp (proc k p) - 24 - 44\<rparr>"])
        (simp_all add: signal_def delivers_def Let_def upd_def set_pcb_def)
  next
    case 3
    then show thesis by (intro that [of ?f]) (simp_all add: signal_def Let_def upd_def set_pcb_def)
  qed
qed

lemma signal_sched:
  "sched_ok (sch k) \<Longrightarrow> same_queues (sch k) (sch (snd (signal pl k p n)))"
  "same_pids (sch k) (sch (snd (signal pl k p n)))"
  "state (proc (snd (signal pl k p n)) i) = state (proc k i)"
  "fst (signal pl k p n) = 0"
  "kmem (snd (signal pl k p n)) = kmem k" "nextpid (snd (signal pl k p n)) = nextpid k"
proof -
  obtain f where f: "sch (snd (signal pl k p n)) = set_pcb (sch k) p f" "\<And>c. pnext (f c) = pnext c"
    "\<And>c. state (f c) = state c" "\<And>c. sleepdiff (f c) = sleepdiff c" "\<And>c. pid (f c) = pid c"
    using signal_set_pcb [where k = k and pl = pl and p = p and n = n] by blast
  show "sched_ok (sch k) \<Longrightarrow> same_queues (sch k) (sch (snd (signal pl k p n)))"
    unfolding f(1) by (rule set_pcb_fields) (simp_all add: f)
  show "same_pids (sch k) (sch (snd (signal pl k p n)))" "state (proc (snd (signal pl k p n)) i) = state (proc k i)"
    by (simp_all add: f same_pids_def)
  show "fst (signal pl k p n) = 0" "kmem (snd (signal pl k p n)) = kmem k" "nextpid (snd (signal pl k p n)) = nextpid k"
    by (simp_all add: signal_def Let_def)
qed

text \<open>The links and the heads stay, whatever the queues look like.\<close>

lemma signal_links:
  "nxt (sch (snd (signal pl k p n))) = nxt (sch k)" "head (sch (snd (signal pl k p n))) = head (sch k)"
  "sleepQ (sch (snd (signal pl k p n))) = sleepQ (sch k)"
  by (simp_all add: signal_def Let_def nxt_def fun_eq_iff)

text \<open>What a delivery leaves on the stack: a frame for \<open>sigtramp\<close> with its arguments above it.\<close>

lemma signal_delivers:
  assumes "delivers k p n" and "k' = snd (signal pl k p n)" and "e = esp (proc k p)"
  shows "esp (proc k' p) = e - 68" "currSigLvl (proc k' p) = n" "ret (proc k' p) = ret (proc k p)"
    "sigmask (proc k' p) = sigmask (proc k p) OR push_bit (unat n) 1"
    "sigtab (proc k' p) = sigtab (proc k p)"
    "load32 (ram k') (e - 68 + 32) = addr_sigtramp pl" "load32 (ram k') (e - 68 + 36) = getCS pl"
    "load32 (ram k') (e - 68 + 40) = 0x3200"
    "load32 (ram k') (e - 20) = sigtab (proc k p) (unat n)" "load32 (ram k') (e - 16) = e - 68"
    "load32 (ram k') (e - 12) = e" "load32 (ram k') (e - 8) = ret (proc k p)"
    "load32 (ram k') (e - 4) = currSigLvl (proc k p)"
    "same_frame (ram k) (ram k') e"
  using assms(1) unfolding assms(2,3)
  by (simp_all add: signal_def delivers_def Let_def same_frame_def load32_store32_other word_le_nat_alt unat_neg)

section \<open>Properties of delivery\<close>

text \<open>
  C25. Delivery and return. When a signal with a handler and a priority above the current one is sent
  to a process, the process next runs \<open>sigtramp\<close>, with the handler, the address of the new frame, the
  old stack pointer, the old return value and the old level as its arguments on the stack, all of it
  below the frame saved before. Now let the handler run, with any number of traps, of switches and of changes to memory and to
  the kernel, up to a state \<open>k4\<close> in which only the words of that saved frame are still what they were. The return from
  the signal there, with the three values that \<open>sigtramp\<close> was given, makes the process continue in exactly the registers
  it would have had without the signal, at its old level. (What the signal leaves behind is its pending bit: C26.)
\<close>

theorem signal_roundtrip:
  assumes "delivers k p n" and "k1 = snd (signal pl k p n)" and "switch_out k1 p = (r, k2)"
    and "same_frame (ram k) (ram k4) (esp (proc k p))"
    and "k5 = sigreturn k4 p (load32 (ram k2) (r_esp r + 12)) (load32 (ram k2) (r_esp r + 16))
      (load32 (ram k2) (r_esp r + 20))"
  shows "r_eip r = addr_sigtramp pl \<and> load32 (ram k2) (r_esp r + 4) = sigtab (proc k p) (unat n) \<and>
    load32 (ram k2) (r_esp r + 8) = esp (proc k1 p) \<and> r_esp r = esp (proc k p) - 24 \<and>
    same_frame (ram k) (ram k2) (esp (proc k p)) \<and>
    fst (switch_out k5 p) = fst (switch_out k p) \<and> esp (proc k5 p) = esp (proc k p) \<and>
    ret (proc k5 p) = ret (proc k p) \<and> currSigLvl (proc k5 p) = currSigLvl (proc k p)"
proof -
  define e where "e = esp (proc k p)"
  note d = signal_delivers [OF assms(1,2) e_def]
  have k2: "ram k2 = store32 (ram k1) (e - 68 + 28) (ret (proc k p))" "r = popa_iret (ram k2) (e - 68)"
    using assms(3) by (auto simp: switch_out_def Let_def d)
  have w: "load32 (ram k2) a = load32 (ram k1) a" if "a \<in> {e - 68 + 32, e - 20, e - 16, e - 12, e - 8, e - 4}" for a
    using that by (auto simp: k2(1) load32_store32_other word_le_nat_alt unat_neg)
  have rsp: "r_esp r = e - 24" by (simp add: k2(2) popa_iret_def)
  have args: "load32 (ram k2) (r_esp r + 4) = sigtab (proc k p) (unat n)" "load32 (ram k2) (r_esp r + 8) = e - 68"
    "load32 (ram k2) (r_esp r + 12) = e" "load32 (ram k2) (r_esp r + 16) = ret (proc k p)"
    "load32 (ram k2) (r_esp r + 20) = currSigLvl (proc k p)"
    using d w [of "e - 20"] w [of "e - 16"] w [of "e - 12"] w [of "e - 8"] w [of "e - 4"] by (simp_all add: rsp)
  have k5: "esp (proc k5 p) = e" "ret (proc k5 p) = ret (proc k p)" "currSigLvl (proc k5 p) = currSigLvl (proc k p)"
    "ram k5 = ram k4" by (simp_all add: assms(5) sigreturn_def args)
  have "same_frame (ram k1) (ram k2) e"
    by (simp add: same_frame_def k2(1) load32_store32_other word_le_nat_alt unat_neg)
  with d(14) have "same_frame (ram k) (ram k2) e" by (simp add: same_frame_def)
  moreover have "fst (switch_out k5 p) = fst (switch_out k p)"
    using popa_same_frame [OF assms(4)] by (simp add: switch_out_def Let_def popa_store_eax k5 flip: e_def)
  moreover have "r_eip r = addr_sigtramp pl" using d w [of "e - 68 + 32"] by (simp add: k2(2) popa_iret_def)
  ultimately show ?thesis using args d rsp k5 by (simp flip: e_def)
qed

definition handled :: kernel where
  "handled = upd fresh 1 (\<lambda>c. c\<lparr>esp := 0x30000, ret := 77, pid := 1, state := STATE_READY,
     sigtab := (\<lambda>_. 0)(5 := 0x7000)\<rparr>)"

text \<open>The handler has written to memory and trapped, which moved the saved stack pointer.\<close>

theorem signal_roundtrip_witness:
  "r_eip (fst (switch_out (snd (signal pc_platform handled 1 5)) 1)) = 0x2000 \<and>
   fst (switch_out (sigreturn (upd ((snd (signal pc_platform handled 1 5))\<lparr>ram := store32 (ram handled) 0x2FF00 1234\<rparr>) 1
      (\<lambda>c. c\<lparr>esp := 0x2FE00, ret := 9\<rparr>)) 1 0x30000 77 0) 1) = fst (switch_out handled 1)"
proof -
  let ?k4 = "upd ((snd (signal pc_platform handled 1 5))\<lparr>ram := store32 (ram handled) 0x2FF00 1234\<rparr>) 1
      (\<lambda>c. c\<lparr>esp := 0x2FE00, ret := 9\<rparr>)"
  have d: "delivers handled 1 5" by (simp add: delivers_def handled_def fresh_def image_def zero_pcb_def)
  obtain r k2 where s: "switch_out (snd (signal pc_platform handled 1 5)) 1 = (r, k2)" by fastforce
  have f: "same_frame (ram handled) (ram ?k4) (esp (proc handled 1))"
    by (simp add: same_frame_def load32_store32_other word_le_nat_alt) (simp add: handled_def load32_store32_other)
  note sd = signal_delivers [OF d refl refl, of pc_platform]
  have "ram k2 = store32 (ram (snd (signal pc_platform handled 1 5))) (0x30000 - 68 + 28) 77" "r_esp r = 0x30000 - 24"
    using s sd by (auto simp: switch_out_def Let_def popa_iret_def handled_def)
  then have "load32 (ram k2) (r_esp r + 12) = 0x30000" "load32 (ram k2) (r_esp r + 16) = 77" "load32 (ram k2) (r_esp r + 20) = 0"
    using sd(11-13) by (simp_all add: handled_def fresh_def image_def zero_pcb_def load32_store32_other word_le_nat_alt)
  with signal_roundtrip [OF d refl s f refl] s show ?thesis by (simp add: pc_platform_def)
qed

lemma pending_bit: "n < 32 \<Longrightarrow> (x OR push_bit n 1) AND push_bit n 1 \<noteq> (0 :: u32)"
proof -
  assume "n < 32"
  then have "bit ((x OR push_bit n 1) AND push_bit n 1) n" by (simp add: bit_simps)
  then show ?thesis by (metis bit_0_eq bot_apply bot_bool_def)
qed

text \<open>
  C26. A signal is delivered at most once in the life of a process: the loop that is to clear its
  pending bit on return never runs, so that after the handler has returned the signal still counts
  as pending and sending it again returns 0 and changes nothing.
\<close>

theorem signal_only_once:
  assumes "delivers k t n" and "0 \<le> sint n" and "sint n \<le> 31" and "findPCB (sch k) pid' = Some t"
    and "k3 = sigreturn (snd (signal pl k t n)) t old_sp old_ret lvl"
  shows "kill pl k3 pid' n = Inr (0, k3)"
proof -
  have "unat n < 32" using int_unat_sint [OF assms(2)] assms(3) by linarith
  note pb = pending_bit [OF this]
  have "same_pids (sch k) (sch k3)"
    using signal_sched(2) [of k pl t n] by (simp add: assms(5) sigreturn_def same_pids_def)
  then have "findPCB (sch k3) pid' = Some t" using assms(4) by (simp add: findPCB_def same_pids_def)
  moreover have "sigmask (proc k3 t) = sigmask (proc k t) OR push_bit (unat n) 1"
    using signal_delivers(4) [OF assms(1) refl refl] by (simp add: assms(5) sigreturn_def)
  ultimately show ?thesis using assms(2,3) pb by (simp add: kill_def)
qed

theorem signal_only_once_witness:
  "kill pc_platform (sigreturn (snd (signal pc_platform handled 1 5)) 1 0x30000 77 0) 1 5 =
     Inr (0, sigreturn (snd (signal pc_platform handled 1 5)) 1 0x30000 77 0)"
proof -
  have d: "delivers handled 1 5" by (simp add: delivers_def handled_def fresh_def image_def zero_pcb_def)
  have "findPCB (sch handled) 1 = Some 1"
    by (simp add: findPCB_def handled_def fresh_def image_def zero_pcb_def upt_rec)
  from signal_only_once [OF d _ _ this refl] show ?thesis by simp
qed

section \<open>\<open>kill\<close> and the queues\<close>

definition grows :: "sched \<Rightarrow> sched \<Rightarrow> bool" where
  "grows s s' \<longleftrightarrow> (\<exists>ys. readyq s' = readyq s @ ys)"

lemma wake_waiter:
  assumes "run_ok s p" and "state (proctab s i) = STATE_WAIT" and "i < MAX_PROC"
    and "\<And>c. pnext (f c) = pnext c" and "\<And>c. state (f c) = state c" and "\<And>c. sleepdiff (f c) = sleepdiff c"
  shows "run_ok (set_pcb (ready s i) i f) p" "grows s (set_pcb (ready s i) i f)"
    "sleepers (set_pcb (ready s i) i f) = sleepers s"
proof -
  note r = run_okD [OF assms(1)]
  have out: "i \<notin> set (readyq s)" "i \<notin> set (sleepq s)" using not_queued [OF r(1), of i] assms(2) by auto
  note rs = ready_sched [OF r(1) assms(3) out]
  have same: "same_queues (ready s i) (set_pcb (ready s i) i f)" by (rule set_pcb_fields [OF rs(1) assms(4-6)])
  have "i \<noteq> p" using r(5) assms(2) by auto
  then have "state (proctab (set_pcb (ready s i) i f) p) = STATE_READY" using r(5) by (simp add: ready_proctab)
  with same rs r \<open>i \<noteq> p\<close> show "run_ok (set_pcb (ready s i) i f) p" "grows s (set_pcb (ready s i) i f)"
    "sleepers (set_pcb (ready s i) i f) = sleepers s"
    by (auto simp: run_ok_def same_queues_def grows_def)
qed

lemma ready_waiter:
  assumes "run_ok s p" and "state (proctab s t) = STATE_WAIT" and "t < MAX_PROC"
  shows "run_ok (ready (set_pcb s t f) t) p" "grows s (ready (set_pcb s t f) t)"
    "sleepers (ready (set_pcb s t f) t) = sleepers s"
proof -
  note r = run_okD [OF assms(1)]
  have out: "t \<notin> set (readyq s)" "t \<notin> set (sleepq s)" using not_queued [OF r(1), of t] assms(2) by auto
  have same: "same_queues s (set_pcb s t f)" by (rule set_pcb_outside [OF r(1) out])
  then have rs: "sched_ok (ready (set_pcb s t f) t)" "readyq (ready (set_pcb s t f) t) = readyq s @ [t]"
    "sleepers (ready (set_pcb s t f) t) = sleepers s"
    using ready_sched [of "set_pcb s t f" t] assms(3) out by (auto simp: same_queues_def)
  have "t \<noteq> p" using r(5) assms(2) by auto
  with rs r show "run_ok (ready (set_pcb s t f) t) p" "grows s (ready (set_pcb s t f) t)"
    "sleepers (ready (set_pcb s t f) t) = sleepers s"
    by (auto simp: run_ok_def grows_def ready_proctab)
qed

lemma kill_wake_fold:
  assumes "run_ok s p" and "\<forall>i \<in> set is. i < MAX_PROC"
  shows "run_ok (fold (kill_wake_step t) is s) p \<and> grows s (fold (kill_wake_step t) is s) \<and>
    sleepers (fold (kill_wake_step t) is s) = sleepers s \<and> same_pids s (fold (kill_wake_step t) is s)"
  using assms
proof (induction "is" arbitrary: s)
  case Nil
  then show ?case by (simp add: grows_def same_pids_refl)
next
  case (Cons i "is")
  let ?s = "kill_wake_step t i s"
  have pids: "same_pids s ?s" by (simp add: kill_wake_step_def same_pids_def ready_proctab)
  have st: "run_ok ?s p" "grows s ?s" "sleepers ?s = sleepers s"
    using wake_waiter [OF Cons.prems(1), of i "\<lambda>c. c\<lparr>waitpid := 0\<rparr>"] Cons.prems
    by (auto simp: kill_wake_step_def grows_def)
  with Cons.IH [OF st(1)] Cons.prems(2) pids show ?case
    by (auto simp: grows_def intro: same_pids_trans)
qed

text \<open>
  \<open>kill\<close> on a target that is not asleep: it returns, and the queues stay well formed; only a signal
  31 takes somebody off the ready queue, and only its target.
\<close>

lemma kill_sched:
  assumes run: "run_ok (sch k) p"
    and awake: "\<And>t. findPCB (sch k) pid' = Some t \<Longrightarrow> state (proc k t) \<noteq> STATE_SLEEP"
  shows "\<exists>r k'. kill pl k pid' n = Inr (r, k') \<and> run_ok (sch k') p \<and> same_pids (sch k) (sch k') \<and>
    sleepers (sch k') = sleepers (sch k) \<and> kmem k' = kmem k \<and> nextpid k' = nextpid k \<and>
    (\<forall>i \<in> set (readyq (sch k)). i \<in> set (readyq (sch k')) \<or> n = 31 \<and> findPCB (sch k) pid' = Some i)"
proof (cases "sint n < 0 \<or> 31 < sint n \<or> findPCB (sch k) pid' = None")
  case True
  with run show ?thesis by (auto simp: kill_def same_pids_refl split: option.splits)
next
  case False
  then obtain t where t: "findPCB (sch k) pid' = Some t" by blast
  then have t64: "t < MAX_PROC" by (auto simp: findPCB_def dest!: find_SomeD)
  show ?thesis
  proof (cases "sigmask (proc k t) AND push_bit (unat n) 1 \<noteq> 0")
    case True
    with False t run show ?thesis by (auto simp: kill_def same_pids_refl)
  next
    case pend: False
    define k1 where "k1 = kill_wait k t"
    have k1: "run_ok (sch k1) p" "grows (sch k) (sch k1)" "sleepers (sch k1) = sleepers (sch k)"
      "same_pids (sch k) (sch k1)" "state (proc k1 t) \<noteq> STATE_SLEEP" "kmem k1 = kmem k" "nextpid k1 = nextpid k"
      using run ready_waiter [OF run _ t64] awake [OF t]
      by (auto simp: k1_def kill_wait_def Let_def grows_def same_pids_def ready_proctab)
    from k1(2) have g1: "set (readyq (sch k)) \<subseteq> set (readyq (sch k1))" by (auto simp: grows_def)
    have "kill_sleep k1 t = Inr k1" using k1(5) by (simp add: kill_sleep_def)
    then have eq: "kill pl k pid' n = (case (if n = 31 then kill_31 k1 t else Inr k1) of
        Inl e \<Rightarrow> Inl e | Inr k3 \<Rightarrow> Inr (signal pl k3 t n))"
      using False t pend by (simp add: kill_def k1_def)
    have fin: "\<exists>r k'. Inr (signal pl k2 t n) = (Inr (r, k') :: (u32 \<times> kernel) kres) \<and> run_ok (sch k') p \<and>
        same_pids (sch k2) (sch k') \<and> same_queues (sch k2) (sch k') \<and> kmem k' = kmem k2 \<and> nextpid k' = nextpid k2"
      if "run_ok (sch k2) p" for k2
    proof -
      note ss = signal_sched [where k = k2 and pl = pl and p = t and n = n]
      have "same_queues (sch k2) (sch (snd (signal pl k2 t n)))" using ss(1) run_okD(1) [OF that] by blast
      moreover have "run_ok (sch (snd (signal pl k2 t n))) p"
        by (rule run_ok_same [OF that calculation]) (simp add: ss(3) run_okD(5) [OF that])
      ultimately show ?thesis using ss(2,5,6) by (intro exI [of _ "fst (signal pl k2 t n)"] exI [of _ "snd (signal pl k2 t n)"]) simp
    qed
    show ?thesis
    proof (cases "n = 31")
      case n: False
      with fin [OF k1(1)] eq k1 g1 show ?thesis
        by (auto simp: same_queues_def intro: same_pids_trans)
    next
      case True
      obtain s where s: "(if state (proc k1 t) = STATE_READY then removeFromReady (sch k1) t else Inr (sch k1)) = Inr s"
        "run_ok s p" "same_pids (sch k1) s" "sleepers s = sleepers (sch k1)"
        "\<forall>i \<in> set (readyq (sch k1)). i \<in> set (readyq s) \<or> i = t"
      proof (cases "state (proc k1 t) = STATE_READY")
        case True
        from removeFromReady_sched [OF run_okD(1) [OF k1(1)], of t] obtain s where
          s: "removeFromReady (sch k1) t = Inr s" "sched_ok s" "readyq s = remove1 t (readyq (sch k1))"
          "sleepers s = sleepers (sch k1)" "\<And>i. state (proctab s i) = state (proc k1 i)" by blast
        have "run_ok s p" using s run_okD [OF k1(1)] by (auto simp: run_ok_def dest: notin_set_remove1)
        moreover have "\<forall>i \<in> set (readyq (sch k1)). i \<in> set (readyq s) \<or> i = t" using s(3) by auto
        ultimately show thesis using True s pids.kept_removeFromReady [OF s(1)] that [of s] by simp
      next
        case False
        then show thesis using k1(1) same_pids_refl that [of "sch k1"] by simp
      qed
      let ?k2 = "k1\<lparr>sch := fold (kill_wake_step t) [0..<MAX_PROC] s\<rparr>"
      have w: "run_ok (sch ?k2) p" "grows s (sch ?k2)" "sleepers (sch ?k2) = sleepers s" "same_pids s (sch ?k2)"
        using kill_wake_fold [OF s(2), of "[0..<MAX_PROC]" t] by simp_all
      from fin [OF w(1)] obtain r k' where f: "Inr (signal pl ?k2 t n) = (Inr (r, k') :: (u32 \<times> kernel) kres)"
        "run_ok (sch k') p" "same_pids (sch ?k2) (sch k')" "same_queues (sch ?k2) (sch k')"
        "kmem k' = kmem ?k2" "nextpid k' = nextpid ?k2" by blast
      have "same_pids (sch k) (sch k')" using k1(4) s(3) w(4) f(3) by (metis same_pids_trans)
      moreover have "\<forall>i \<in> set (readyq (sch k)). i \<in> set (readyq (sch k')) \<or> i = t"
        using g1 s(5) w(2) f(4) by (auto simp: same_queues_def grows_def)
      moreover have "kill_31 k1 t = Inr ?k2" using s(1) k1(5) by (auto simp: kill_31_def split: if_splits)
      ultimately show ?thesis using eq True s f w(3) k1 t by (auto simp: same_queues_def)
    qed
  qed
qed

lemma signal_devtable [simp]: "devtable (snd (signal pl k p n)) = devtable k"
  by (simp add: signal_def Let_def)

lemma kill_devtable:
  assumes "kill pl k pid' n = Inr (r, k')"
  shows "devtable k' = devtable k"
proof (cases "k' = k")
  case False
  with assms obtain t k2 k3 where k: "kill_sleep (kill_wait k t) t = Inr k2"
    "(if n = 31 then kill_31 k2 t else Inr k2) = Inr k3" "k' = snd (signal pl k3 t n)"
    unfolding kill_def by (auto split: if_splits option.splits sum.splits)
  have "devtable k2 = devtable k"
    using k(1) by (auto simp: kill_sleep_def kill_wait_def Let_def split: if_splits sum.splits)
  moreover have "devtable k3 = devtable k2" using k(2) by (auto simp: kill_31_def split: if_splits sum.splits)
  ultimately show ?thesis using k(3) by simp
qed simp

text \<open>What \<open>kill\<close> does to the entries of the process table.\<close>

context pcb_rel
begin

lemma rel_signal: "related R (sch k) (sch (snd (signal pl k p n)))"
  by (auto simp: signal_def Let_def related_def intro!: R_upd R_refl)

lemma rel_wake_step: "related R s (kill_wake_step t i s)"
  by (auto simp: kill_wake_step_def related_def ready_proctab proc_states_def intro!: R_upd R_refl)

lemma rel_wake_fold: "related R s (fold (kill_wake_step t) is s)"
  by (induction "is" arbitrary: s) (auto simp: related_refl intro: related_trans [OF rel_wake_step])

lemma rel_kill_31:
  assumes "kill_31 k t = Inr k'"
  shows "related R (sch k) (sch k')"
proof -
  from assms obtain s where s: "(if state (proc k t) = STATE_READY then removeFromReady (sch k) t
      else if state (proc k t) = STATE_SLEEP then removeFromSleep (sch k) t else Inr (sch k)) = Inr s"
    "sch k' = fold (kill_wake_step t) [0..<MAX_PROC] s"
    unfolding kill_31_def by (auto split: sum.splits)
  then have "related R (sch k) s"
    by (auto simp: related_refl rel_removeFromReady rel_removeFromSleep split: if_splits)
  then show ?thesis unfolding s(2) by (rule related_trans [OF _ rel_wake_fold])
qed

lemma rel_wait_sleep:
  "related R (sch k) (sch (kill_wait k t))"
  "kill_sleep k t = Inr k' \<Longrightarrow> related R (sch k) (sch k')"
  by (auto simp: kill_wait_def kill_sleep_def Let_def related_def ready_proctab proc_states_def intro!: R_upd R_refl
      split: if_splits sum.splits)

lemma rel_kill:
  assumes "kill pl k pid' n = Inr (r, k')"
  shows "related R (sch k) (sch k')"
proof (cases "k' = k")
  case False
  with assms obtain t k2 k3 where k: "kill_sleep (kill_wait k t) t = Inr k2"
    "(if n = 31 then kill_31 k2 t else Inr k2) = Inr k3" "k' = snd (signal pl k3 t n)"
    unfolding kill_def by (auto split: if_splits option.splits sum.splits)
  have "related R (sch k2) (sch k3)" using k(2) rel_kill_31 by (auto simp: related_refl split: if_splits)
  with rel_wait_sleep(1) rel_wait_sleep(2) [OF k(1)] rel_signal show ?thesis
    unfolding k(3) by (metis related_trans)
qed (simp add: related_refl)

end

text \<open>No part of it touches an identifier or a descriptor table.\<close>

context kept_field
begin

lemmas kept_kill = kept.rel_kill [unfolded related_same]

end

section \<open>Properties of \<open>kill\<close>\<close>

text \<open>
  Sending a signal to a process that is not asleep always returns and keeps the scheduler's
  invariant: both queues stay well formed, the sender can go on running, nobody's remaining sleep
  changes, no process identifier changes, and every queued process is still queued except the target
  of signal 31.
\<close>

theorem kill_keeps_queues:
  assumes "run_ok (sch k) p" and "\<And>t. findPCB (sch k) pid' = Some t \<Longrightarrow> state (proc k t) \<noteq> STATE_SLEEP"
  shows "\<exists>r k'. kill pl k pid' n = Inr (r, k') \<and> run_ok (sch k') p \<and> same_pids (sch k) (sch k') \<and>
    sleepers (sch k') = sleepers (sch k) \<and>
    (\<forall>i \<in> set (readyq (sch k)). i \<in> set (readyq (sch k')) \<or> n = 31 \<and> findPCB (sch k) pid' = Some i)"
  using kill_sched [OF assms] by blast

lemma handled_run: "run_ok (sch handled) 1" "findPCB (sch handled) 1 = Some 1"
proof -
  have "same_queues (sch fresh) (sch handled)"
    unfolding handled_def by (simp add: set_pcb_outside fresh_ok)
  then show "run_ok (sch handled) 1"
    using fresh_ok(3) by (auto simp: run_ok_def same_queues_def) (simp add: handled_def)
  show "findPCB (sch handled) 1 = Some 1"
    by (simp add: findPCB_def handled_def fresh_def image_def zero_pcb_def upt_rec)
qed

theorem kill_keeps_queues_witness:
  "\<exists>r k'. kill pc_platform handled 1 5 = Inr (r, k') \<and> run_ok (sch k') 1"
proof -
  have "state (proc handled t) \<noteq> STATE_SLEEP" if "findPCB (sch handled) 1 = Some t" for t
    using that handled_run(2) by (auto simp: handled_def)
  from kill_keeps_queues [OF handled_run(1) this, of 1] show ?thesis by blast
qed

text \<open>
  A signal to a waiting process ends its wait: the process goes to the end of the ready queue, its
  wait returns -666, and the sender's call returns 0.
\<close>

theorem kill_ends_wait:
  assumes "run_ok (sch k) p" and "findPCB (sch k) pid' = Some t" and "state (proc k t) = STATE_WAIT"
    and "0 \<le> sint n" and "sint n < 31" and "sigmask (proc k t) AND push_bit (unat n) 1 = 0"
  shows "\<exists>k'. kill pl k pid' n = Inr (0, k') \<and> readyq (sch k') = readyq (sch k) @ [t] \<and>
    ret (proc k' t) = - 666 \<and> run_ok (sch k') p"
proof -
  have t64: "t < MAX_PROC" using assms(2) by (auto simp: findPCB_def dest!: find_SomeD)
  define k1 where "k1 = kill_wait k t"
  have s1: "sch k1 = ready (set_pcb (sch k) t (\<lambda>c. c\<lparr>ret := - 666\<rparr>)) t"
    using assms(3) by (simp add: k1_def kill_wait_def Let_def)
  note rw = ready_waiter [OF assms(1,3) t64, of "\<lambda>c. c\<lparr>ret := - 666\<rparr>", folded s1]
  note r = run_okD [OF assms(1)]
  have out: "t \<notin> set (readyq (sch k))" "t \<notin> set (sleepq (sch k))" using not_queued [OF r(1), of t] assms(3) by auto
  from set_pcb_outside [OF r(1) out, of "\<lambda>c. c\<lparr>ret := - 666\<rparr>"] have
    q: "readyq (sch k1) = readyq (sch k) @ [t]"
    using ready_sched(2) [of "set_pcb (sch k) t (\<lambda>c. c\<lparr>ret := - 666\<rparr>)" t] t64 out
    by (simp add: same_queues_def s1)
  let ?k' = "snd (signal pl k1 t n)"
  have "n \<noteq> 31" using assms(5) by auto
  moreover have "kill_sleep k1 t = Inr k1" by (simp add: kill_sleep_def s1 ready_proctab)
  ultimately have e: "kill pl k pid' n = Inr (signal pl k1 t n)"
    using assms(2,4-6) by (simp add: kill_def k1_def)
  have same: "same_queues (sch k1) (sch ?k')" using signal_sched(1) run_okD(1) [OF rw(1)] by blast
  have "run_ok (sch ?k') p"
    by (rule run_ok_same [OF rw(1) same]) (simp add: signal_sched(3) run_okD(5) [OF rw(1)])
  moreover have "ret (proc ?k' t) = - 666" by (simp add: signal_def Let_def s1 ready_proctab)
  moreover have "signal pl k1 t n = (0, ?k')" using signal_sched(4) by (metis prod.collapse)
  ultimately show ?thesis using e same q by (intro exI [of _ ?k']) (simp add: same_queues_def)
qed

definition waiting :: kernel where
  "waiting = upd handled 2 (\<lambda>c. c\<lparr>pid := 2, state := STATE_WAIT, waitpid := 1\<rparr>)"

theorem kill_ends_wait_witness:
  "\<exists>k'. kill pc_platform waiting 2 5 = Inr (0, k') \<and> readyq (sch k') = [2] \<and> ret (proc k' 2) = - 666"
proof -
  have h: "readyq (sch handled) = []" "sleepq (sch handled) = []"
    using set_pcb_outside [of "sch fresh" 1] fresh_ok by (auto simp: same_queues_def handled_def)
  have same: "same_queues (sch handled) (sch waiting)"
    unfolding waiting_def upd_simps by (rule set_pcb_outside) (simp_all add: h run_okD(1) [OF handled_run(1)])
  have "run_ok (sch waiting) 1"
    by (rule run_ok_same [OF handled_run(1) same]) (simp add: waiting_def handled_def)
  moreover have "findPCB (sch waiting) 2 = Some 2"
    by (simp add: findPCB_def waiting_def handled_def fresh_def image_def zero_pcb_def upt_rec)
  moreover have "state (proc waiting 2) = STATE_WAIT" "sigmask (proc waiting 2) AND push_bit (unat (5 :: u32)) 1 = 0"
    by (simp_all add: waiting_def handled_def fresh_def image_def zero_pcb_def)
  ultimately show ?thesis
    using kill_ends_wait [of waiting 1 2 2 5 pc_platform] same h by (auto simp: same_queues_def)
qed

text \<open>
  Queueing a sleeper: the ready queue gets it at its end, and the sleep queue, which still leads to
  it, ends with it.
\<close>

lemma ready_sleeper:
  assumes "sched_ok s" and "t \<in> set (sleepq s)" and "s' = ready (set_pcb s t (\<lambda>c. c\<lparr>ret := v\<rparr>)) t"
  shows "readyq s' = readyq s @ [t]" "sleepq s' = takeWhile (\<lambda>i. i \<noteq> t) (sleepq s) @ [t]" "state (proctab s' t) = STATE_READY"
proof -
  from sched_okD [OF assms(1)] have q: "rq s (readyq s)" "sq s (sleepq s)" by auto
  have t: "t < MAX_PROC" using sched_states(2) [OF assms(1,2)] by auto
  have dj: "t \<notin> set (readyq s)" using queues_disjoint [OF q] assms(2) by auto
  have "rq (set_pcb s t (\<lambda>c. c\<lparr>ret := v\<rparr>)) (readyq s)" using q(1) by (auto simp: rq_def nxt_set_pcb simp flip: nxt_def)
  from rq_readyq [OF rq_ready [OF this dj t]] show "readyq s' = readyq s @ [t]" by (simp add: assms(3))
  show "state (proctab s' t) = STATE_READY" by (simp add: assms(3) ready_proctab)
  from assms(2) obtain us vs where sl: "sleepq s = us @ t # vs" by (meson split_list)
  have d: "distinct (us @ t # vs)" using sq_distinct [OF q(2)] by (simp add: sl)
  have tl: "tail s \<noteq> Some i" if "i \<in> set (us @ [t])" for i
  proof
    assume "tail s = Some i"
    then have "i \<in> set (readyq s)" using q(1) by (auto simp: rq_def split: if_splits)
    with queues_disjoint [OF q] that show False by (auto simp: sl)
  qed
  have n: "nxt s' i = nxt s i" if "i \<in> set us" for i
    using that d tl [of i] by (auto simp: assms(3) nxt_ready nxt_def split: option.splits)
  have nt: "nxt s' t = None" using tl [of t] by (auto simp: assms(3) nxt_ready split: option.splits)
  have ch: "chain (nxt s) (sleepQ s) (us @ t # vs)" using q(2) by (simp add: sq_def sl)
  have "chain nx' h (us @ [t])" if "chain nx h (us @ t # vs)" "\<And>i. i \<in> set us \<Longrightarrow> nx' i = nx i" "nx' t = None"
    for nx nx' :: "nat \<Rightarrow> pptr" and h using that by (induction us arbitrary: h) auto
  from this [OF ch n nt] have c: "chain (nxt s') (sleepQ s') (us @ [t])" by (simp add: assms(3))
  have "\<forall>i \<in> set (us @ [t]). i < MAX_PROC" using q(2) by (auto simp: sq_def sl)
  then have "length (us @ [t]) \<le> MAX_PROC" using d by (intro bounded_list_length) auto
  moreover have "takeWhile (\<lambda>i. i \<noteq> t) (us @ t # vs) = us" using d by (induction us) auto
  ultimately show "sleepq s' = takeWhile (\<lambda>i. i \<noteq> t) (sleepq s) @ [t]"
    unfolding sleepq_def [of s'] sl using chain_walk [OF c] by simp
qed

text \<open>
  C27. A signal to a sleeping process breaks the sleep queue. Send a signal below 31 that is not pending to
  a process in the sleep queue: \<open>kill\<close> returns 0, and has put the process at the end of the ready queue
  without taking it off the sleep queue. The sleep queue now ends with that process, which is not asleep: the
  processes that were behind it are cut off, as its link is cleared, and the scheduler's invariant is gone.
\<close>

theorem kill_sleeper_corrupts:
  assumes "sched_ok (sch k)" and "findPCB (sch k) pid' = Some t" and "t \<in> set (sleepq (sch k))"
    and "0 \<le> sint n" and "sint n < 31" and "sigmask (proc k t) AND push_bit (unat n) 1 = 0"
  shows "\<exists>k'. kill pl k pid' n = Inr (0, k') \<and> readyq (sch k') = readyq (sch k) @ [t] \<and>
    sleepq (sch k') = takeWhile (\<lambda>i. i \<noteq> t) (sleepq (sch k)) @ [t] \<and> state (proc k' t) = STATE_READY \<and>
    \<not> sched_ok (sch k')"
proof -
  have st: "state (proc k t) = STATE_SLEEP" using sched_states(2) [OF assms(1,3)] by simp
  have "sleepQ (sch k) \<noteq> None"
  proof
    assume "sleepQ (sch k) = None"
    with sched_okD [OF assms(1)] have "sleepq (sch k) = []" by (cases "sleepq (sch k)") (auto simp: sq_def)
    with assms(3) show False by simp
  qed
  then have "\<exists>v. killInSleep (sch k) t = Inr v" by (auto simp: killInSleep_def)
  then obtain v where v: "killInSleep (sch k) t = Inr v" by blast
  let ?s = "ready (set_pcb (sch k) t (\<lambda>c. c\<lparr>ret := v\<rparr>)) t"
  let ?k2 = "(upd k t (\<lambda>c. c\<lparr>ret := v\<rparr>))\<lparr>sch := ?s\<rparr>"
  note q = ready_sleeper [OF assms(1,3) refl, of v]
  let ?k' = "snd (signal pl ?k2 t n)"
  have "kill_sleep (kill_wait k t) t = Inr ?k2" using st v by (simp add: kill_wait_def kill_sleep_def Let_def)
  moreover have "n \<noteq> 31" using assms(5) by auto
  ultimately have e: "kill pl k pid' n = Inr (signal pl ?k2 t n)" using assms(2,4-6) by (simp add: kill_def)
  have r: "readyq (sch ?k') = readyq (sch k) @ [t]"
    "sleepq (sch ?k') = takeWhile (\<lambda>i. i \<noteq> t) (sleepq (sch k)) @ [t]" "state (proc ?k' t) = STATE_READY"
    using q by (simp_all add: readyq_def sleepq_def signal_links signal_sched(3))
  have "\<not> sched_ok (sch ?k')"
  proof
    assume "sched_ok (sch ?k')"
    from sched_states(2) [OF this, of t] r show False by simp
  qed
  moreover have "signal pl ?k2 t n = (0, ?k')" using signal_sched(4) by (metis prod.collapse)
  ultimately show ?thesis using e r by (intro exI [of _ ?k']) simp
qed

text \<open>Process 4 sleeps in front of process 3 and is sent signal 5: process 3 is cut off.\<close>

theorem kill_sleeper_corrupts_witness:
  "\<exists>k k'. sched_ok (sch k) \<and> sleepq (sch k) = [4, 3] \<and> kill pc_platform k 68 5 = Inr (0, k') \<and>
     readyq (sch k') = [4] \<and> sleepq (sch k') = [4] \<and> \<not> sched_ok (sch k')"
proof -
  from two_asleep obtain s where s: "sched_ok s" "readyq s = []" "sleepers s = [(4, 3), (3, 7)]" by blast
  define s1 where "s1 = s\<lparr>proctab := (\<lambda>i. (proctab s i)\<lparr>pid := of_nat i + 64, sigmask := 0\<rparr>)\<rparr>"
  let ?k = "fresh\<lparr>sch := s1\<rparr>"
  have eq: "nxt s1 = nxt s" "sdiff s1 = sdiff s" "head s1 = head s" "tail s1 = tail s" "sleepQ s1 = sleepQ s"
    "state (proctab s1 i) = state (proctab s i)" for i by (simp_all add: s1_def nxt_def sdiff_def fun_eq_iff)
  then have q: "readyq s1 = readyq s" "sleepq s1 = sleepq s" "sleepers s1 = sleepers s"
    by (simp_all add: readyq_def sleepq_def sleepers_def)
  have k: "sched_ok (sch ?k)" "readyq (sch ?k) = []" "sleepers (sch ?k) = [(4, 3), (3, 7)]"
    using s by (simp_all add: q sched_ok_def rq_ok_def sq_ok_def rq_def sq_def eq)
  have sl: "sleepq (sch ?k) = [4, 3]" using sleepq_sleepers [OF k(1)] k(3) by simp
  have f: "findPCB (sch ?k) 68 = Some 4" by (simp add: findPCB_def s1_def upt_rec)
  have m: "sigmask (proc ?k 4) AND push_bit (unat (5 :: u32)) 1 = 0" by (simp add: s1_def)
  from kill_sleeper_corrupts [OF k(1) f _ _ _ m, of pc_platform] k(2) sl obtain k' where
    "kill pc_platform ?k 68 5 = Inr (0, k')" "readyq (sch k') = [4]" "sleepq (sch k') = [4]" "\<not> sched_ok (sch k')" by auto
  with k(1) sl show ?thesis by blast
qed

text \<open>
  A handler can be installed out of bounds. With a signal number of 36, 39, 42 or 45 the status word of one of
  the caller's descriptors is taken for the old handler, which is returned, and overwritten with the address of the new one; the
  table of handlers is as before.
\<close>

theorem sighandler_overruns:
  assumes "p < MAX_PROC" and "i < MAX_FDT" and "\<not> bad_addr pl handler" and "signum = of_nat (36 + 3 * i)"
  shows "\<exists>k'. sighandler pl k p signum handler = Inr k' \<and> status (fdt (proc k' p) i) = handler \<and>
    ret (proc k' p) = status (fdt (proc k p) i) \<and> sigtab (proc k' p) = sigtab (proc k p)"
proof -
  have "sint signum = int (36 + 3 * i)" using assms(2) unfolding assms(4) by (intro sint_small) simp
  moreover have "signed_take_bit 29 (int (36 + 3 * i)) = int (36 + 3 * i)"
    using assms(2) by (intro signed_take_bit_int_eq_self) auto
  ultimately have n: "int (59 * p + 12) + signed_take_bit 29 (sint signum) = int (59 * p + (48 + 3 * i))" by simp
  have dm: "(59 * p + (48 + 3 * i)) div 59 = p" "(48 + 3 * i) mod 59 = 48 + 3 * i" using assms(2) by simp_all
  have lt: "59 * p + (48 + 3 * i) < 59 * 64" using assms(1,2) by simp
  have "48 + 3 * i - 47 = 3 * i + 1" by simp
  then have w: "(48 + 3 * i - 47) mod 3 = 1" "(48 + 3 * i - 47) div 3 = i" by simp_all
  have pw: "pcb_word (48 + 3 * i) c = Some (status (fdt c i))" for c using assms(2) w by (simp add: pcb_word_def)
  have sw: "set_pcb_word (48 + 3 * i) v c = c\<lparr>fdt := (fdt c)(i := (fdt c i)\<lparr>status := v\<rparr>)\<rparr>" for v c
    using w by (simp add: set_pcb_word_def Let_def)
  show ?thesis using assms(3) lt
    by (simp add: sighandler_def n Let_def dm pw sw del: of_nat_add of_nat_mult)
qed

theorem sighandler_overruns_witness:
  "\<exists>k'. sighandler pc_platform handled 1 39 0x7000 = Inr k' \<and> status (fdt (proc k' 1) 1) = 0x7000 \<and> ret (proc k' 1) = 0"
  using sighandler_overruns [of 1 1 pc_platform "0x7000" 39 handled]
  by (auto simp: bad_addr_def pc_platform_def handled_def fresh_def image_def zero_pcb_def zero_fd_def)

end
