(* ===== verification/Devices.thy ===== *)
theory Devices
  imports Kernel
begin

text \<open>
  The zero and the random device of \<open>c/zerorand.c\<close>, and what every device driver promises about the
  descriptor table of a process: the locale \<open>device_driver\<close>. A descriptor that reaches a driver is between 0
  and 3, which is what the device independent layer checks.
\<close>

section \<open>Operations\<close>

definition free_fd :: "pcb \<Rightarrow> nat option" where
  "free_fd c = find (\<lambda>i. status (fdt c i) = fd_CLOSE) [0..<MAX_FDT]"

definition zeroOpen :: "kernel \<Rightarrow> nat \<Rightarrow> nat \<Rightarrow> u32 \<times> kernel" where
  "zeroOpen k p dev =
    (case free_fd (proc k p) of
       Some i \<Rightarrow> (of_nat i, upd k p (\<lambda>c. c\<lparr>fdt := (fdt c)(i := (fdt c i)\<lparr>status := fd_OPEN, device := Some dev\<rparr>)\<rparr>))
     | None \<Rightarrow> (- 1, k))"

definition zeroClose :: "kernel \<Rightarrow> nat \<Rightarrow> u32 \<Rightarrow> u32 \<times> kernel" where
  "zeroClose k p fd =
    (0, upd k p (\<lambda>c. c\<lparr>fdt := (fdt c)(unat fd := (fdt c (unat fd))\<lparr>device := None, status := fd_CLOSE\<rparr>)\<rparr>))"

definition zeroRead :: "kernel \<Rightarrow> nat \<Rightarrow> u32 \<Rightarrow> u32 \<Rightarrow> u32 \<Rightarrow> u32 \<times> kernel" where
  "zeroRead k p fd buff bufflen =
    (let k1 = k\<lparr>ram := memset (ram k) buff 0 (unat bufflen)\<rparr>
     in (bufflen, upd k1 p (\<lambda>c. c\<lparr>fdt := (fdt c)(unat fd := (fdt c (unat fd))\<lparr>dataBuffer := 0\<rparr>)\<rparr>)))"

text \<open>
  The buffer of a descriptor is NULL from the image on and no driver sets it to anything else. There is no
  paging, so the bytes go to the memory from address 0 on, without a fault.
\<close>

definition zeroWrite :: "kernel \<Rightarrow> nat \<Rightarrow> u32 \<Rightarrow> u32 \<Rightarrow> u32 \<Rightarrow> u32 \<times> kernel" where
  "zeroWrite k p fd buff bufflen =
    (bufflen, k\<lparr>ram := memCpy (ram k) (dataBuffer (fdt (proc k p) (unat fd))) buff (unat bufflen)\<rparr>)"

definition zeroIoctl :: "kernel \<Rightarrow> u32 \<Rightarrow> u32 \<Rightarrow> u32 \<Rightarrow> u32 \<times> kernel" where
  "zeroIoctl k fd command seed = (- 1, k)"

definition randOpen :: "kernel \<Rightarrow> nat \<Rightarrow> nat \<Rightarrow> u32 \<times> kernel" where
  "randOpen k p dev =
    (case free_fd (proc k p) of
       Some i \<Rightarrow> (of_nat i, upd k p (\<lambda>c. c\<lparr>fdt := (fdt c)(i := (fdt c i)\<lparr>status := fd_OPEN, device := Some dev\<rparr>)\<rparr>))
     | None \<Rightarrow> (- 1, k))"

definition randClose :: "kernel \<Rightarrow> nat \<Rightarrow> u32 \<Rightarrow> u32 \<times> kernel" where
  "randClose k p fd =
    (0, upd k p (\<lambda>c. c\<lparr>fdt := (fdt c)(unat fd := (fdt c (unat fd))\<lparr>device := None, status := fd_CLOSE\<rparr>)\<rparr>))"

text \<open>\<open>rand() % 255\<close>, and as a byte; the next value of the generator.\<close>

definition rand_byte :: "lib \<Rightarrow> u32 \<Rightarrow> nat \<Rightarrow> u8" where
  "rand_byte lb seed n = word_of_int (sint (rand_seq lb seed n) smod 255)"

text \<open>
  The loop of \<open>randRead\<close> from index \<open>i\<close>, an \<open>int\<close> that wraps around, with the number of values drawn
  so far; the result is the index it stops at, the number of bytes counted, the memory and the number
  of values drawn. None is a loop that never ends.
\<close>

partial_function (option) randRead_loop ::
    "lib \<Rightarrow> u32 \<Rightarrow> u32 \<Rightarrow> u32 \<Rightarrow> u32 \<Rightarrow> u32 \<Rightarrow> ram \<Rightarrow> nat \<Rightarrow> (u32 \<times> u32 \<times> ram \<times> nat) option" where
  "randRead_loop lb seed buff len i bytesRead m n =
    (if sint i < sint len then
       randRead_loop lb seed buff len (i + 4) (bytesRead + 4) (memset m (buff + i) (rand_byte lb seed n) 4) (n + 1)
     else Some (i, bytesRead, m, n))"

definition randRead :: "lib \<Rightarrow> kernel \<Rightarrow> nat \<Rightarrow> u32 \<Rightarrow> u32 \<Rightarrow> u32 \<Rightarrow> (u32 \<times> kernel) kres" where
  "randRead lb k p fd buff bufflen =
    (case randRead_loop lb (rseed k) buff bufflen 0 0 (ram k) (rcalls k) of
       None \<Rightarrow> Inl Diverge
     | Some (i, bytesRead, m, n) \<Rightarrow>
         Inr (if sint i < sint bufflen then
                let diff = bufflen - i
                in (bytesRead + diff, k\<lparr>ram := memset m (buff + i) (rand_byte lb (rseed k) n) (unat diff), rcalls := n + 1\<rparr>)
              else (bytesRead, k\<lparr>ram := m, rcalls := n\<rparr>)))"

definition randWrite :: "kernel \<Rightarrow> nat \<Rightarrow> u32 \<Rightarrow> u32 \<Rightarrow> u32 \<Rightarrow> u32 \<times> kernel" where
  "randWrite k p fd buff bufflen = (- 1, k)"

definition randIoctl :: "kernel \<Rightarrow> u32 \<Rightarrow> u32 \<Rightarrow> u32 \<Rightarrow> u32 \<times> kernel" where
  "randIoctl k fd command seed =
    (if command \<noteq> 81 then (- 1, k) else (0, k\<lparr>rseed := seed, rcalls := 0\<rparr>))"

section \<open>What a driver promises\<close>

text \<open>Nothing but descriptor table \<open>p\<close>, memory and the device's own variables has changed.\<close>

definition only_fdt :: "kernel \<Rightarrow> nat \<Rightarrow> kernel \<Rightarrow> bool" where
  "only_fdt k p k' \<longleftrightarrow> (\<exists>g. sch k' = set_pcb (sch k) p (\<lambda>c. c\<lparr>fdt := g\<rparr>)) \<and> kmem k' = kmem k \<and>
     nextpid k' = nextpid k \<and> devtable k' = devtable k"

lemma only_fdt_sched:
  assumes "only_fdt k p k'"
  shows "sched_ok (sch k) \<Longrightarrow> same_queues (sch k) (sch k')" "same_pids (sch k) (sch k')"
    "state (proc k' i) = state (proc k i)" "kmem k' = kmem k" "nextpid k' = nextpid k"
  using assms by (auto simp: only_fdt_def same_pids_def intro!: set_pcb_fields)

lemma only_fdtI:
  assumes "sch k' = sch k" and "kmem k' = kmem k" and "nextpid k' = nextpid k" and "devtable k' = devtable k"
  shows "only_fdt k p k'"
proof -
  have "sch k' = set_pcb (sch k) p (\<lambda>c. c\<lparr>fdt := fdt (proc k p)\<rparr>)" using assms(1) by (simp add: set_pcb_def)
  with assms(2-4) show ?thesis unfolding only_fdt_def by blast
qed

definition opened :: "(nat \<Rightarrow> fdStruct) \<Rightarrow> nat \<Rightarrow> nat \<Rightarrow> nat \<Rightarrow> fdStruct" where
  "opened f i dev = f(i := (f i)\<lparr>status := fd_OPEN, device := Some dev\<rparr>)"

definition closed :: "(nat \<Rightarrow> fdStruct) \<Rightarrow> nat \<Rightarrow> nat \<Rightarrow> fdStruct" where
  "closed f i = f(i := (f i)\<lparr>device := None, status := fd_CLOSE\<rparr>)"

lemma free_fd_range:
  "free_fd c = Some i \<Longrightarrow> i < 4 \<and> status (fdt c i) = fd_CLOSE \<and> (\<forall>j < i. status (fdt c j) \<noteq> fd_CLOSE)"
  by (auto simp: free_fd_def find_Some_iff)

lemma free_fd_eq:
  "free_fd c = (if status (fdt c 0) = 0 then Some 0 else if status (fdt c 1) = 0 then Some 1
     else if status (fdt c 2) = 0 then Some 2 else if status (fdt c 3) = 0 then Some 3 else None)"
  by (simp add: free_fd_def upt_rec numeral_2_eq_2 numeral_3_eq_3)

text \<open>Opening the same device again and again: the values returned, one after the other.\<close>

fun open_run :: "(kernel \<Rightarrow> nat \<Rightarrow> nat \<Rightarrow> u32 \<times> kernel) \<Rightarrow> kernel \<Rightarrow> nat \<Rightarrow> nat \<Rightarrow> nat \<Rightarrow> u32 list" where
  "open_run opn k p d 0 = []"
| "open_run opn k p d (Suc n) = (let (r, k') = opn k p d in r # open_run opn k' p d n)"

locale device_driver =
  fixes opn :: "kernel \<Rightarrow> nat \<Rightarrow> nat \<Rightarrow> u32 \<times> kernel"
    and cls :: "kernel \<Rightarrow> nat \<Rightarrow> u32 \<Rightarrow> u32 \<times> kernel"
  assumes open_free: "free_fd (proc k p) = Some i \<Longrightarrow>
      fst (opn k p d) = of_nat i \<and> fdt (proc (snd (opn k p d)) p) = opened (fdt (proc k p)) i d"
    and open_full: "free_fd (proc k p) = None \<Longrightarrow>
      fst (opn k p d) = - 1 \<and> fdt (proc (snd (opn k p d)) p) = fdt (proc k p)"
    and open_quiet: "only_fdt k p (snd (opn k p d))"
    and close_fd: "fst (cls k p fd) = 0 \<and> fdt (proc (snd (cls k p fd)) p) = closed (fdt (proc k p)) (unat fd)"
    and close_quiet: "only_fdt k p (snd (cls k p fd))"
begin

text \<open>Opening and closing again leaves every descriptor as it was, and the one used free.\<close>

lemma open_close:
  assumes "free_fd (proc k p) = Some i" and "opn k p d = (fd, k1)" and "cls k1 p fd = (r, k2)"
  shows "r = 0 \<and> free_fd (proc k2 p) = Some i \<and> (\<forall>j. j \<noteq> i \<longrightarrow> fdt (proc k2 p) j = fdt (proc k p) j) \<and>
    dataBuffer (fdt (proc k2 p) i) = dataBuffer (fdt (proc k p) i)"
proof -
  note f = free_fd_range [OF assms(1)]
  have o: "fd = of_nat i" "fdt (proc k1 p) = opened (fdt (proc k p)) i d"
    using open_free [OF assms(1), of d] assms(2) by auto
  have "unat fd = i" using f by (simp add: o)
  then have c: "r = 0" "fdt (proc k2 p) = closed (opened (fdt (proc k p)) i d) i"
    using close_fd [of k1 p fd] assms(3) o by auto
  have "free_fd (proc k2 p) = Some i"
    unfolding free_fd_def find_Some_iff using f by (intro exI [of _ i]) (auto simp: c closed_def opened_def)
  with c show ?thesis by (auto simp: closed_def opened_def)
qed

text \<open>A process can hold four descriptors of the device and no more.\<close>

lemma four_opens:
  assumes "\<forall>i < 4. status (fdt (proc k p) i) = fd_CLOSE"
  shows "open_run opn k p d 5 = [0, 1, 2, 3, - 1]"
proof -
  obtain r1 k1 where 1: "opn k p d = (r1, k1)" by fastforce
  obtain r2 k2 where 2: "opn k1 p d = (r2, k2)" by fastforce
  obtain r3 k3 where 3: "opn k2 p d = (r3, k3)" by fastforce
  obtain r4 k4 where 4: "opn k3 p d = (r4, k4)" by fastforce
  obtain r5 k5 where 5: "opn k4 p d = (r5, k5)" by fastforce
  have f: "status (fdt (proc k p) 0) = 0" "status (fdt (proc k p) 1) = 0" "status (fdt (proc k p) 2) = 0"
    "status (fdt (proc k p) 3) = 0" using assms by simp_all
  have o1: "r1 = 0" "fdt (proc k1 p) = opened (fdt (proc k p)) 0 d"
    using open_free [of k p 0 d] 1 f by (auto simp: free_fd_eq)
  have o2: "r2 = 1" "fdt (proc k2 p) = opened (fdt (proc k1 p)) 1 d"
    using open_free [of k1 p 1 d] 2 f by (auto simp: free_fd_eq o1 opened_def)
  have o3: "r3 = 2" "fdt (proc k3 p) = opened (fdt (proc k2 p)) 2 d"
    using open_free [of k2 p 2 d] 3 f by (auto simp: free_fd_eq o1 o2 opened_def)
  have o4: "r4 = 3" "fdt (proc k4 p) = opened (fdt (proc k3 p)) 3 d"
    using open_free [of k3 p 3 d] 4 f by (auto simp: free_fd_eq o1 o2 o3 opened_def)
  have "r5 = - 1" using open_full [of k4 p d] 5 by (simp add: free_fd_eq o1 o2 o3 o4 opened_def)
  with o1 o2 o3 o4 show ?thesis by (simp add: numeral_eq_Suc 1 2 3 4 5)
qed

end

lemma only_fdt_upd: "only_fdt k p (upd k p (\<lambda>c. c\<lparr>fdt := h c\<rparr>))"
  unfolding only_fdt_def by (auto simp: set_pcb_def intro!: exI [of _ "h (proc k p)"])

interpretation zero: device_driver zeroOpen zeroClose
  by unfold_locales
    (auto simp: zeroOpen_def zeroClose_def opened_def closed_def only_fdt_upd only_fdtI split: option.splits)

interpretation rand: device_driver randOpen randClose
  by unfold_locales
    (auto simp: randOpen_def randClose_def opened_def closed_def only_fdt_upd only_fdtI split: option.splits)

section \<open>Reading random bytes\<close>

fun rand_fill :: "lib \<Rightarrow> u32 \<Rightarrow> ram \<Rightarrow> u32 \<Rightarrow> nat \<Rightarrow> nat \<Rightarrow> ram" where
  "rand_fill lb seed m a 0 n = m"
| "rand_fill lb seed m a (Suc r) n = rand_fill lb seed (memset m a (rand_byte lb seed n) 4) (a + 4) r (n + 1)"

lemma randRead_loop_eq:
  assumes "sint len \<le> int j + 4 * int r" and "r = 0 \<or> int j + 4 * int r < sint len + 4" and "j + 4 * r < 2147483648"
  shows "randRead_loop lb seed buff len (of_nat j) br m n =
    Some (of_nat (j + 4 * r), br + 4 * of_nat r, rand_fill lb seed m (buff + of_nat j) r n, n + r)"
  using assms
proof (induction r arbitrary: j br m n)
  case 0
  then show ?case by (subst randRead_loop.simps) (simp add: sint_small)
next
  case (Suc r)
  then have "sint (of_nat j :: u32) < sint len" by (simp add: sint_small)
  then have "randRead_loop lb seed buff len (of_nat j) br m n = randRead_loop lb seed buff len (of_nat (j + 4)) (br + 4)
      (memset m (buff + of_nat j) (rand_byte lb seed n) 4) (n + 1)"
    by (subst randRead_loop.simps) (simp add: add.commute)
  also have "\<dots> = Some (of_nat (j + 4 + 4 * r), br + 4 + 4 * of_nat r,
      rand_fill lb seed (memset m (buff + of_nat j) (rand_byte lb seed n) 4) (buff + of_nat (j + 4)) r (n + 1), n + 1 + r)"
    using Suc.prems by (intro Suc.IH) auto
  finally show ?case by (simp add: algebra_simps)
qed

text \<open>The index is always a multiple of four, so no index reaches a limit above the last multiple of four.\<close>

lemma randRead_loop_diverges:
  assumes "4 dvd unat i" and "2147483644 < sint len"
  shows "randRead_loop lb seed buff len i br m n = None"
proof -
  have "4 dvd unat i \<longrightarrow> 2147483644 < sint len \<longrightarrow> False" if "randRead_loop lb seed buff len i br m n = Some y" for y
    using that
  proof (rule randRead_loop.raw_induct [rotated], goal_cases)
    case (1 loop lb seed buff len i br m n y)
    show ?case
    proof (cases "sint i < sint len")
      case True
      have "4 dvd unat (i + 4)" if "4 dvd unat i"
        using that by (simp add: unat_word_ariths dvd_mod)
      with True 1 show ?thesis by auto
    next
      case False
      have "\<not> 4 dvd unat i" if "2147483644 < sint len"
      proof
        assume d: "4 dvd unat i"
        have "sint i < 2147483648" using sint_lt [of i] by simp
        moreover have "sint i = int (unat i)" using int_unat_sint [of i] False that by simp
        moreover have "2147483644 < sint i" using False that by simp
        ultimately show False using d by presburger
      qed
      with False show ?thesis by blast
    qed
  qed
  with assms show ?thesis by (cases "randRead_loop lb seed buff len i br m n") auto
qed

lemma rand_fill_nth:
  assumes "4 * r \<le> 4294967296"
  shows "rand_fill lb seed m a r n x =
    (if unat (x - a) < 4 * r then rand_byte lb seed (n + unat (x - a) div 4) else m x)"
  using assms
proof (induction r arbitrary: m a n)
  case (Suc r)
  let ?d = "unat (x - a)"
  have ih: "rand_fill lb seed m a (Suc r) n x =
    (if unat (x - (a + 4)) < 4 * r then rand_byte lb seed (n + 1 + unat (x - (a + 4)) div 4)
     else if ?d < 4 then rand_byte lb seed n else m x)"
    using Suc by (simp add: memset_nth)
  show ?case
  proof (cases "?d < 4")
    case True
    have "unat (x - a - 4) = ?d + 4294967296 - 4"
      using unat_sub_if' [of "x - a" 4] True by simp
    then have "\<not> unat (x - (a + 4)) < 4 * r" using Suc.prems True by (simp add: diff_diff_eq)
    with ih True show ?thesis by simp
  next
    case False
    then have "unat (x - a - 4) = ?d - 4" using unat_sub [of 4 "x - a"] by (simp add: word_le_nat_alt)
    then have u: "unat (x - (a + 4)) = ?d - 4" by (simp add: diff_diff_eq)
    have "?d div 4 = Suc ((?d - 4) div 4)" using False by (simp add: le_div_geq)
    with ih u False show ?thesis by (simp add: less_diff_conv2)
  qed
qed simp

section \<open>Properties\<close>

text \<open>
  C28. Reading the random device. A read of \<open>bufflen \<ge> 0\<close> bytes draws one value of the generator for
  every four bytes begun, fills the buffer four equal bytes at a time, and returns the number of
  bytes it wrote: \<open>bufflen\<close> rounded up to a multiple of four. All other memory is as before; but when
  \<open>bufflen\<close> is not a multiple of four up to three bytes after the buffer are overwritten, as the loop
  never leaves anything for the tail after it. A negative length reads nothing. For the three lengths
  above 2147483644, the last multiple of four an \<open>int\<close> holds, the index overflows and the loop never ends.
\<close>

theorem randRead_spec:
  "randRead lb k p fd buff bufflen =
    (if 2147483644 < sint bufflen then Inl Diverge
     else if sint bufflen < 0 then Inr (0, k)
     else let r = (unat bufflen + 3) div 4 in
       Inr (of_nat (4 * r), k\<lparr>ram := (\<lambda>x. if unat (x - buff) < 4 * r
           then rand_byte lb (rseed k) (rcalls k + unat (x - buff) div 4) else ram k x),
         rcalls := rcalls k + r\<rparr>))"
proof -
  consider "2147483644 < sint bufflen" | "sint bufflen < 0" | "0 \<le> sint bufflen" "sint bufflen \<le> 2147483644" by linarith
  then show ?thesis
  proof cases
    case 1
    then show ?thesis by (simp add: randRead_def randRead_loop_diverges)
  next
    case 2
    then show ?thesis using randRead_loop_eq [of bufflen 0 0] by (simp add: randRead_def)
  next
    case 3
    define r where "r = (unat bufflen + 3) div 4"
    have s: "sint bufflen = int (unat bufflen)" using int_unat_sint [of bufflen] 3 by simp
    have b: "unat bufflen \<le> 4 * r" "r = 0 \<or> 4 * r < unat bufflen + 4" unfolding r_def by presburger+
    then have b': "sint bufflen \<le> int 0 + 4 * int r" "r = 0 \<or> int 0 + 4 * int r < sint bufflen + 4"
      unfolding s by linarith+
    have l: "0 + 4 * r < 2147483648" using 3(2) unfolding s r_def by presburger
    then have fill: "rand_fill lb (rseed k) (ram k) buff r (rcalls k) = (\<lambda>x.
       if unat (x - buff) < 4 * r then rand_byte lb (rseed k) (rcalls k + unat (x - buff) div 4) else ram k x)"
      by (intro ext rand_fill_nth) simp
    have "randRead_loop lb (rseed k) buff bufflen 0 0 (ram k) (rcalls k) =
      Some (of_nat (4 * r), 4 * of_nat r, rand_fill lb (rseed k) (ram k) buff r (rcalls k), rcalls k + r)"
      using randRead_loop_eq [OF b' l, of lb "rseed k" buff 0 "ram k" "rcalls k"] by simp
    moreover have "sint (of_nat (4 * r) :: u32) = int (4 * r)" using l by (intro sint_small) simp
    then have "\<not> sint (of_nat (4 * r) :: u32) < sint bufflen" using b'(1) by simp
    ultimately show ?thesis using 3 by (simp add: randRead_def fill flip: r_def)
  qed
qed

text \<open>
  Reading the zero device fills exactly the \<open>bufflen\<close> bytes from the buffer's address on with
  zeros, wrapping around the end of the address space, and returns \<open>bufflen\<close>.
\<close>

theorem zeroRead_spec:
  "zeroRead k p fd buff bufflen = (r, k') \<longleftrightarrow> r = bufflen \<and>
     ram k' = (\<lambda>x. if unat (x - buff) < unat bufflen then 0 else ram k x) \<and>
     k' = (upd k p (\<lambda>c. c\<lparr>fdt := (fdt c)(unat fd := (fdt c (unat fd))\<lparr>dataBuffer := 0\<rparr>)\<rparr>))\<lparr>ram := ram k'\<rparr>"
proof -
  have m: "memset (ram k) buff 0 (unat bufflen) = (\<lambda>x. if unat (x - buff) < unat bufflen then 0 else ram k x)"
    using unat_u32_less [of bufflen] by (intro ext memset_nth) simp
  let ?k = "upd (k\<lparr>ram := memset (ram k) buff 0 (unat bufflen)\<rparr>) p
    (\<lambda>c. c\<lparr>fdt := (fdt c)(unat fd := (fdt c (unat fd))\<lparr>dataBuffer := 0\<rparr>)\<rparr>)"
  have "?k = (upd k p (\<lambda>c. c\<lparr>fdt := (fdt c)(unat fd := (fdt c (unat fd))\<lparr>dataBuffer := 0\<rparr>)\<rparr>))
      \<lparr>ram := (\<lambda>x. if unat (x - buff) < unat bufflen then 0 else ram k x)\<rparr>"
    unfolding m by (simp add: upd_def)
  then show ?thesis by (auto simp: zeroRead_def Let_def)
qed

end
