(* ===== verification/Keyboard.thy ===== *)
theory Keyboard
  imports Devices
begin

unbundle bit_operations_syntax

text \<open>
  The keyboard driver, \<open>c/kbd.c\<close>: the translation of scan codes, the interrupt handler and the upper
  half. The two values the handler reads from the controller's ports are arguments. \<open>enable_irq\<close> sets
  or clears the keyboard's line, \<open>irq_on\<close>; characters printed for echo go to \<open>console\<close>.
\<close>

section \<open>Operations\<close>

definition KEY_UP :: u8 where [simp]: "KEY_UP = 0x80"
definition LSHIFT :: u8 where [simp]: "LSHIFT = 0x2a"
definition RSHIFT :: u8 where [simp]: "RSHIFT = 0x36"
definition LMETA :: u8 where [simp]: "LMETA = 0x38"
definition LCTL :: u8 where [simp]: "LCTL = 0x1d"
definition CAPSL :: u8 where [simp]: "CAPSL = 0x3a"
definition INCTL :: u32 where [simp]: "INCTL = 0x01"
definition INSHIFT :: u32 where [simp]: "INSHIFT = 0x02"
definition CAPSLOCK :: u32 where [simp]: "CAPSLOCK = 0x04"
definition INMETA :: u32 where [simp]: "INMETA = 0x08"
definition EXTENDED :: u32 where [simp]: "EXTENDED = 0x10"
definition EXTESC :: u8 where [simp]: "EXTESC = 0xe0"
definition NOCHAR :: u32 where [simp]: "NOCHAR = 256"

definition kbcode :: "u8 list" where
  "kbcode = [0, 27, 49, 50, 51, 52, 53, 54, 55, 56, 57, 48, 45, 61, 8, 9,
     113, 119, 101, 114, 116, 121, 117, 105, 111, 112, 91, 93, 10, 0, 97, 115,
     100, 102, 103, 104, 106, 107, 108, 59, 39, 96, 0, 92, 122, 120, 99, 118,
     98, 110, 109, 44, 46, 47, 0, 0, 0, 32]"

definition kbshift :: "u8 list" where
  "kbshift = [0, 0, 33, 64, 35, 36, 37, 94, 38, 42, 40, 41, 95, 43, 8, 9,
     81, 87, 69, 82, 84, 89, 85, 73, 79, 80, 123, 125, 10, 0, 65, 83,
     68, 70, 71, 72, 74, 75, 76, 58, 34, 126, 0, 124, 90, 88, 67, 86,
     66, 78, 77, 60, 62, 63, 0, 0, 0, 32]"

definition kbctl :: "u8 list" where
  "kbctl = [0, 0, 0, 0, 0, 0, 0, 0, 0, 0, 0, 0, 31, 0, 8, 9,
     17, 23, 5, 18, 20, 25, 21, 9, 15, 16, 27, 29, 10, 0, 1, 19,
     4, 6, 7, 8, 10, 11, 12, 0, 0, 0, 0, 28, 26, 24, 3, 22,
     2, 14, 13]"

definition tab_at :: "u8 list \<Rightarrow> u8 \<Rightarrow> u32 kres" where
  "tab_at xs c = (if unat c < length xs then Inr (ucast (xs ! unat c)) else Inl OutOfBounds)"

definition extchar :: "u32 \<Rightarrow> u8 \<Rightarrow> u32 \<times> u32" where
  "extchar st code = (NOCHAR, st AND NOT EXTENDED)"

text \<open>A key is released.\<close>

definition kbtoa_up :: "u32 \<Rightarrow> u8 \<Rightarrow> u32" where
  "kbtoa_up st code =
    (let c = code AND 0x7f in
     if c = LSHIFT \<or> c = RSHIFT then st AND NOT INSHIFT
     else if c = CAPSL then st AND NOT CAPSLOCK
     else if c = LCTL then st AND NOT INCTL
     else if c = LMETA then st AND NOT INMETA
     else st)"

text \<open>A special key is pressed: the new state, or \<open>None\<close> for an ordinary key.\<close>

definition kbtoa_special :: "u32 \<Rightarrow> u8 \<Rightarrow> u32 option" where
  "kbtoa_special st code =
    (if code = LSHIFT \<or> code = RSHIFT then Some (st OR INSHIFT)
     else if code = CAPSL then Some (st OR CAPSLOCK)
     else if code = LCTL then Some (st OR INCTL)
     else if code = LMETA then Some (st OR INMETA)
     else if code = EXTESC then Some (st OR EXTENDED)
     else None)"

text \<open>An ordinary key is pressed.\<close>

definition kbtoa_char :: "u32 \<Rightarrow> u8 \<Rightarrow> u32 kres" where
  "kbtoa_char st code =
    (case (if unat code < length kbcode
           then (if st AND CAPSLOCK \<noteq> 0 then tab_at kbshift code else tab_at kbcode code)
           else Inr NOCHAR) of
       Inl e \<Rightarrow> Inl e
     | Inr ch1 \<Rightarrow>
         if st AND INSHIFT \<noteq> 0 \<and> length kbshift \<le> unat code then Inr NOCHAR
         else (case (if st AND INSHIFT \<noteq> 0
                     then (if st AND CAPSLOCK \<noteq> 0 then tab_at kbcode code else tab_at kbshift code)
                     else Inr ch1) of
                 Inl e \<Rightarrow> Inl e
               | Inr ch2 \<Rightarrow>
                   if st AND INCTL \<noteq> 0 \<and> length kbctl \<le> unat code then Inr NOCHAR
                   else (case (if st AND INCTL \<noteq> 0 then tab_at kbctl code else Inr ch2) of
                           Inl e \<Rightarrow> Inl e
                         | Inr ch3 \<Rightarrow> Inr (if st AND INMETA \<noteq> 0 then ch3 + 0x80 else ch3))))"

definition kbtoa :: "u32 \<Rightarrow> u8 \<Rightarrow> (u32 \<times> u32) kres" where
  "kbtoa st code =
    (if st AND EXTENDED \<noteq> 0 then Inr (extchar st code)
     else if code AND KEY_UP \<noteq> 0 then Inr (NOCHAR, kbtoa_up st code)
     else case kbtoa_special st code of
            Some st' \<Rightarrow> Inr (NOCHAR, st')
          | None \<Rightarrow> (case kbtoa_char st code of Inl e \<Rightarrow> Inl e | Inr ch \<Rightarrow> Inr (ch, st)))"

definition set_kbd :: "kernel \<Rightarrow> (kbdstate \<Rightarrow> kbdstate) \<Rightarrow> kernel" where
  "set_kbd k f = k\<lparr>kbd := f (kbd k)\<rparr>"

definition kbdOpen :: "kernel \<Rightarrow> nat \<Rightarrow> nat \<Rightarrow> u32 \<times> kernel" where
  "kbdOpen k p dev =
    (case free_fd (proc k p) of
       Some i \<Rightarrow>
         (of_nat i, set_kbd (upd k p (\<lambda>c. c\<lparr>fdt := (fdt c)(i := (fdt c i)\<lparr>status := fd_OPEN, device := Some dev\<rparr>)\<rparr>))
            (\<lambda>b. b\<lparr>irq_on := True\<rparr>))
     | None \<Rightarrow> (- 1, k))"

definition kbdClose :: "kernel \<Rightarrow> nat \<Rightarrow> u32 \<Rightarrow> u32 \<times> kernel" where
  "kbdClose k p fd =
    (0, upd (set_kbd k (\<lambda>b. b\<lparr>echo := ECHO_ON, irq_on := False\<rparr>)) p
       (\<lambda>c. c\<lparr>fdt := (fdt c)(unat fd := (fdt c (unat fd))\<lparr>device := None, status := fd_CLOSE\<rparr>)\<rparr>))"

text \<open>The first empty cell of the buffer gets the end-of-file character, whatever was typed.\<close>

definition kbd_put :: "kbdstate \<Rightarrow> kbdstate" where
  "kbd_put b =
    (case find (\<lambda>i. kbdbuff b i = 0) [0..<4] of
       Some i \<Rightarrow> b\<lparr>kbdbuff := (kbdbuff b)(i := ucast (eof b))\<rparr>
     | None \<Rightarrow> b)"

definition kbdHandler :: "kernel \<Rightarrow> nat \<Rightarrow> u8 \<Rightarrow> u8 \<Rightarrow> kernel kres" where
  "kbdHandler k p port64 port60 =
    (if port64 AND 0x01 \<noteq> 0 then
       (case kbtoa (kstate (kbd k)) port60 of
          Inl e \<Rightarrow> Inl e
        | Inr (asciiCode, st) \<Rightarrow>
            let k1 = set_kbd k (\<lambda>b. b\<lparr>kstate := st\<rparr>) in
            if asciiCode = eof (kbd k1) then Inr (snd (kbdClose (set_kbd k1 kbd_put) p 0))
            else if asciiCode = 0x09 then
              Inr (set_kbd k1 (\<lambda>b. b\<lparr>echo := (if echo b = 0 then 1 else 0)\<rparr>))
            else
              let k2 = set_kbd k1 kbd_put
              in Inr (if echo (kbd k2) \<noteq> 0 then k2\<lparr>console := console k2 @ [ucast asciiCode]\<rparr> else k2))
     else Inr k)"

text \<open>
  \<open>kbdRead\<close>: every branch of its loop for a cell that is not empty ends the loop, so that only the
  first such cell matters. A \<open>char\<close> is signed when it is compared with \<open>eof\<close>. The copy to the
  descriptor's \<open>dataBuffer\<close> comes after the cell has been cleared; that pointer is NULL, and the byte, a zero by then, is
  stored at address 0, as there is no paging.
\<close>

definition kbdRead :: "kernel \<Rightarrow> nat \<Rightarrow> u32 \<Rightarrow> u32 \<Rightarrow> u32 \<Rightarrow> u32 \<times> kernel" where
  "kbdRead k p fd buff bufflen =
    (case find (\<lambda>i. kbdbuff (kbd k) i \<noteq> 0) [0..<4] of
       None \<Rightarrow> (- 1, k)
     | Some i \<Rightarrow>
         let c = kbdbuff (kbd k) i;
             k1 = set_kbd (k\<lparr>ram := (ram k)(buff := c)\<rparr>) (\<lambda>b. b\<lparr>kbdbuff := (kbdbuff b)(i := 0)\<rparr>)
         in if (scast c :: u32) = eof (kbd k) then
              let k2 = snd (kbdClose k1 p fd) in (1, k2\<lparr>sch := ready (sch k2) p\<rparr>)
            else if c = 0x0D then (0, k)
            else
              let k2 = k1\<lparr>ram := (ram k1)(dataBuffer (fdt (proc k1 p) (unat fd)) := kbdbuff (kbd k1) i)\<rparr>
              in (- 3, upd k2 p (\<lambda>q. q\<lparr>state := STATE_BLOCKED\<rparr>)))"

definition kbdWrite :: "kernel \<Rightarrow> nat \<Rightarrow> u32 \<Rightarrow> u32 \<Rightarrow> u32 \<Rightarrow> u32 \<times> kernel" where
  "kbdWrite k p fd buff bufflen = (- 1, k)"

definition kbdIoctl :: "kernel \<Rightarrow> u32 \<Rightarrow> u32 \<Rightarrow> u32 \<Rightarrow> u32 \<times> kernel" where
  "kbdIoctl k fd command arg3 =
    (if command = 53 then (0, set_kbd k (\<lambda>b. b\<lparr>eof := arg3\<rparr>))
     else if command = 55 then (0, set_kbd k (\<lambda>b. b\<lparr>echo := ECHO_OFF\<rparr>))
     else if command = 56 then (0, set_kbd k (\<lambda>b. b\<lparr>echo := ECHO_ON\<rparr>))
     else (- 1, k))"

section \<open>The driver as a device\<close>

lemma set_kbd_simps [simp]:
  "sch (set_kbd k f) = sch k" "kmem (set_kbd k f) = kmem k" "nextpid (set_kbd k f) = nextpid k"
  "ram (set_kbd k f) = ram k" "devtable (set_kbd k f) = devtable k" "kbd (set_kbd k f) = f (kbd k)"
  "rseed (set_kbd k f) = rseed k" "rcalls (set_kbd k f) = rcalls k" "console (set_kbd k f) = console k"
  by (simp_all add: set_kbd_def)

lemma only_fdt_set_kbd [simp]: "only_fdt k p (set_kbd k' f) = only_fdt k p k'" "only_fdt (set_kbd k f) p k' = only_fdt k p k'"
  by (simp_all add: only_fdt_def)

interpretation kbdev: device_driver kbdOpen kbdClose
  by unfold_locales
    (auto simp: kbdOpen_def kbdClose_def opened_def closed_def only_fdtI split: option.splits,
     auto simp: only_fdt_def set_pcb_def)

section \<open>Properties\<close>

lemma tab_lengths [simp]: "length kbcode = 58" "length kbshift = 58" "length kbctl = 51"
  by (simp_all add: kbcode_def kbshift_def kbctl_def)

lemma ucast_u8_less: "(ucast (x :: u8) :: u32) < 256"
proof -
  have "unat x < 2 ^ LENGTH(8)" by (rule unsigned_less)
  moreover have "uint (ucast x :: u32) = uint x" by (rule uint_up_ucast) (simp add: is_up)
  then have "unat (ucast x :: u32) = unat x" by (simp flip: nat_uint_eq)
  ultimately show ?thesis by (simp add: word_less_nat_alt)
qed

lemma tab_at_ok: "unat c < length xs \<Longrightarrow> \<exists>ch. tab_at xs c = Inr ch \<and> ch \<le> 256"
  using ucast_u8_less [THEN order_less_imp_le] by (simp add: tab_at_def)

lemma meta_bound: "ch \<le> (256 :: u32) \<Longrightarrow> ch + 0x80 < 512"
proof -
  assume "ch \<le> 256"
  then have "unat ch \<le> 256" by (simp add: word_le_nat_alt)
  then show ?thesis by (simp add: word_less_nat_alt unat_word_ariths)
qed

lemma kbtoa_char_ok: "\<exists>ch. kbtoa_char st code = Inr ch \<and> ch < 512"
proof -
  define ch1 where "ch1 = (if unat code < length kbcode
           then (if st AND CAPSLOCK \<noteq> 0 then tab_at kbshift code else tab_at kbcode code) else Inr NOCHAR)"
  obtain c1 where c1: "ch1 = Inr c1" "c1 \<le> 256"
    using tab_at_ok [of code kbshift] tab_at_ok [of code kbcode]
    by (cases "unat code < 58"; cases "st AND CAPSLOCK = 0") (auto simp: ch1_def)
  define ch2 where "ch2 = (if st AND INSHIFT \<noteq> 0
     then (if st AND CAPSLOCK \<noteq> 0 then tab_at kbcode code else tab_at kbshift code) else Inr c1)"
  define ch3 where "ch3 c = (if st AND INCTL \<noteq> 0 then tab_at kbctl code else Inr c)" for c
  have 3: "\<exists>d. ch3 c = Inr d \<and> d \<le> 256" if "c \<le> 256" "\<not> (st AND INCTL \<noteq> 0 \<and> length kbctl \<le> unat code)" for c
    using that tab_at_ok [of code kbctl] by (cases "st AND INCTL = 0") (auto simp: ch3_def)
  have eq: "kbtoa_char st code = (if st AND INSHIFT \<noteq> 0 \<and> length kbshift \<le> unat code then Inr NOCHAR
      else (case ch2 of Inl e \<Rightarrow> Inl e | Inr c2 \<Rightarrow>
        if st AND INCTL \<noteq> 0 \<and> length kbctl \<le> unat code then Inr NOCHAR
        else (case ch3 c2 of Inl e \<Rightarrow> Inl e | Inr d \<Rightarrow> Inr (if st AND INMETA \<noteq> 0 then d + 0x80 else d))))"
    unfolding kbtoa_char_def ch1_def [symmetric] c1 by (simp only: sum.case ch2_def ch3_def)
  show ?thesis
  proof (cases "st AND INSHIFT \<noteq> 0 \<and> length kbshift \<le> unat code")
    case False
    then obtain c2 where c2: "ch2 = Inr c2" "c2 \<le> 256"
      using c1(2) tab_at_ok [of code kbshift] tab_at_ok [of code kbcode]
      by (cases "st AND INSHIFT = 0"; cases "st AND CAPSLOCK = 0") (auto simp: ch2_def)
    show ?thesis
    proof (cases "st AND INCTL \<noteq> 0 \<and> length kbctl \<le> unat code")
      case n: False
      with 3 [OF c2(2)] obtain d where d: "ch3 c2 = Inr d" "d \<le> 256" by blast
      then have "d < 512" by (simp add: word_less_nat_alt word_le_nat_alt)
      with eq False n c2(1) d meta_bound [OF d(2)] show ?thesis by (cases "st AND INMETA = 0") auto
    qed (use eq False c2(1) in simp)
  qed (use eq in simp)
qed

lemma kbtoa_ok: "\<exists>ch st'. kbtoa st code = Inr (ch, st') \<and> ch < 512"
  using kbtoa_char_ok [of st code] by (auto simp: kbtoa_def extchar_def split: option.splits)

text \<open>
  C29. The scan code tables are never read out of bounds: for every state of the modifier keys and
  every byte the keyboard can send, \<open>kbtoa\<close> returns a character code below 512 and a new state.
\<close>

theorem kbtoa_in_bounds: "\<exists>ch st'. kbtoa st code = Inr (ch, st') \<and> ch < 512"
  by (rule kbtoa_ok)

text \<open>A sequence of scan codes.\<close>

fun kbtoa_seq :: "u32 \<Rightarrow> u8 list \<Rightarrow> (u32 list \<times> u32) kres" where
  "kbtoa_seq st [] = Inr ([], st)"
| "kbtoa_seq st (c # cs) =
    (case kbtoa st c of Inl e \<Rightarrow> Inl e
     | Inr (ch, st') \<Rightarrow> (case kbtoa_seq st' cs of Inl e \<Rightarrow> Inl e | Inr (chs, st'') \<Rightarrow> Inr (ch # chs, st'')))"

lemma key_down: "unat (c :: u8) < 128 \<Longrightarrow> c AND 0x80 = 0"
proof (rule bit_word_eqI)
  fix n assume c: "unat c < 128"
  have "\<not> bit c 7"
  proof
    assume "bit c 7"
    then have "bit (unat c) 7" by (simp add: bit_unsigned_iff)
    then have "odd (unat c div 2 ^ 7)" by (simp add: bit_iff_odd)
    with c show False by simp
  qed
  moreover have "bit (0x80 :: u8) n \<longleftrightarrow> n = 7"
  proof -
    have "(0x80 :: u8) = push_bit 7 1" by simp
    then show ?thesis by (simp only: bit_push_bit_iff) (auto simp: bit_1_iff)
  qed
  ultimately show "bit (c AND 0x80) n = bit 0 n" by (auto simp: bit_simps)
qed

text \<open>
  Typing with shift, control or neither held: starting with no modifier down, pressing an ordinary
  key, pressing it while shift is held and while control is held give the entries of the three tables,
  and letting go of the modifier brings back the initial state.
\<close>

theorem modifiers_select_tables:
  assumes "unat c < 51" and "c \<notin> {LSHIFT, RSHIFT, CAPSL, LCTL, LMETA}"
  shows "kbtoa_seq 0 [c, LSHIFT, c, LSHIFT OR KEY_UP, LCTL, c, LCTL OR KEY_UP] =
    Inr ([ucast (kbcode ! unat c), NOCHAR, ucast (kbshift ! unat c), NOCHAR, NOCHAR, ucast (kbctl ! unat c), NOCHAR], 0)"
proof -
  have "c AND 0x80 = 0" using key_down [of c] assms(1) by simp
  moreover have "c \<noteq> EXTESC" using assms(1) by auto
  ultimately show ?thesis using assms
    by (simp add: kbtoa_def kbtoa_special_def kbtoa_char_def kbtoa_up_def tab_at_def)
qed

theorem modifiers_select_tables_witness:
  "kbtoa_seq 0 [0x1e, LSHIFT, 0x1e, LSHIFT OR KEY_UP, LCTL, 0x1e, LCTL OR KEY_UP] =
     Inr ([97, NOCHAR, 65, NOCHAR, NOCHAR, 1, NOCHAR], 0)"
  using modifiers_select_tables [of "0x1e"] by (simp add: kbcode_def kbshift_def kbctl_def)

text \<open>
  The extended-code escape is never recognised: its top bit makes it look like the release of a
  key, so that from a state outside the extended mode the driver never enters it.
\<close>

theorem extended_never_entered:
  assumes "st AND EXTENDED = 0" and "kbtoa st code = Inr (ch, st')"
  shows "st' AND EXTENDED = 0"
proof -
  have off: "(st AND m) AND 16 = 0" for m
  proof -
    have "(st AND m) AND 16 = (st AND 16) AND m" by (simp only: and.assoc and.commute [of m])
    with assms(1) show ?thesis by simp
  qed
  have on: "(st OR m) AND 16 = 0" if "m AND 16 = 0" for m
    using assms(1) that by (simp add: bit.conj_disj_distrib2)
  show ?thesis using assms
    by (auto simp: kbtoa_def kbtoa_up_def kbtoa_special_def Let_def off on
        split: if_splits option.splits sum.splits)
qed

theorem extended_never_entered_witness: "\<exists>ch st'. kbtoa 0 EXTESC = Inr (ch, st') \<and> st' AND EXTENDED = 0"
proof -
  obtain ch st' where "kbtoa 0 EXTESC = Inr (ch, st')" using kbtoa_ok [of 0 EXTESC] by blast
  with extended_never_entered [of 0 EXTESC] show ?thesis by simp
qed

text \<open>
  C30. What is typed is lost: when a character other than the end-of-file character and tab arrives
  and the buffer has room, the cell that is filled holds the end-of-file character instead of it.
\<close>

theorem typed_character_lost:
  assumes "port64 AND 1 \<noteq> 0" and "kbtoa (kstate (kbd k)) code = Inr (ch, st)" and "ch \<noteq> eof (kbd k)" and "ch \<noteq> 9"
    and "find (\<lambda>i. kbdbuff (kbd k) i = 0) [0..<4] = Some i"
  shows "\<exists>k'. kbdHandler k p port64 code = Inr k' \<and> kbdbuff (kbd k') = (kbdbuff (kbd k))(i := ucast (eof (kbd k)))"
  using assms by (auto simp: kbdHandler_def kbd_put_def Let_def)

theorem typed_character_lost_witness:
  "\<exists>k'. kbdHandler (image (\<lambda>_. 0) (hdrs raw_mem)) 1 1 0x1e = Inr k' \<and> kbdbuff (kbd k') 0 = 4"
proof -
  let ?k = "image (\<lambda>_. 0) (hdrs raw_mem)"
  have "kbtoa (kstate (kbd ?k)) 0x1e = Inr (97, 0)"
    by (simp add: image_def kbd_image_def kbtoa_def kbtoa_special_def kbtoa_char_def tab_at_def kbcode_def)
  moreover have "find (\<lambda>i. kbdbuff (kbd ?k) i = 0) [0..<4] = Some 0"
    by (simp add: image_def kbd_image_def upt_rec)
  ultimately show ?thesis
    using typed_character_lost [of 1 ?k "0x1e" 97 0 0 1] by (auto simp: image_def kbd_image_def)
qed

section \<open>Interrupts, reads and the scheduler\<close>

lemma kbdHandler_sched:
  "\<exists>k'. kbdHandler k p a b = Inr k' \<and> only_fdt k p k'"
proof (cases "a AND 1 \<noteq> 0")
  case True
  obtain ch st where kt: "kbtoa (kstate (kbd k)) b = Inr (ch, st)"
    using kbtoa_ok [of "kstate (kbd k)" b] by blast
  let ?k = "set_kbd (set_kbd k (\<lambda>b. b\<lparr>kstate := st\<rparr>)) kbd_put"
  show ?thesis
    using True kt kbdev.close_quiet [of ?k p 0] by (auto simp: kbdHandler_def Let_def only_fdtI)
next
  case False
  then show ?thesis by (simp add: kbdHandler_def only_fdtI)
qed

text \<open>The character a read finds first.\<close>

definition kbd_first :: "kernel \<Rightarrow> u8 option" where
  "kbd_first k = map_option (kbdbuff (kbd k)) (find (\<lambda>i. kbdbuff (kbd k) i \<noteq> 0) [0..<4])"

lemma kbdRead_sched:
  assumes "\<forall>c. kbd_first k = Some c \<longrightarrow> (scast c :: u32) \<noteq> eof (kbd k)" and "kbdRead k p fd buff n = (r, k')"
  shows "(if r = - 3 then sch k' = set_pcb (sch k) p (\<lambda>q. q\<lparr>state := STATE_BLOCKED\<rparr>) else sch k' = sch k) \<and>
    kmem k' = kmem k \<and> nextpid k' = nextpid k \<and> devtable k' = devtable k"
  using assms by (auto simp: kbdRead_def kbd_first_def Let_def split: option.splits if_splits)

text \<open>
  A read that meets the end-of-file character puts the running process on the ready queue while
  it goes on running: afterwards the running process is queued, so that it is scheduled a second time.
\<close>

theorem kbdRead_eof_requeues:
  assumes "run_ok (sch k) p" and "kbd_first k = Some c" and "(scast c :: u32) = eof (kbd k)"
    and "kbdRead k p fd buff n = (r, k')"
  shows "r = 1 \<and> readyq (sch k') = readyq (sch k) @ [p] \<and> \<not> run_ok (sch k') p"
proof -
  obtain i where i: "find (\<lambda>i. kbdbuff (kbd k) i \<noteq> 0) [0..<4] = Some i" "c = kbdbuff (kbd k) i"
    using assms(2) by (auto simp: kbd_first_def)
  let ?k1 = "set_kbd (k\<lparr>ram := (ram k)(buff := c)\<rparr>) (\<lambda>b. b\<lparr>kbdbuff := (kbdbuff b)(i := 0)\<rparr>)"
  let ?k2 = "snd (kbdClose ?k1 p fd)"
  have e: "r = 1" "sch k' = ready (sch ?k2) p" using assms(3,4) i by (auto simp: kbdRead_def Let_def)
  note r = run_okD [OF assms(1)]
  have "same_queues (sch k) (sch ?k2)" using only_fdt_sched(1) [OF kbdev.close_quiet, of ?k1 p fd] r(1) by simp
  with r have q: "readyq (sch k') = readyq (sch k) @ [p]"
    using ready_sched(2) [of "sch ?k2" p] by (simp add: e same_queues_def)
  with e show ?thesis by (simp add: run_ok_def)
qed

definition eof_waiting :: kernel where
  "eof_waiting = set_kbd (upd (image (\<lambda>_. 0) (hdrs raw_mem)) 1 (\<lambda>c. c\<lparr>state := STATE_READY\<rparr>))
     (\<lambda>b. b\<lparr>kbdbuff := (\<lambda>_. 4)\<rparr>)"

theorem kbdRead_eof_requeues_witness:
  "\<exists>k'. kbdRead eof_waiting 1 0 0x30000 4 = (1, k') \<and> \<not> run_ok (sch k') 1"
proof -
  have b: "sch (image (\<lambda>_. 0) (hdrs raw_mem)) = boot_sched"
    by (simp add: image_def boot_sched_def dispatchinit_def)
  have "same_queues boot_sched (sch eof_waiting)"
    unfolding eof_waiting_def set_kbd_simps upd_simps b using boot_sched_ok by (intro set_pcb_outside) auto
  then have "run_ok (sch eof_waiting) 1"
    using boot_sched_ok by (simp add: run_ok_def same_queues_def) (simp add: eof_waiting_def)
  moreover have "kbd_first eof_waiting = Some 4" "(scast (4 :: u8) :: u32) = eof (kbd eof_waiting)"
    by (simp_all add: kbd_first_def eof_waiting_def upt_rec image_def kbd_image_def)
  moreover obtain r k' where "kbdRead eof_waiting 1 0 0x30000 4 = (r, k')" by fastforce
  ultimately show ?thesis using kbdRead_eof_requeues [of eof_waiting 1 4 0 "0x30000" 4 r k'] by auto
qed

end
