(* ===== verification/Di_Calls.thy ===== *)
theory Di_Calls
  imports Keyboard
begin

text \<open>
  The device independent interface, \<open>c/di_calls.c\<close>: from a device number or a descriptor to the
  routine of a driver. Calling through a NULL pointer, a device or a routine, is a fault; with the
  device table as \<open>init.c\<close> fills it and well-formed descriptors that never happens.
\<close>

section \<open>Operations\<close>

text \<open>A call through a function pointer of the device table.\<close>

fun call_open :: "driver \<Rightarrow> kernel \<Rightarrow> nat \<Rightarrow> nat \<Rightarrow> u32 \<times> kernel" where
  "call_open ZeroDrv = zeroOpen" | "call_open RandDrv = randOpen" | "call_open KbdDrv = kbdOpen"

fun call_close :: "driver \<Rightarrow> kernel \<Rightarrow> nat \<Rightarrow> u32 \<Rightarrow> u32 \<times> kernel" where
  "call_close ZeroDrv = zeroClose" | "call_close RandDrv = randClose" | "call_close KbdDrv = kbdClose"

fun call_read :: "driver \<Rightarrow> lib \<Rightarrow> kernel \<Rightarrow> nat \<Rightarrow> u32 \<Rightarrow> u32 \<Rightarrow> u32 \<Rightarrow> (u32 \<times> kernel) kres" where
  "call_read ZeroDrv lb k p fd buff bufflen = Inr (zeroRead k p fd buff bufflen)"
| "call_read RandDrv lb k p fd buff bufflen = randRead lb k p fd buff bufflen"
| "call_read KbdDrv lb k p fd buff bufflen = Inr (kbdRead k p fd buff bufflen)"

fun call_write :: "driver \<Rightarrow> kernel \<Rightarrow> nat \<Rightarrow> u32 \<Rightarrow> u32 \<Rightarrow> u32 \<Rightarrow> u32 \<times> kernel" where
  "call_write ZeroDrv = zeroWrite" | "call_write RandDrv = randWrite" | "call_write KbdDrv = kbdWrite"

fun call_ioctl :: "driver \<Rightarrow> kernel \<Rightarrow> u32 \<Rightarrow> u32 \<Rightarrow> u32 \<Rightarrow> u32 \<times> kernel" where
  "call_ioctl ZeroDrv = zeroIoctl" | "call_ioctl RandDrv = randIoctl" | "call_ioctl KbdDrv = kbdIoctl"

definition di_open :: "kernel \<Rightarrow> nat \<Rightarrow> u32 \<Rightarrow> (u32 \<times> kernel) kres" where
  "di_open k p device_no =
    (case find (\<lambda>i. dvnum (devtable k i) = device_no) [0..<MAX_DEV] of
       Some i \<Rightarrow> (case dvopen (devtable k i) of None \<Rightarrow> Inl NullDeref | Some d \<Rightarrow> Inr (call_open d k p i))
     | None \<Rightarrow> Inr (- 1, k))"

text \<open>The check the four other calls share, and the routine of the descriptor's device.\<close>

definition bad_fd :: "kernel \<Rightarrow> nat \<Rightarrow> u32 \<Rightarrow> bool" where
  "bad_fd k p fd \<longleftrightarrow> sint fd < 0 \<or> 3 < sint fd \<or> status (fdt (proc k p) (unat fd)) = fd_CLOSE"

definition fd_routine :: "(devsw \<Rightarrow> driver option) \<Rightarrow> kernel \<Rightarrow> nat \<Rightarrow> u32 \<Rightarrow> driver kres" where
  "fd_routine dv k p fd =
    (case device (fdt (proc k p) (unat fd)) of
       None \<Rightarrow> Inl NullDeref
     | Some i \<Rightarrow> (case dv (devtable k i) of None \<Rightarrow> Inl NullDeref | Some d \<Rightarrow> Inr d))"

definition di_close :: "kernel \<Rightarrow> nat \<Rightarrow> u32 \<Rightarrow> (u32 \<times> kernel) kres" where
  "di_close k p fd =
    (if bad_fd k p fd then Inr (- 1, k)
     else case fd_routine dvclose k p fd of Inl e \<Rightarrow> Inl e | Inr d \<Rightarrow> Inr (call_close d k p fd))"

definition di_read :: "platform \<Rightarrow> lib \<Rightarrow> kernel \<Rightarrow> nat \<Rightarrow> u32 \<Rightarrow> u32 \<Rightarrow> u32 \<Rightarrow> (u32 \<times> kernel) kres" where
  "di_read pl lb k p fd buff bufflen =
    (if bad_fd k p fd then Inr (- 1, k)
     else if bad_addr pl buff then Inr (- 1, k)
     else case fd_routine dvread k p fd of Inl e \<Rightarrow> Inl e | Inr d \<Rightarrow> call_read d lb k p fd buff bufflen)"

definition di_write :: "platform \<Rightarrow> kernel \<Rightarrow> nat \<Rightarrow> u32 \<Rightarrow> u32 \<Rightarrow> u32 \<Rightarrow> (u32 \<times> kernel) kres" where
  "di_write pl k p fd buff bufflen =
    (if bad_fd k p fd then Inr (- 1, k)
     else if bad_addr pl buff then Inr (- 1, k)
     else case fd_routine dvwrite k p fd of Inl e \<Rightarrow> Inl e | Inr d \<Rightarrow> Inr (call_write d k p fd buff bufflen))"

definition di_ioctl :: "kernel \<Rightarrow> nat \<Rightarrow> u32 \<Rightarrow> u32 \<Rightarrow> u32 \<Rightarrow> (u32 \<times> kernel) kres" where
  "di_ioctl k p fd command arg3 =
    (if bad_fd k p fd then Inr (- 1, k)
     else case fd_routine dvioctl k p fd of Inl e \<Rightarrow> Inl e | Inr d \<Rightarrow> Inr (call_ioctl d k fd command arg3))"

section \<open>Invariants\<close>

definition dev_entry :: "u32 \<Rightarrow> driver \<Rightarrow> devsw" where
  "dev_entry n d = \<lparr>dvnum = n, dvopen = Some d, dvclose = Some d, dvread = Some d, dvwrite = Some d, dvioctl = Some d\<rparr>"

definition dev_driver :: "nat \<Rightarrow> driver" where
  "dev_driver i = (if i = 0 then ZeroDrv else if i = 1 then RandDrv else KbdDrv)"

definition devs_ok :: "kernel \<Rightarrow> bool" where
  "devs_ok k \<longleftrightarrow> (\<forall>i < MAX_DEV. devtable k i = dev_entry (of_nat i) (dev_driver i))"

text \<open>Every descriptor that is not closed refers to an entry of the device table.\<close>

definition fd_ok :: "fdStruct \<Rightarrow> bool" where
  "fd_ok f \<longleftrightarrow> status f = fd_CLOSE \<or> (\<exists>d < MAX_DEV. device f = Some d)"

definition fds_ok :: "sched \<Rightarrow> bool" where
  "fds_ok s \<longleftrightarrow> (\<forall>p < MAX_PROC. \<forall>i < MAX_FDT. fd_ok (fdt (proctab s p) i))"

lemma fd_index:
  assumes "\<not> bad_fd k p fd"
  shows "unat fd < 4" "status (fdt (proc k p) (unat fd)) \<noteq> fd_CLOSE"
proof -
  from assms have "0 \<le> sint fd" "sint fd \<le> 3" by (auto simp: bad_fd_def)
  with int_unat_sint [of fd] show "unat fd < 4" by linarith
  show "status (fdt (proc k p) (unat fd)) \<noteq> fd_CLOSE" using assms by (simp add: bad_fd_def)
qed

lemma fd_routine_ok:
  assumes "devs_ok k" and "fds_ok (sch k)" and "p < MAX_PROC" and "\<not> bad_fd k p fd"
    and dv: "\<And>n d. dv (dev_entry n d) = Some d"
  obtains i where "i < MAX_DEV" "device (fdt (proc k p) (unat fd)) = Some i"
    "fd_routine dv k p fd = Inr (dev_driver i)"
proof -
  note f = fd_index [OF assms(4)]
  then obtain i where i: "i < MAX_DEV" "device (fdt (proc k p) (unat fd)) = Some i"
    using assms(2,3) by (auto simp: fds_ok_def fd_ok_def)
  then have "devtable k i = dev_entry (of_nat i) (dev_driver i)" using assms(1) by (simp add: devs_ok_def)
  with i dv show thesis by (intro that [OF i]) (simp add: fd_routine_def)
qed

lemma find_dev:
  assumes "devs_ok k"
  shows "find (\<lambda>i. dvnum (devtable k i) = n) [0..<MAX_DEV] = (if unat n < 3 then Some (unat n) else None)"
proof -
  have d: "dvnum (devtable k 0) = 0" "dvnum (devtable k 1) = 1" "dvnum (devtable k 2) = 2"
    using assms by (simp_all add: devs_ok_def dev_entry_def)
  have "unat n < 3 \<longleftrightarrow> n = 0 \<or> n = 1 \<or> n = 2"
  proof
    assume "unat n < 3"
    then have "unat n = 0 \<or> unat n = 1 \<or> unat n = 2" by linarith
    then show "n = 0 \<or> n = 1 \<or> n = 2" by (simp add: word_unat_eq_iff)
  qed auto
  moreover have "[0..<MAX_DEV] = [0, 1, 2]" by (simp add: upt_rec numeral_2_eq_2)
  ultimately show ?thesis using d by auto
qed

interpretation drv: device_driver "call_open d" "call_close d" for d
proof (cases d)
  case ZeroDrv
  then show "device_driver (call_open d) (call_close d)" using zero.device_driver_axioms by simp
next
  case RandDrv
  then show "device_driver (call_open d) (call_close d)" using rand.device_driver_axioms by simp
next
  case KbdDrv
  then show "device_driver (call_open d) (call_close d)" using kbdev.device_driver_axioms by simp
qed

lemma only_fdt_table:
  assumes "only_fdt k p k'"
  shows "devtable k' = devtable k" "q \<noteq> p \<Longrightarrow> proc k' q = proc k q"
  using assms by (auto simp: only_fdt_def)

text \<open>Changes to one descriptor table that keep the invariant.\<close>

lemma fds_okI:
  assumes "only_fdt k p k'" and "fds_ok (sch k)" and "p < MAX_PROC \<Longrightarrow> \<forall>i < MAX_FDT. fd_ok (fdt (proc k' p) i)"
  shows "fds_ok (sch k')"
proof (unfold fds_ok_def, intro allI impI)
  fix q i assume "q < MAX_PROC" "i < MAX_FDT"
  then show "fd_ok (fdt (proc k' q) i)"
    using assms only_fdt_table(2) [OF assms(1), of q] by (cases "q = p") (auto simp: fds_ok_def)
qed

lemma open_keeps_fds:
  assumes "fds_ok (sch k)" and "p < MAX_PROC" and "i < MAX_DEV"
  shows "fds_ok (sch (snd (call_open d k p i)))"
proof (rule fds_okI [OF drv.open_quiet assms(1)])
  have f: "\<forall>j < MAX_FDT. fd_ok (fdt (proc k p) j)" using assms(1,2) by (simp add: fds_ok_def)
  show "\<forall>j < MAX_FDT. fd_ok (fdt (proc (snd (call_open d k p i)) p) j)"
  proof (cases "free_fd (proc k p)")
    case None
    with drv.open_full [OF None, of d i] f show ?thesis by simp
  next
    case (Some j)
    with drv.open_free [OF Some, of d i] f assms(3) show ?thesis by (simp add: opened_def fd_ok_def)
  qed
qed

lemma close_keeps_fds:
  assumes "fds_ok (sch k)"
  shows "fds_ok (sch (snd (call_close d k p fd)))"
  by (rule fds_okI [OF drv.close_quiet assms])
    (use assms drv.close_fd [of d k p fd] in \<open>auto simp: fds_ok_def closed_def fd_ok_def\<close>)

lemma kbdHandler_keeps_fds:
  assumes "fds_ok (sch k)" and "kbdHandler k p a b = Inr k'"
  shows "fds_ok (sch k')"
proof (cases "sch k' = sch k")
  case False
  with assms(2) have "\<exists>st. k' = snd (kbdClose (set_kbd (set_kbd k (kstate_update (\<lambda>_. st))) kbd_put) p 0)"
    by (auto simp: kbdHandler_def Let_def split: if_splits sum.splits)
  then obtain k1 where "sch k1 = sch k" "k' = snd (kbdClose k1 p 0)" by (metis set_kbd_simps(1))
  with close_keeps_fds [of k1 KbdDrv p 0] assms(1) show ?thesis by simp
qed (use assms in simp)

section \<open>The calls on well-formed states\<close>

lemma di_open_eq:
  assumes "devs_ok k"
  shows "di_open k p n = (if unat n < 3 then Inr (call_open (dev_driver (unat n)) k p (unat n)) else Inr (- 1, k))"
  using assms find_dev [OF assms, of n] by (auto simp: di_open_def devs_ok_def dev_entry_def)

lemma di_close_eq:
  assumes "devs_ok k" and "fds_ok (sch k)" and "p < MAX_PROC"
  shows "\<exists>d. di_close k p fd = Inr (if bad_fd k p fd then (- 1, k) else call_close d k p fd)"
proof (cases "bad_fd k p fd")
  case False
  from fd_routine_ok [OF assms this, of dvclose] obtain i where "fd_routine dvclose k p fd = Inr (dev_driver i)"
    by (auto simp: dev_entry_def)
  with False show ?thesis by (auto simp: di_close_def)
qed (simp add: di_close_def)

lemma di_read_eq:
  assumes "devs_ok k" and "fds_ok (sch k)" and "p < MAX_PROC"
  shows "\<exists>i. (\<not> bad_fd k p fd \<longrightarrow> i < MAX_DEV \<and> device (fdt (proc k p) (unat fd)) = Some i) \<and> di_read pl lb k p fd buff n =
    (if bad_fd k p fd \<or> bad_addr pl buff then Inr (- 1, k) else call_read (dev_driver i) lb k p fd buff n)"
proof (cases "bad_fd k p fd")
  case False
  from fd_routine_ok [OF assms this, of dvread] obtain i where "i < MAX_DEV"
    "device (fdt (proc k p) (unat fd)) = Some i" "fd_routine dvread k p fd = Inr (dev_driver i)"
    by (auto simp: dev_entry_def)
  with False show ?thesis by (auto simp: di_read_def)
qed (simp add: di_read_def)

text \<open>A read returns, unless it is a read of the random device whose index overflows.\<close>

definition read_ends :: "kernel \<Rightarrow> nat \<Rightarrow> u32 \<Rightarrow> u32 \<Rightarrow> bool" where
  "read_ends k p fd n \<longleftrightarrow> (device (fdt (proc k p) (unat fd)) = Some 1 \<longrightarrow> sint n \<le> 2147483644)"

lemma call_read_returns:
  assumes "d = RandDrv \<Longrightarrow> sint n \<le> 2147483644"
  shows "\<exists>r k'. call_read d lb k p fd buff n = Inr (r, k')"
proof (cases d)
  case RandDrv
  with assms have "sint n \<le> 2147483644" by simp
  then show ?thesis using RandDrv randRead_spec [of lb k p fd buff n] by (auto simp: Let_def)
qed (metis call_read.simps surj_pair)+

lemma di_read_ends:
  assumes "devs_ok k" and "fds_ok (sch k)" and "p < MAX_PROC" and "read_ends k p fd n"
  shows "\<exists>i. (\<not> bad_fd k p fd \<longrightarrow> i < MAX_DEV \<and> device (fdt (proc k p) (unat fd)) = Some i) \<and>
    di_read pl lb k p fd buff n =
      (if bad_fd k p fd \<or> bad_addr pl buff then Inr (- 1, k) else call_read (dev_driver i) lb k p fd buff n) \<and>
    (\<exists>r k'. di_read pl lb k p fd buff n = Inr (r, k'))"
proof -
  from di_read_eq [OF assms(1-3)] obtain i where i:
    "\<not> bad_fd k p fd \<longrightarrow> i < MAX_DEV \<and> device (fdt (proc k p) (unat fd)) = Some i"
    "di_read pl lb k p fd buff n =
      (if bad_fd k p fd \<or> bad_addr pl buff then Inr (- 1, k) else call_read (dev_driver i) lb k p fd buff n)" by blast
  have "\<exists>r k'. di_read pl lb k p fd buff n = Inr (r, k')"
  proof (cases "bad_fd k p fd \<or> bad_addr pl buff")
    case False
    with i(1) assms(4) have "dev_driver i = RandDrv \<Longrightarrow> sint n \<le> 2147483644"
      by (auto simp: read_ends_def dev_driver_def split: if_splits)
    from call_read_returns [of "dev_driver i" n lb k p fd buff, OF this] i(2) False show ?thesis by simp
  qed (use i(2) in simp)
  with i show ?thesis by blast
qed

lemma di_write_eq:
  assumes "devs_ok k" and "fds_ok (sch k)" and "p < MAX_PROC"
  shows "\<exists>d. di_write pl k p fd buff n =
    Inr (if bad_fd k p fd \<or> bad_addr pl buff then (- 1, k) else call_write d k p fd buff n)"
proof (cases "bad_fd k p fd")
  case False
  from fd_routine_ok [OF assms this, of dvwrite] obtain i where "fd_routine dvwrite k p fd = Inr (dev_driver i)"
    by (auto simp: dev_entry_def)
  with False show ?thesis by (auto simp: di_write_def)
qed (simp add: di_write_def)

lemma di_ioctl_eq:
  assumes "devs_ok k" and "fds_ok (sch k)" and "p < MAX_PROC"
  shows "\<exists>d. di_ioctl k p fd c a = Inr (if bad_fd k p fd then (- 1, k) else call_ioctl d k fd c a)"
proof (cases "bad_fd k p fd")
  case False
  from fd_routine_ok [OF assms this, of dvioctl] obtain i where "fd_routine dvioctl k p fd = Inr (dev_driver i)"
    by (auto simp: dev_entry_def)
  with False show ?thesis by (auto simp: di_ioctl_def)
qed (simp add: di_ioctl_def)

lemma call_write_quiet: "only_fdt k p (snd (call_write d k p fd buff n)) \<and> sch (snd (call_write d k p fd buff n)) = sch k"
  by (cases d) (simp_all add: zeroWrite_def randWrite_def kbdWrite_def only_fdtI)

lemma call_ioctl_quiet: "only_fdt k p (snd (call_ioctl d k fd c a)) \<and> sch (snd (call_ioctl d k fd c a)) = sch k"
  by (cases d) (simp_all add: zeroIoctl_def randIoctl_def kbdIoctl_def only_fdtI)

text \<open>
  A read either leaves everything but memory, the descriptor's buffer pointer and the device alone, or
  blocks the process, unless it is a keyboard read that meets the end-of-file character.
\<close>

definition eof_next :: "kernel \<Rightarrow> bool" where
  "eof_next k \<longleftrightarrow> (\<exists>c. kbd_first k = Some c \<and> (scast c :: u32) = eof (kbd k))"

lemma call_read_sched:
  assumes "d = KbdDrv \<Longrightarrow> \<not> eof_next k" and "call_read d lb k p fd buff n = Inr (r, k')"
  shows "devtable k' = devtable k \<and> kmem k' = kmem k \<and> nextpid k' = nextpid k \<and>
    (only_fdt k p k' \<and> (\<forall>i. status (fdt (proc k' p) i) = status (fdt (proc k p) i) \<and>
        device (fdt (proc k' p) i) = device (fdt (proc k p) i)) \<or>
     r = - 3 \<and> sch k' = set_pcb (sch k) p (\<lambda>q. q\<lparr>state := STATE_BLOCKED\<rparr>))"
proof (cases d)
  case ZeroDrv
  with assms(2) show ?thesis by (auto simp: zeroRead_def Let_def only_fdt_def set_pcb_def)
next
  case RandDrv
  have "sch k' = sch k" "devtable k' = devtable k" "kmem k' = kmem k" "nextpid k' = nextpid k"
    using assms(2) RandDrv by (auto simp: randRead_def Let_def split: prod.splits if_splits option.splits)
  then show ?thesis by (simp add: only_fdtI)
next
  case KbdDrv
  then have "kbdRead k p fd buff n = (r, k')" using assms(2) by simp
  with kbdRead_sched [of k p fd buff n r k'] assms(1) [OF KbdDrv] show ?thesis
    by (auto simp: eof_next_def only_fdtI split: if_splits)
qed

lemma fd_ok_dataBuffer [simp]: "fd_ok (f\<lparr>dataBuffer := x\<rparr>) = fd_ok f"
  by (simp add: fd_ok_def)

lemma read_keeps_fds:
  assumes "fds_ok (sch k)" and "call_read d lb k p fd buff n = Inr (r, k')"
  shows "fds_ok (sch k') \<and> devtable k' = devtable k"
proof (cases d)
  case ZeroDrv
  with assms show ?thesis by (auto simp: zeroRead_def Let_def fds_ok_def)
next
  case RandDrv
  with assms show ?thesis by (auto simp: randRead_def Let_def split: prod.splits if_splits option.splits)
next
  case KbdDrv
  then have e: "kbdRead k p fd buff n = (r, k')" using assms(2) by simp
  show ?thesis
  proof (cases "eof_next k")
    case True
    then obtain i where i: "find (\<lambda>i. kbdbuff (kbd k) i \<noteq> 0) [0..<4] = Some i" "(scast (kbdbuff (kbd k) i) :: u32) = eof (kbd k)"
      by (auto simp: eof_next_def kbd_first_def)
    let ?k1 = "set_kbd (k\<lparr>ram := (ram k)(buff := kbdbuff (kbd k) i)\<rparr>) (\<lambda>b. b\<lparr>kbdbuff := (kbdbuff b)(i := 0)\<rparr>)"
    have "fds_ok (sch (snd (kbdClose ?k1 p fd)))" using close_keeps_fds [of ?k1 KbdDrv p fd] assms(1) by simp
    moreover have "fdt (proctab (ready s q) j) = fdt (proctab s j)" for s q j by (simp add: ready_proctab)
    moreover have "k' = (snd (kbdClose ?k1 p fd))\<lparr>sch := ready (sch (snd (kbdClose ?k1 p fd))) p\<rparr>"
      using e i by (auto simp: kbdRead_def Let_def)
    ultimately show ?thesis by (simp add: fds_ok_def kbdClose_def)
  next
    case False
    with kbdRead_sched [OF _ e] assms(1) show ?thesis by (auto simp: eof_next_def fds_ok_def split: if_splits)
  qed
qed

section \<open>Properties\<close>

definition with_devs :: kernel where
  "with_devs = (image (\<lambda>_. 0) (hdrs raw_mem))\<lparr>devtable := (\<lambda>i. dev_entry (of_nat i) (dev_driver i))\<rparr>"

lemma with_devs_ok: "devs_ok with_devs" "fds_ok (sch with_devs)" "free_fd (proc with_devs 1) = Some 0"
  by (simp_all add: with_devs_def devs_ok_def fds_ok_def fd_ok_def image_def zero_pcb_def zero_fd_def free_fd_eq)



text \<open>
  C32. Descriptors round trip: opening one of the three devices hands out the lowest free descriptor,
  and closing that descriptor returns 0 and leaves every other descriptor as it was and this one free
  again. Any other device number is refused with -1.
\<close>

theorem open_close_roundtrip:
  assumes "devs_ok k" and "fds_ok (sch k)" and "p < MAX_PROC"
  shows "if unat n < 3 then
      (\<forall>i. free_fd (proc k p) = Some i \<longrightarrow> (\<exists>k1 k2. di_open k p n = Inr (of_nat i, k1) \<and>
         di_close k1 p (of_nat i) = Inr (0, k2) \<and> free_fd (proc k2 p) = Some i \<and>
         (\<forall>j. j \<noteq> i \<longrightarrow> fdt (proc k2 p) j = fdt (proc k p) j)))
    else di_open k p n = Inr (- 1, k)"
proof (cases "unat n < 3")
  case True
  let ?d = "dev_driver (unat n)"
  obtain fd k1 where o: "call_open ?d k p (unat n) = (fd, k1)" by fastforce
  have k1: "di_open k p n = Inr (fd, k1)" "devtable k1 = devtable k" "fds_ok (sch k1)"
    using di_open_eq [OF assms(1), of p n] True o only_fdt_table(1) [OF drv.open_quiet [of k p ?d "unat n"]]
      open_keeps_fds [OF assms(2,3), of "unat n" ?d] by auto
  have d1: "devs_ok k1" using assms(1) k1(2) by (simp add: devs_ok_def)
  have "fd = of_nat i \<and> (\<exists>k2. di_close k1 p fd = Inr (0, k2) \<and> free_fd (proc k2 p) = Some i \<and>
         (\<forall>j. j \<noteq> i \<longrightarrow> fdt (proc k2 p) j = fdt (proc k p) j))" if f: "free_fd (proc k p) = Some i" for i
  proof -
    have i: "i < 4" using free_fd_range [OF f] by simp
    from drv.open_free [OF f, of ?d "unat n"] o have
      fd: "fd = of_nat i" "fdt (proc k1 p) = opened (fdt (proc k p)) i (unat n)" by auto
    have dev: "device (fdt (proc k1 p) i) = Some (unat n)" "status (fdt (proc k1 p) i) = fd_OPEN"
      by (simp_all add: fd(2) opened_def)
    have "i = 0 \<or> i = 1 \<or> i = 2 \<or> i = 3" using i by linarith
    then have "unat fd = i" "sint fd = int i" by (auto simp: fd(1))
    moreover from this i dev have "\<not> bad_fd k1 p fd" by (simp add: bad_fd_def)
    moreover have "devtable k1 (unat n) = dev_entry (of_nat (unat n)) ?d" using d1 True by (simp add: devs_ok_def)
    ultimately have c: "di_close k1 p fd = Inr (call_close ?d k1 p fd)"
      using dev by (simp add: di_close_def fd_routine_def dev_entry_def)
    obtain r k2 where cl: "call_close ?d k1 p fd = (r, k2)" by fastforce
    from drv.open_close [OF f o cl] c cl fd(1) show ?thesis by auto
  qed
  with True k1(1) show ?thesis by auto
next
  case False
  with di_open_eq [OF assms(1), of p n] show ?thesis by simp
qed

theorem open_close_roundtrip_witness:
  "\<exists>k1 k2. di_open with_devs 1 2 = Inr (0, k1) \<and> di_close k1 1 0 = Inr (0, k2) \<and> free_fd (proc k2 1) = Some 0"
  using open_close_roundtrip [OF with_devs_ok(1,2), of 1 2] with_devs_ok(3) by auto

text \<open>
  A process can hold four descriptors at a time: with all of them closed, opening a device five
  times gives 0, 1, 2, 3 and then the error value -1, for each of the three drivers.
\<close>

theorem four_descriptors:
  assumes "\<forall>i < 4. status (fdt (proc k p) i) = fd_CLOSE"
  shows "open_run (call_open d) k p i 5 = [0, 1, 2, 3, - 1]"
  using assms by (rule drv.four_opens)

theorem four_descriptors_witness:
  "open_run (call_open KbdDrv) (image (\<lambda>_. 0) (hdrs raw_mem)) 1 2 5 = [0, 1, 2, 3, - 1]"
  by (rule four_descriptors) (simp add: image_def zero_pcb_def zero_fd_def)

end
