(* ===== verification/Syscalls.thy ===== *)
theory Syscalls
  imports Context
begin

text \<open>
  The application side of the system calls, \<open>c/syscall.c\<close>. A stub either traps with a request number
  and its arguments, or returns without trapping. The arguments lie one word after the other in the
  caller's stack frame at an address \<open>ap\<close>, which is what the trap passes in \<open>edx\<close>; the request number
  is in \<open>eax\<close>.
\<close>

section \<open>Request numbers\<close>

definition SYS_STOP :: u32 where [simp]: "SYS_STOP = 10"
definition SYS_YIELD :: u32 where [simp]: "SYS_YIELD = 11"
definition SYS_CREATE :: u32 where [simp]: "SYS_CREATE = 22"
definition SYS_GETPID :: u32 where [simp]: "SYS_GETPID = 144"
definition SYS_PUTS :: u32 where [simp]: "SYS_PUTS = 155"
definition SYS_SLEEP :: u32 where [simp]: "SYS_SLEEP = 166"
definition SYS_KILL :: u32 where [simp]: "SYS_KILL = 177"
definition SYS_CPUTIMES :: u32 where [simp]: "SYS_CPUTIMES = 178"
definition SYS_SIGHANDLER :: u32 where [simp]: "SYS_SIGHANDLER = 179"
definition SYS_SIGRETURN :: u32 where [simp]: "SYS_SIGRETURN = 180"
definition SYS_WAIT :: u32 where [simp]: "SYS_WAIT = 181"
definition SYS_OPEN :: u32 where [simp]: "SYS_OPEN = 182"
definition SYS_CLOSE :: u32 where [simp]: "SYS_CLOSE = 183"
definition SYS_WRITE :: u32 where [simp]: "SYS_WRITE = 184"
definition SYS_READ :: u32 where [simp]: "SYS_READ = 185"
definition SYS_IOCTL :: u32 where [simp]: "SYS_IOCTL = 186"

section \<open>Stubs\<close>

datatype stub = Trap u32 "u32 list" | Return u32

definition syscreate :: "u32 \<Rightarrow> u32 \<Rightarrow> stub" where "syscreate fp stack = Trap SYS_CREATE [fp, stack]"
definition sysyield :: stub where "sysyield = Trap SYS_YIELD []"
definition sysstop :: stub where "sysstop = Trap SYS_STOP []"
definition sysgetpid :: stub where "sysgetpid = Trap SYS_GETPID []"
definition sysputs :: "u32 \<Rightarrow> stub" where "sysputs str = Trap SYS_PUTS [str]"
definition syssleep :: "u32 \<Rightarrow> stub" where "syssleep t = Trap SYS_SLEEP [t]"
definition syskill :: "u32 \<Rightarrow> u32 \<Rightarrow> stub" where "syskill pid' signum = Trap SYS_KILL [pid', signum]"
definition sysgetcputimes :: "u32 \<Rightarrow> stub" where "sysgetcputimes ps = Trap SYS_CPUTIMES [ps]"

definition syssignal :: "u32 \<Rightarrow> u32 \<Rightarrow> stub" where
  "syssignal signum handler =
    (if sint signum < 0 \<or> 31 \<le> sint signum then Return 0 else Trap SYS_SIGHANDLER [signum, handler])"

definition syssigreturn :: "u32 \<Rightarrow> u32 \<Rightarrow> u32 \<Rightarrow> stub" where
  "syssigreturn old_sp old_ret sigLvl = Trap SYS_SIGRETURN [old_sp, old_ret, sigLvl]"

definition syswait :: "u32 \<Rightarrow> stub" where "syswait pid' = Trap SYS_WAIT [pid']"
definition sysopen :: "u32 \<Rightarrow> stub" where "sysopen device_no = Trap SYS_OPEN [device_no]"
definition sysclose :: "u32 \<Rightarrow> stub" where "sysclose fd = Trap SYS_CLOSE [fd]"
definition syswrite :: "u32 \<Rightarrow> u32 \<Rightarrow> u32 \<Rightarrow> stub" where
  "syswrite fd buff bufflen = Trap SYS_WRITE [fd, buff, bufflen]"
definition sysread :: "u32 \<Rightarrow> u32 \<Rightarrow> u32 \<Rightarrow> stub" where
  "sysread fd buff bufflen = Trap SYS_READ [fd, buff, bufflen]"

text \<open>\<open>sysioctl\<close> passes on its argument list \<open>ap'\<close> itself, the address of what follows \<open>command\<close>.\<close>

definition sysioctl :: "u32 \<Rightarrow> u32 \<Rightarrow> u32 \<Rightarrow> stub" where
  "sysioctl fd command ap' = Trap SYS_IOCTL [fd, command, ap']"

text \<open>
  \<open>syscall\<close>: the registers and the memory at the trap, for a caller with registers \<open>r\<close> whose
  arguments are at \<open>ap\<close>.
\<close>

definition syscall :: "regs \<Rightarrow> ram \<Rightarrow> u32 \<Rightarrow> u32 \<Rightarrow> u32 list \<Rightarrow> u32 \<times> regs \<times> ram" where
  "syscall r m ap req as = (0, r\<lparr>r_eax := req, r_edx := ap\<rparr>, store_words m ap as)"

section \<open>Arguments survive the trap\<close>

lemma trap_keeps:
  assumes "unat (a - r_esp r) < 4294967296 - 48"
  shows "load32 (fst (trap_pusha m r)) a = load32 m a"
proof -
  let ?d = "a - r_esp r"
  have other: "load32 (store32 m' (r_esp r - of_nat n) v) a = load32 m' a" if "4 \<le> n" "n \<le> 44" for m' v n
  proof (rule load32_store32_other)
    have e: "a - (r_esp r - of_nat n) = ?d + of_nat n" by simp
    have n: "unat (of_nat n :: u32) = n" using that by simp
    have u: "unat (?d + of_nat n) = unat ?d + n" using assms that n by (simp add: unat_word_ariths)
    then show "4 \<le> a - (r_esp r - of_nat n)" using that unfolding e by (simp add: word_le_nat_alt)
    have nz: "?d + of_nat n \<noteq> 0" using u that by (metis add_is_0 not_numeral_le_zero unat_0)
    have "r_esp r - of_nat n - a = - (?d + of_nat n)" by simp
    then have "unat (r_esp r - of_nat n - a) = 4294967296 - (unat ?d + n)"
      by (simp only: unat_neg [OF nz] u)
    then show "4 \<le> r_esp r - of_nat n - a" using assms that by (simp add: word_le_nat_alt)
  qed
  from other [of 4] other [of 8] other [of 12] other [of 16] other [of 20] other [of 24] other [of 28]
    other [of 32] other [of 36] other [of 40] other [of 44]
  show ?thesis by (simp add: trap_pusha_def Let_def)
qed

lemma load_words_nth: "i < n \<Longrightarrow> load_words m a n ! i = load32 m (a + 4 * of_nat i)"
proof (induction n arbitrary: a i)
  case (Suc n)
  then show ?case by (cases i) (simp_all add: algebra_simps)
qed simp

lemma syscall_args:
  assumes "syscall r m ap req as = (t, r', m')" and "switch_in (k\<lparr>ram := m'\<rparr>) p t r' = (rc, k')"
    and "unat (ap - r_esp r) + 4 * length as < 4294967296 - 48"
  shows "rc = req \<and> (\<forall>i < length as. va_arg (ram k') (args (proc k' p)) i = as ! i)"
proof -
  have t: "t = 0" "r' = r\<lparr>r_eax := req, r_edx := ap\<rparr>" "m' = store_words m ap as"
    using assms(1) by (auto simp: syscall_def)
  note f = switch_in_fields [OF assms(2)]
  have "va_arg (ram k') ap i = as ! i" if "i < length as" for i
  proof -
    have i: "unat (4 * of_nat i :: u32) = 4 * i" using that assms(3) by (simp add: unat_word_ariths)
    have "unat (ap + 4 * of_nat i - r_esp r) = unat (ap - r_esp r + 4 * of_nat i)" by (simp add: algebra_simps)
    also have "\<dots> = unat (ap - r_esp r) + 4 * i" using assms(3) that i by (simp add: unat_word_ariths)
    finally have "unat (ap + 4 * of_nat i - r_esp r') < 4294967296 - 48" using assms(3) that by (simp add: t)
    from trap_keeps [OF this] have "va_arg (ram k') ap i = load32 m' (ap + 4 * of_nat i)"
      by (simp add: va_arg_def f(2))
    also have "\<dots> = load_words m' ap (length as) ! i" using that by (simp add: load_words_nth)
    also have "\<dots> = as ! i" unfolding t using assms(3) by (subst load_words_store_words) simp_all
    finally show ?thesis .
  qed
  with f t show ?thesis by simp
qed

section \<open>Properties\<close>

text \<open>
  C33. A system call's request and arguments reach the kernel unchanged: when a process traps with
  the arguments \<open>as\<close> in its frame, at or above its stack pointer, the kernel sees the request number
  and, through the argument pointer it records for the process, exactly \<open>as\<close>; the pushes of the trap
  do not reach them.
\<close>

theorem syscall_arguments:
  assumes "syscall r m ap req as = (t, r', m')" and "switch_in (k\<lparr>ram := m'\<rparr>) p t r' = (rc, k')"
    and "unat (ap - r_esp r) + 4 * length as < 4294967296 - 48"
  shows "rc = req \<and> (\<forall>i < length as. va_arg (ram k') (args (proc k' p)) i = as ! i)"
  using assms by (rule syscall_args)

theorem syscall_arguments_witness:
  "\<exists>k'. switch_in (fresh\<lparr>ram := store_words (\<lambda>_. 0) 0x30010 [3, 9]\<rparr>) 1 0
      ((popa_iret (\<lambda>_. 0) (0x30000 - 44))\<lparr>r_eax := SYS_KILL, r_edx := 0x30010\<rparr>) = (SYS_KILL, k') \<and>
    va_arg (ram k') (args (proc k' 1)) 1 = 9"
proof -
  let ?r = "popa_iret (\<lambda>_. 0) (0x30000 - 44)"
  have c: "syscall ?r (\<lambda>_. 0) 0x30010 SYS_KILL [3, 9] =
      (0, ?r\<lparr>r_eax := SYS_KILL, r_edx := 0x30010\<rparr>, store_words (\<lambda>_. 0) 0x30010 [3, 9])"
    by (simp only: syscall_def)
  obtain rc k' where s: "switch_in (fresh\<lparr>ram := store_words (\<lambda>_. 0) 0x30010 [3, 9]\<rparr>) 1 0
      (?r\<lparr>r_eax := SYS_KILL, r_edx := 0x30010\<rparr>) = (rc, k')" by fastforce
  have "unat (0x30010 - r_esp ?r) + 4 * length [3, 9 :: u32] < 4294967296 - 48" by (simp add: popa_iret_def)
  from syscall_arguments [OF c s this] s show ?thesis by force
qed

end
