(* ===== verification/Dispatch.thy ===== *)
theory Dispatch
  imports Signals Di_Calls Syscalls
begin

text \<open>
  The dispatcher of \<open>c/disp.c\<close>: one definition per arm of its \<open>switch\<close>, the \<open>switch\<close> itself, and a
  round of its loop. A round takes what the process does until its next trap and what the keyboard's
  ports would give; the result is the process that runs next and the kernel's state. The invariant
  \<open>kinv\<close> joins those of the queues, the identifiers, the devices and the memory manager.
\<close>

section \<open>Arms\<close>

text \<open>\<open>p = next()\<close>.\<close>

definition resched :: "kernel \<Rightarrow> (nat \<times> kernel) kres" where
  "resched k = (case next_proc (sch k) of Inl e \<Rightarrow> Inl e | Inr (q, s) \<Rightarrow> Inr (q, k\<lparr>sch := s\<rparr>))"

text \<open>\<open>p->ret = v\<close> and the process goes on.\<close>

definition returns :: "nat \<Rightarrow> (u32 \<times> kernel) kres \<Rightarrow> (nat \<times> kernel) kres" where
  "returns p res = (case res of Inl e \<Rightarrow> Inl e | Inr (v, k) \<Rightarrow> Inr (p, upd k p (\<lambda>c. c\<lparr>ret := v\<rparr>)))"

definition arg :: "kernel \<Rightarrow> nat \<Rightarrow> nat \<Rightarrow> u32" where
  "arg k p i = va_arg (ram k) (args (proc k p)) i"

definition do_create :: "platform \<Rightarrow> kernel \<Rightarrow> nat \<Rightarrow> (nat \<times> kernel) kres" where
  "do_create pl k p = returns p (create pl k (arg k p 0) (arg k p 1))"

definition do_yield :: "kernel \<Rightarrow> nat \<Rightarrow> (nat \<times> kernel) kres" where
  "do_yield k p = resched (k\<lparr>sch := ready (sch k) p\<rparr>)"

definition do_stop :: "kernel \<Rightarrow> nat \<Rightarrow> (nat \<times> kernel) kres" where
  "do_stop k p = resched (upd k p (\<lambda>c. c\<lparr>state := STATE_STOPPED\<rparr>))"

definition do_kill :: "platform \<Rightarrow> kernel \<Rightarrow> nat \<Rightarrow> (nat \<times> kernel) kres" where
  "do_kill pl k p = returns p (kill pl k (arg k p 0) (arg k p 1))"

text \<open>
  A \<open>processStatuses\<close> in memory. Like every store through an address a process passes, it reaches the memory
  of the model only, not the kernel's own variables.
\<close>

definition load_ps :: "ram \<Rightarrow> u32 \<Rightarrow> processStatuses" where
  "load_ps m a = \<lparr>ps_entries = load32 m a, ps_pid = (\<lambda>i. load32 m (a + 4 + 4 * of_nat i)),
     ps_status = (\<lambda>i. load32 m (a + 260 + 4 * of_nat i)), ps_cpuTime = (\<lambda>i. load32 m (a + 516 + 4 * of_nat i))\<rparr>"

definition store_ps :: "ram \<Rightarrow> u32 \<Rightarrow> processStatuses \<Rightarrow> ram" where
  "store_ps m a ps = store_words m a (ps_entries ps # map (ps_pid ps) [0..<MAX_PROC] @
     map (ps_status ps) [0..<MAX_PROC] @ map (ps_cpuTime ps) [0..<MAX_PROC])"

definition do_cputimes :: "platform \<Rightarrow> kernel \<Rightarrow> nat \<Rightarrow> (nat \<times> kernel) kres" where
  "do_cputimes pl k p =
    (let a = arg k p 0;
         (v, ps) = getCPUtimes pl (sch k) p a (load_ps (ram k) a)
     in returns p (Inr (v, if v = - 1 \<or> v = - 2 then k else k\<lparr>ram := store_ps (ram k) a ps\<rparr>)))"

text \<open>The characters \<open>kprintf\<close> prints for \<open>%s\<close>: those up to the first zero byte.\<close>

partial_function (option) cstring :: "ram \<Rightarrow> u32 \<Rightarrow> u8 list option" where
  "cstring m a = (if m a = 0 then Some [] else Option.bind (cstring m (a + 1)) (\<lambda>cs. Some (m a # cs)))"

definition do_puts :: "kernel \<Rightarrow> nat \<Rightarrow> (nat \<times> kernel) kres" where
  "do_puts k p =
    (case cstring (ram k) (arg k p 0) of
       None \<Rightarrow> Inl Diverge
     | Some cs \<Rightarrow> returns p (Inr (0, k\<lparr>console := console k @ cs\<rparr>)))"

definition do_getpid :: "kernel \<Rightarrow> nat \<Rightarrow> (nat \<times> kernel) kres" where
  "do_getpid k p = returns p (Inr (pid (proc k p), k))"

definition do_sleep :: "kernel \<Rightarrow> nat \<Rightarrow> (nat \<times> kernel) kres" where
  "do_sleep k p = (case sleep (sch k) p (arg k p 0) of Inl e \<Rightarrow> Inl e | Inr s \<Rightarrow> resched (k\<lparr>sch := s\<rparr>))"

definition do_timer :: "kernel \<Rightarrow> nat \<Rightarrow> (nat \<times> kernel) kres" where
  "do_timer k p =
    (case tick (sch k) of
       Inl e \<Rightarrow> Inl e
     | Inr s \<Rightarrow>
         let k1 = upd (k\<lparr>sch := s\<rparr>) p (\<lambda>c. c\<lparr>cpuTime := cpuTime c + 1\<rparr>)
         in resched (k1\<lparr>sch := ready (sch k1) p\<rparr>))"

definition do_sighandler :: "platform \<Rightarrow> kernel \<Rightarrow> nat \<Rightarrow> (nat \<times> kernel) kres" where
  "do_sighandler pl k p = (case sighandler pl k p (arg k p 0) (arg k p 1) of Inl e \<Rightarrow> Inl e | Inr k' \<Rightarrow> Inr (p, k'))"

definition do_sigreturn :: "kernel \<Rightarrow> nat \<Rightarrow> (nat \<times> kernel) kres" where
  "do_sigreturn k p = Inr (p, sigreturn k p (arg k p 0) (arg k p 1) (arg k p 2))"

definition do_wait :: "kernel \<Rightarrow> nat \<Rightarrow> (nat \<times> kernel) kres" where
  "do_wait k p =
    (let pid' = arg k p 0 in
     if pid' = 0 \<or> findPCB (sch k) pid' = None then returns p (Inr (- 1, k))
     else resched (upd k p (\<lambda>c. c\<lparr>state := STATE_WAIT, waitpid := pid', ret := 0\<rparr>)))"

definition do_open :: "kernel \<Rightarrow> nat \<Rightarrow> (nat \<times> kernel) kres" where
  "do_open k p = returns p (di_open k p (arg k p 0))"

definition do_close :: "kernel \<Rightarrow> nat \<Rightarrow> (nat \<times> kernel) kres" where
  "do_close k p = returns p (di_close k p (arg k p 0))"

definition do_read :: "platform \<Rightarrow> lib \<Rightarrow> kernel \<Rightarrow> nat \<Rightarrow> (nat \<times> kernel) kres" where
  "do_read pl lb k p =
    (case di_read pl lb k p (arg k p 0) (arg k p 1) (arg k p 2) of
       Inl e \<Rightarrow> Inl e
     | Inr (readRet, k') \<Rightarrow> if readRet = - 3 then resched k' else returns p (Inr (readRet, k')))"

definition do_write :: "platform \<Rightarrow> kernel \<Rightarrow> nat \<Rightarrow> (nat \<times> kernel) kres" where
  "do_write pl k p = returns p (di_write pl k p (arg k p 0) (arg k p 1) (arg k p 2))"

definition do_ioctl :: "kernel \<Rightarrow> nat \<Rightarrow> (nat \<times> kernel) kres" where
  "do_ioctl k p = returns p (di_ioctl k p (arg k p 0) (arg k p 1) (arg k p 2))"

definition do_keyboard :: "kernel \<Rightarrow> nat \<Rightarrow> u8 \<Rightarrow> u8 \<Rightarrow> (nat \<times> kernel) kres" where
  "do_keyboard k p port64 port60 =
    (case kbdHandler k p port64 port60 of Inl e \<Rightarrow> Inl e | Inr k' \<Rightarrow> Inr (p, k'))"

text \<open>The \<open>switch\<close>; an unknown request only prints a message.\<close>

definition dispatch_switch :: "platform \<Rightarrow> lib \<Rightarrow> u8 \<times> u8 \<Rightarrow> kernel \<Rightarrow> nat \<Rightarrow> u32 \<Rightarrow> (nat \<times> kernel) kres" where
  "dispatch_switch pl lb io k p r =
    (if r = SYS_CREATE then do_create pl k p
     else if r = SYS_YIELD then do_yield k p
     else if r = SYS_STOP then do_stop k p
     else if r = SYS_KILL then do_kill pl k p
     else if r = SYS_CPUTIMES then do_cputimes pl k p
     else if r = SYS_PUTS then do_puts k p
     else if r = SYS_GETPID then do_getpid k p
     else if r = SYS_SLEEP then do_sleep k p
     else if r = SYS_TIMER then do_timer k p
     else if r = SYS_SIGHANDLER then do_sighandler pl k p
     else if r = SYS_SIGRETURN then do_sigreturn k p
     else if r = SYS_WAIT then do_wait k p
     else if r = SYS_OPEN then do_open k p
     else if r = SYS_CLOSE then do_close k p
     else if r = SYS_READ then do_read pl lb k p
     else if r = SYS_WRITE then do_write pl k p
     else if r = SYS_IOCTL then do_ioctl k p
     else if r = SYS_KEYBOARD then do_keyboard k p (fst io) (snd io)
     else Inr (p, k))"

text \<open>One round of the loop, and a number of rounds.\<close>

type_synonym input = "user_run \<times> u8 \<times> u8"

definition dispatch_round :: "platform \<Rightarrow> lib \<Rightarrow> input \<Rightarrow> nat \<times> kernel \<Rightarrow> (nat \<times> kernel) kres" where
  "dispatch_round pl lb inp c =
    (let (r, k) = contextswitch (snd c) (fst c) (fst inp)
     in dispatch_switch pl lb (snd inp) k (fst c) r)"

fun dispatch :: "platform \<Rightarrow> lib \<Rightarrow> input list \<Rightarrow> nat \<times> kernel \<Rightarrow> (nat \<times> kernel) kres" where
  "dispatch pl lb [] c = Inr c"
| "dispatch pl lb (i # is) c =
    (case dispatch_round pl lb i c of Inl e \<Rightarrow> Inl e | Inr c' \<Rightarrow> dispatch pl lb is c')"

end
