(* ===== verification/Dispatch_Inv.thy ===== *)
theory Dispatch_Inv
  imports Dispatch
begin

text \<open>
  The dispatcher keeps the kernel sound. \<open>kinv n k p\<close> joins the invariants of the components while
  process \<open>p\<close> runs: both queues well formed and \<open>p\<close> on neither, identifiers in their slots, the device
  table filled and every open descriptor referring to it, and a heap that can serve \<open>n\<close> more requests.
  Every arm of the \<open>switch\<close> is shown to keep it and to lose no runnable process but those it means to
  take off the processor; the results are joined for the \<open>switch\<close>, a round of the loop and any number of
  rounds.
\<close>

section \<open>The invariant\<close>

definition kcore :: "nat \<Rightarrow> kernel \<Rightarrow> bool" where
  "kcore n k \<longleftrightarrow> sched_ok (sch k) \<and> pids_ok (sch k) \<and> devs_ok k \<and> fds_ok (sch k) \<and> (\<exists>rs. heap n (kmem k) rs)"

definition kinv :: "nat \<Rightarrow> kernel \<Rightarrow> nat \<Rightarrow> bool" where
  "kinv n k p \<longleftrightarrow> kcore n k \<and> run_ok (sch k) p"

text \<open>The processes that can be scheduled.\<close>

definition runnable :: "kernel \<Rightarrow> nat \<Rightarrow> nat set" where
  "runnable k p = insert p (set (readyq (sch k)))"

text \<open>
  How an arm may end: the kernel halts because nobody in \<open>A\<close> is left to run, or the invariant holds
  and everybody in \<open>A\<close> can still be scheduled.
\<close>

definition ends_ok :: "nat \<Rightarrow> nat set \<Rightarrow> (nat \<times> kernel) kres \<Rightarrow> bool" where
  "ends_ok n A res \<longleftrightarrow> (case res of Inl e \<Rightarrow> e = Halt \<and> A = {} | Inr (q, k) \<Rightarrow> kinv n k q \<and> A \<subseteq> runnable k q)"

lemma ends_ok_simps [simp]:
  "ends_ok n A (Inl e) \<longleftrightarrow> e = Halt \<and> A = {}"
  "ends_ok n A (Inr (q, k)) \<longleftrightarrow> kinv n k q \<and> A \<subseteq> runnable k q"
  by (simp_all add: ends_ok_def)

lemma ends_ok_mono: "ends_ok n B res \<Longrightarrow> A \<subseteq> B \<Longrightarrow> ends_ok n A res"
  by (auto simp: ends_ok_def split: sum.splits)

lemma kcoreD:
  assumes "kcore n k"
  shows "sched_ok (sch k)" "pids_ok (sch k)" "devs_ok k" "fds_ok (sch k)" "\<exists>rs. heap n (kmem k) rs"
  using assms by (auto simp: kcore_def)

lemma kinvD:
  assumes "kinv n k p"
  shows "kcore n k" "run_ok (sch k) p" "p < MAX_PROC"
  using assms by (auto simp: kinv_def dest: run_okD)

lemma fds_ok_same: "same_fdts s s' \<Longrightarrow> fds_ok s' = fds_ok s"
  by (simp add: same_field_def fds_ok_def)

text \<open>What an operation must leave alone.\<close>

lemma kcoreI:
  assumes "kcore n k" and "sched_ok (sch k')" and "same_pids (sch k) (sch k')" and "same_fdts (sch k) (sch k')"
    and "devtable k' = devtable k" and "kmem k' = kmem k"
  shows "kcore n k'"
  using assms by (simp add: kcore_def devs_ok_def same_pids_ok fds_ok_same)

lemma kcore_less: "kcore (Suc n) k \<Longrightarrow> kcore n k"
  using km.inv_Suc by (auto simp: kcore_def)

text \<open>A change of the running process's own fields other than those of the queues.\<close>

lemma kinv_upd:
  assumes "kinv n k p" and "\<And>c. pnext (f c) = pnext c" and "\<And>c. state (f c) = state c"
    and "\<And>c. sleepdiff (f c) = sleepdiff c" and "\<And>c. pid (f c) = pid c" and "\<And>c. fdt (f c) = fdt c"
  shows "kinv n (upd k q f) p" "runnable (upd k q f) p = runnable k p"
proof -
  have s: "same_queues (sch k) (sch (upd k q f))"
    using set_pcb_fields [OF kcoreD(1) [OF kinvD(1) [OF assms(1)]], where f = f] assms by simp
  have "kcore n (upd k q f)"
    by (rule kcoreI [OF kinvD(1) [OF assms(1)]]) (use s assms in \<open>auto simp: same_queues_def same_field_def\<close>)
  moreover have "run_ok (sch (upd k q f)) p"
    by (rule run_ok_same [OF kinvD(2) [OF assms(1)] s]) (use assms run_okD(5) [OF kinvD(2) [OF assms(1)]] in auto)
  ultimately show "kinv n (upd k q f) p" by (simp add: kinv_def)
  show "runnable (upd k q f) p = runnable k p" using s by (simp add: runnable_def same_queues_def)
qed

lemma returns_ok:
  assumes "kinv n k' p" and "A \<subseteq> runnable k' p"
  shows "ends_ok n A (returns p (Inr (v, k')))"
  using kinv_upd [OF assms(1), of "\<lambda>c. c\<lparr>ret := v\<rparr>" p] assms(2) by (simp add: returns_def)

lemma resched_step:
  assumes "kcore n k" and "readyq (sch k) = x # xs"
  shows "\<exists>k'. resched k = Inr (x, k') \<and> kinv n k' x \<and> readyq (sch k') = xs \<and> sleepers (sch k') = sleepers (sch k)"
proof -
  from next_run [OF kcoreD(1) [OF assms(1)] assms(2)] obtain s where
    s: "next_proc (sch k) = Inr (x, s)" "run_ok s x" "readyq s = xs" "sleepers s = sleepers (sch k)" by blast
  have "kcore n (k\<lparr>sch := s\<rparr>)"
    by (rule kcoreI [OF assms(1)]) (use s run_okD(1) pids.kept_next fds.kept_next in auto)
  with s show ?thesis by (simp add: resched_def kinv_def)
qed

lemma resched_ok:
  assumes "kcore n k"
  shows "ends_ok n (set (readyq (sch k))) (resched k)"
proof (cases "readyq (sch k)")
  case Nil
  then have "next_proc (sch k) = Inl Halt" using next_cases [OF kcoreD(1) [OF assms]] by force
  with Nil show ?thesis by (simp add: resched_def)
next
  case (Cons x xs)
  from resched_step [OF assms Cons] Cons show ?thesis by (auto simp: runnable_def)
qed

section \<open>Arms that only return a value\<close>

lemma kinv_frame:
  assumes "kinv n k p" and "sch k' = sch k" and "devtable k' = devtable k" and "kmem k' = kmem k"
  shows "kinv n k' p" "runnable k' p = runnable k p"
proof -
  have "kcore n k'"
    by (rule kcoreI [OF kinvD(1) [OF assms(1)]]) (use assms kcoreD(1) [OF kinvD(1)] in \<open>auto simp: same_field_refl\<close>)
  with assms(2) kinvD(2) [OF assms(1)] show "kinv n k' p" by (simp add: kinv_def)
  show "runnable k' p = runnable k p" by (simp add: runnable_def assms(2))
qed

lemma returns_frame:
  assumes "kinv n k p" and "sch k' = sch k" and "devtable k' = devtable k" and "kmem k' = kmem k"
  shows "ends_ok n (runnable k p) (returns p (Inr (v, k')))"
  using returns_ok [OF kinv_frame(1) [OF assms], of "runnable k p" v] kinv_frame(2) [OF assms] by simp

lemma do_getpid_ok: "kinv n k p \<Longrightarrow> ends_ok n (runnable k p) (do_getpid k p)"
  by (simp add: do_getpid_def returns_ok)

lemma do_cputimes_ok:
  assumes "kinv n k p"
  shows "ends_ok n (runnable k p) (do_cputimes pl k p)"
proof -
  obtain v ps where "getCPUtimes pl (sch k) p (arg k p 0) (load_ps (ram k) (arg k p 0)) = (v, ps)" by fastforce
  moreover have "ends_ok n (runnable k p) (returns p (Inr (v, k\<lparr>ram := m\<rparr>)))" for m
    by (rule returns_frame [OF assms]) simp_all
  ultimately show ?thesis using assms by (simp add: do_cputimes_def returns_ok)
qed

text \<open>A string that ends somewhere is printed.\<close>

lemma cstring_Some:
  assumes "m (a + of_nat n) = 0"
  shows "\<exists>cs. cstring m a = Some cs"
  using assms
proof (induction n arbitrary: a)
  case 0
  then show ?case by (simp add: cstring.simps)
next
  case (Suc n)
  then have "m (a + 1 + of_nat n) = 0" by (simp add: add.assoc)
  from Suc.IH [OF this] show ?case by (subst cstring.simps) auto
qed

lemma do_puts_ok:
  assumes "kinv n k p" and "ram k (arg k p 0 + of_nat l) = 0"
  shows "ends_ok n (runnable k p) (do_puts k p)"
proof -
  from cstring_Some [of "ram k", OF assms(2)] obtain cs where "cstring (ram k) (arg k p 0) = Some cs" by blast
  moreover have "ends_ok n (runnable k p) (returns p (Inr (0, k\<lparr>console := console k @ cs\<rparr>)))"
    by (rule returns_frame [OF assms(1)]) simp_all
  ultimately show ?thesis by (simp add: do_puts_def)
qed

lemma do_sighandler_ok:
  assumes "kinv n k p" and "bad_addr pl (arg k p 1) \<or> 0 \<le> sint (arg k p 0) \<and> sint (arg k p 0) < 32"
  shows "ends_ok n (runnable k p) (do_sighandler pl k p)"
proof (cases "bad_addr pl (arg k p 1)")
  case True
  then show ?thesis by (simp add: do_sighandler_def sighandler_def kinv_upd [OF assms(1)])
next
  case False
  with assms(2) show ?thesis
    using sighandler_in_range [OF kinvD(3) [OF assms(1)], of "arg k p 0" pl k "arg k p 1"]
    by (simp add: do_sighandler_def kinv_upd [OF assms(1)])
qed

lemma do_sigreturn_ok: "kinv n k p \<Longrightarrow> ends_ok n (runnable k p) (do_sigreturn k p)"
  by (simp add: do_sigreturn_def sigreturn_def kinv_upd)

section \<open>Processes\<close>

lemma do_create_ok:
  assumes "kinv (Suc n) k p" and "unat (arg k p 1) \<le> 4294967264"
  shows "ends_ok n (runnable k p) (do_create pl k p)"
proof -
  note c = kcoreD [OF kinvD(1) [OF assms(1)]]
  from c(5) obtain rs where h: "heap (Suc n) (kmem k) rs" by blast
  obtain r k' where e: "create pl k (arg k p 0) (arg k p 1) = Inr (r, k')"
    and res: "(\<exists>m. k' = k\<lparr>nextpid := m\<rparr>) \<or>
      (\<exists>q blk. created pl k (arg k p 0) q r k' \<and> heap n (kmem k') (blk # rs))"
    using create_result [OF c(1) h assms(2), of pl "arg k p 0"] by blast
  have kn: "kinv n k p" using assms(1) kcore_less by (simp add: kinv_def)
  from res have "kinv n k' p \<and> runnable k p \<subseteq> runnable k' p"
  proof
    assume "\<exists>m. k' = k\<lparr>nextpid := m\<rparr>"
    then show ?thesis using kinv_frame [OF kn, of k'] by auto
  next
    assume "\<exists>q blk. created pl k (arg k p 0) q r k' \<and> heap n (kmem k') (blk # rs)"
    then obtain q blk where q: "created pl k (arg k p 0) q r k'" "heap n (kmem k') (blk # rs)" by blast
    then have s: "sched_ok (sch k')" "readyq (sch k') = readyq (sch k) @ [q]" "state (proc k q) = STATE_STOPPED"
      by (auto simp: created_def)
    have "q \<noteq> p" using s(3) run_okD(5) [OF kinvD(2) [OF assms(1)]] by auto
    moreover have "q = unat r mod MAX_PROC" using q(1) by (simp add: created_def)
    ultimately have "devtable k' = devtable k" "same_fdts (sch k) (sch k')" "state (proc k' p) = state (proc k p)"
      by (cases rule: create_table [OF e]; auto simp: same_field_def ready_proctab)+
    moreover note create_keeps_pids(1) [OF c(2) e] \<open>q \<noteq> p\<close>
    ultimately show ?thesis using s c q(2) run_okD [OF kinvD(2) [OF assms(1)]]
      by (auto simp: kinv_def kcore_def run_ok_def runnable_def fds_ok_same devs_ok_def)
  qed
  then show ?thesis unfolding do_create_def e by (simp add: returns_ok)
qed

text \<open>An arm that queues its caller behind the ready queue loses nobody.\<close>

lemma queued_ok:
  assumes "\<exists>q k'. res = Inr (q, k') \<and> kinv n k' q \<and> q # readyq (sch k') = xs"
    and "insert p (set (readyq (sch k))) \<subseteq> set xs"
  shows "ends_ok n (runnable k p) res"
proof -
  from assms(1) obtain q k' where q: "res = Inr (q, k')" "kinv n k' q" "q # readyq (sch k') = xs" by blast
  have "set xs = runnable k' q" unfolding q(3) [symmetric] by (simp add: runnable_def)
  with assms(2) q(1,2) show ?thesis by (simp add: runnable_def)
qed

text \<open>\<open>SYS_YIELD\<close> queues the caller.\<close>

lemma do_yield_step:
  assumes "kinv n k p"
  shows "\<exists>q k'. do_yield k p = Inr (q, k') \<and> kinv n k' q \<and> q # readyq (sch k') = readyq (sch k) @ [p]"
proof -
  note r = ready_sched [OF run_okD(1-4) [OF kinvD(2) [OF assms]]]
  have c: "kcore n (k\<lparr>sch := ready (sch k) p\<rparr>)"
    by (rule kcoreI [OF kinvD(1) [OF assms]]) (use r pids.kept_ready fds.kept_ready in auto)
  obtain q qs where q: "readyq (sch k) @ [p] = q # qs" by (meson append_is_Nil_conv list.distinct(1) neq_Nil_conv)
  from resched_step [OF c, of q qs] q r(2) show ?thesis by (auto simp: do_yield_def)
qed

lemma do_yield_ok: "kinv n k p \<Longrightarrow> ends_ok n (runnable k p) (do_yield k p)"
  using do_yield_step by (rule queued_ok) auto

text \<open>A timer interrupt queues the sleepers that are due and then the process it interrupts.\<close>

lemma do_timer_queue:
  assumes "kinv n k p"
  shows "\<exists>s. do_timer k p = resched (k\<lparr>sch := s\<rparr>) \<and> kcore n (k\<lparr>sch := s\<rparr>) \<and>
    readyq s = readyq (sch k) @ timer_due (sleepers (sch k)) @ [p] \<and> sleepers s = timer_tick (sleepers (sch k))"
proof -
  note c = kcoreD [OF kinvD(1) [OF assms]] and r = run_okD [OF kinvD(2) [OF assms]]
  from tick_ok [OF c(1)] obtain s where t: "tick (sch k) = Inr s" "sched_ok s"
    "readyq s = readyq (sch k) @ timer_due (sleepers (sch k))" "sleepers s = timer_tick (sleepers (sch k))" by blast
  let ?s1 = "set_pcb s p (\<lambda>c. c\<lparr>cpuTime := cpuTime c + 1\<rparr>)"
  have out: "p \<notin> set (readyq s)" "p \<notin> set (sleepq s)"
    using r(3,4) unfolding t(3) sleepq_sleepers [OF t(2), symmetric] sleepq_sleepers [OF c(1), symmetric] t(4)
    by (auto simp: timer_due_def timer_tick_def)
  have "same_queues s ?s1" by (rule set_pcb_outside [OF t(2) out])
  then have q: "sched_ok (ready ?s1 p)" "readyq (ready ?s1 p) = readyq s @ [p]" "sleepers (ready ?s1 p) = sleepers s"
    using ready_sched [of ?s1 p] r(2) out by (auto simp: same_queues_def)
  have "kcore n (k\<lparr>sch := ready ?s1 p\<rparr>)"
    by (rule kcoreI [OF kinvD(1) [OF assms]])
      (use q pids.kept_tick [OF t(1)] fds.kept_tick [OF t(1)] in \<open>auto simp: same_field_def ready_proctab\<close>)
  moreover have "do_timer k p = resched (k\<lparr>sch := ready ?s1 p\<rparr>)" by (simp add: do_timer_def t(1) Let_def upd_def)
  ultimately show ?thesis using q(2,3) t(3,4) by auto
qed

lemma do_timer_step:
  assumes "kinv n k p"
  shows "\<exists>q k'. do_timer k p = Inr (q, k') \<and> kinv n k' q \<and>
    q # readyq (sch k') = readyq (sch k) @ timer_due (sleepers (sch k)) @ [p]"
proof -
  from do_timer_queue [OF assms] obtain s where s: "do_timer k p = resched (k\<lparr>sch := s\<rparr>)" "kcore n (k\<lparr>sch := s\<rparr>)"
    "readyq s = readyq (sch k) @ timer_due (sleepers (sch k)) @ [p]" by blast
  have "readyq s \<noteq> []" by (simp add: s(3))
  then obtain q qs where q: "readyq s = q # qs" by (meson neq_Nil_conv)
  from resched_step [OF s(2), of q qs] q s show ?thesis by auto
qed

lemma do_timer_ok: "kinv n k p \<Longrightarrow> ends_ok n (runnable k p) (do_timer k p)"
  using do_timer_step by (rule queued_ok) auto

lemma take_off:
  assumes "kinv n k p" and "\<And>c. pid (f c) = pid c" and "\<And>c. fdt (f c) = fdt c"
  shows "kcore n (upd k p f)" "readyq (sch (upd k p f)) = readyq (sch k)"
proof -
  have s: "same_queues (sch k) (sch (upd k p f))"
    using set_pcb_outside run_okD [OF kinvD(2) [OF assms(1)]] by simp
  then show "readyq (sch (upd k p f)) = readyq (sch k)" by (simp add: same_queues_def)
  show "kcore n (upd k p f)"
    by (rule kcoreI [OF kinvD(1) [OF assms(1)]]) (use s assms in \<open>auto simp: same_queues_def same_field_def\<close>)
qed

lemma runnable_others:
  assumes "kinv n k p"
  shows "runnable k p - {p} = set (readyq (sch k))"
  using run_okD(3) [OF kinvD(2) [OF assms]] by (simp add: runnable_def)

lemma do_stop_ok: "kinv n k p \<Longrightarrow> ends_ok n (runnable k p - {p}) (do_stop k p)"
  using resched_ok [OF take_off(1)] take_off(2) by (auto simp: do_stop_def runnable_others)

lemma do_wait_ok:
  assumes "kinv n k p"
  shows "ends_ok n (runnable k p - {p}) (do_wait k p)"
proof -
  have "ends_ok n (runnable k p - {p}) (returns p (Inr (- 1, k)))" by (rule returns_ok [OF assms]) blast
  moreover have "ends_ok n (runnable k p - {p})
      (resched (upd k p (\<lambda>c. c\<lparr>state := STATE_WAIT, waitpid := w, ret := 0\<rparr>)))" for w
    using resched_ok [OF take_off(1) [OF assms]] take_off(2) [OF assms] by (auto simp: runnable_others [OF assms])
  ultimately show ?thesis by (simp add: do_wait_def Let_def)
qed

lemma do_sleep_ok:
  assumes "kinv n k p" and "arg k p 0 = 0 \<or> 10 \<le> unat (arg k p 0)"
  shows "ends_ok n (runnable k p - {p}) (do_sleep k p)"
proof (cases "arg k p 0 = 0")
  case True
  then have "do_sleep k p = do_yield k p" by (simp add: do_sleep_def do_yield_def sleep_def)
  with do_yield_ok [OF assms(1)] show ?thesis by (auto intro: ends_ok_mono)
next
  case False
  note r = run_okD [OF kinvD(2) [OF assms(1)]]
  from sched_okD [OF r(1)] have q: "rq (sch k) (readyq (sch k))" "sq (sch k) (sleepq (sch k))" by auto
  from sleep_sched [OF q r(2-4)] False assms(2) obtain s ys where
    s: "sleep (sch k) p (arg k p 0) = Inr s" "rq s (readyq (sch k))" "sq s ys" by blast
  have "kcore n (k\<lparr>sch := s\<rparr>)"
    by (rule kcoreI [OF kinvD(1) [OF assms(1)]])
      (use s sched_okI [OF s(2,3)] pids.kept_sleep fds.kept_sleep in auto)
  from resched_ok [OF this] s(1) sched_okI [OF s(2,3)] show ?thesis
    by (simp add: do_sleep_def runnable_others [OF assms(1)])
qed

text \<open>The processes that signal 31 takes off the ready queue.\<close>

definition kill_target :: "kernel \<Rightarrow> u32 \<Rightarrow> u32 \<Rightarrow> nat set" where
  "kill_target k pid' signum = (if signum = 31 then set_option (findPCB (sch k) pid') else {})"

lemma do_kill_ok:
  assumes "kinv n k p" and "\<And>t. findPCB (sch k) (arg k p 0) = Some t \<Longrightarrow> state (proc k t) \<noteq> STATE_SLEEP"
  shows "ends_ok n (runnable k p - (kill_target k (arg k p 0) (arg k p 1) - {p})) (do_kill pl k p)"
proof -
  from kill_sched [OF kinvD(2) [OF assms(1)] assms(2), of "arg k p 0" pl "arg k p 1"]
  obtain r k' where k: "kill pl k (arg k p 0) (arg k p 1) = Inr (r, k')" "run_ok (sch k') p" "kmem k' = kmem k"
    "\<forall>i \<in> set (readyq (sch k)). i \<in> set (readyq (sch k')) \<or> arg k p 1 = 31 \<and> findPCB (sch k) (arg k p 0) = Some i"
    by blast
  have "kcore n k'"
    by (rule kcoreI [OF kinvD(1) [OF assms(1)]])
      (use k run_okD(1) kill_devtable [OF k(1)] pids.kept_kill [OF k(1)] fds.kept_kill [OF k(1)] in auto)
  with k(2) have "kinv n k' p" by (simp add: kinv_def)
  then show ?thesis unfolding do_kill_def k(1)
    by (rule returns_ok) (use k(4) in \<open>auto simp: runnable_def kill_target_def\<close>)
qed

section \<open>Devices\<close>

lemma only_fdt_core:
  assumes "kcore n k" and "only_fdt k p k'" and "fds_ok (sch k')"
  shows "kcore n k'" "readyq (sch k') = readyq (sch k)"
  using assms only_fdt_sched [OF assms(2)] only_fdt_table(1) [OF assms(2)]
  by (auto simp: kcore_def same_pids_ok devs_ok_def same_queues_def)

lemma only_fdt_inv:
  assumes "kinv n k p" and "only_fdt k p k'" and "fds_ok (sch k')"
  shows "kinv n k' p" "runnable k' p = runnable k p"
proof -
  note c = kinvD(1) [OF assms(1)]
  have "run_ok (sch k') p"
    by (rule run_ok_same [OF kinvD(2) [OF assms(1)]])
      (use only_fdt_sched [OF assms(2)] kcoreD(1) [OF c] run_okD(5) [OF kinvD(2) [OF assms(1)]] in auto)
  with only_fdt_core [OF c assms(2,3)] show "kinv n k' p" "runnable k' p = runnable k p"
    by (auto simp: kinv_def runnable_def)
qed

lemma returns_fdt:
  assumes "kinv n k p" and "only_fdt k p (snd x)" and "fds_ok (sch (snd x))"
  shows "ends_ok n (runnable k p) (returns p (Inr x))"
  using returns_ok [OF only_fdt_inv(1) [OF assms], of "runnable k p" "fst x"] only_fdt_inv(2) [OF assms] by simp

lemma do_open_ok:
  assumes "kinv n k p"
  shows "ends_ok n (runnable k p) (do_open k p)"
proof -
  note c = kcoreD [OF kinvD(1) [OF assms]] and p = kinvD(3) [OF assms]
  have "ends_ok n (runnable k p) (returns p (Inr (call_open d k p i)))" if "i < MAX_DEV" for d i
    by (rule returns_fdt [OF assms drv.open_quiet open_keeps_fds [OF c(4) p that]])
  then show ?thesis using di_open_eq [OF c(3), of p "arg k p 0"] returns_ok [OF assms order.refl]
    by (simp add: do_open_def)
qed

lemma do_close_ok:
  assumes "kinv n k p"
  shows "ends_ok n (runnable k p) (do_close k p)"
proof -
  note c = kcoreD [OF kinvD(1) [OF assms]] and p = kinvD(3) [OF assms]
  have "ends_ok n (runnable k p) (returns p (Inr (call_close d k p fd)))" for d fd
    by (rule returns_fdt [OF assms drv.close_quiet close_keeps_fds [OF c(4)]])
  then show ?thesis using di_close_eq [OF c(3,4) p, of "arg k p 0"] returns_ok [OF assms order.refl]
    by (auto simp: do_close_def)
qed

lemma do_write_ok:
  assumes "kinv n k p"
  shows "ends_ok n (runnable k p) (do_write pl k p)"
proof -
  note c = kcoreD [OF kinvD(1) [OF assms]] and p = kinvD(3) [OF assms]
  have "ends_ok n (runnable k p) (returns p (Inr (call_write d k p fd b l)))" for d fd b l
    by (rule returns_fdt [OF assms]) (use call_write_quiet c(4) in auto)
  then show ?thesis
    using di_write_eq [OF c(3,4) p, of pl "arg k p 0" "arg k p 1" "arg k p 2"] returns_ok [OF assms order.refl]
    by (auto simp: do_write_def)
qed

lemma do_ioctl_ok:
  assumes "kinv n k p"
  shows "ends_ok n (runnable k p) (do_ioctl k p)"
proof -
  note c = kcoreD [OF kinvD(1) [OF assms]] and p = kinvD(3) [OF assms]
  have "ends_ok n (runnable k p) (returns p (Inr (call_ioctl d k fd b l)))" for d fd b l
    by (rule returns_fdt [OF assms]) (use call_ioctl_quiet c(4) in auto)
  then show ?thesis
    using di_ioctl_eq [OF c(3,4) p, of "arg k p 0" "arg k p 1" "arg k p 2"] returns_ok [OF assms order.refl]
    by (auto simp: do_ioctl_def)
qed

lemma do_keyboard_ok:
  assumes "kinv n k p"
  shows "ends_ok n (runnable k p) (do_keyboard k p a b)"
proof -
  note c = kcoreD [OF kinvD(1) [OF assms]]
  from kbdHandler_sched [of k p a b] obtain k' where k: "kbdHandler k p a b = Inr k'" "only_fdt k p k'" by blast
  then have "fds_ok (sch k')" using kbdHandler_keeps_fds [OF c(4)] by blast
  from only_fdt_inv [OF assms k(2) this] show ?thesis by (simp add: do_keyboard_def k(1))
qed

lemma do_read_ok:
  assumes "kinv n k p" and "device (fdt (proc k p) (unat (arg k p 0))) = Some 2 \<Longrightarrow> \<not> eof_next k"
    and "read_ends k p (arg k p 0) (arg k p 2)"
  shows "ends_ok n (runnable k p - {p}) (do_read pl lb k p)"
proof -
  note c = kcoreD [OF kinvD(1) [OF assms(1)]] and p = kinvD(3) [OF assms(1)]
  let ?fd = "arg k p 0" and ?b = "arg k p 1" and ?l = "arg k p 2"
  from di_read_ends [OF c(3,4) p assms(3), of pl lb ?b] obtain i where
    i: "\<not> bad_fd k p ?fd \<Longrightarrow> i < MAX_DEV \<and> device (fdt (proc k p) (unat ?fd)) = Some i"
    and e: "di_read pl lb k p ?fd ?b ?l =
      (if bad_fd k p ?fd \<or> bad_addr pl ?b then Inr (- 1, k) else call_read (dev_driver i) lb k p ?fd ?b ?l)"
    and ret: "\<exists>r k'. di_read pl lb k p ?fd ?b ?l = Inr (r, k')" by blast
  show ?thesis
  proof (cases "bad_fd k p ?fd \<or> bad_addr pl ?b")
    case True
    have "ends_ok n (runnable k p - {p}) (returns p (Inr (- 1, k)))" by (rule returns_ok [OF assms(1)]) blast
    with True e show ?thesis by (simp add: do_read_def)
  next
    case False
    with e ret obtain r k' where k: "call_read (dev_driver i) lb k p ?fd ?b ?l = Inr (r, k')" by auto
    have "\<not> eof_next k" if "dev_driver i = KbdDrv"
      using that i False assms(2) by (auto simp: dev_driver_def less_Suc_eq numeral_3_eq_3 split: if_splits)
    note cr = call_read_sched [OF this k] and kf = read_keeps_fds [OF c(4) k]
    have "kcore n k' \<and> readyq (sch k') = readyq (sch k) \<and> (r \<noteq> - 3 \<longrightarrow> kinv n k' p)"
    proof (cases "only_fdt k p k'")
      case True
      with only_fdt_core [OF kinvD(1) [OF assms(1)] True] only_fdt_inv(1) [OF assms(1) True] kf
      show ?thesis by simp
    next
      case False
      with cr have b: "r = - 3" "sch k' = set_pcb (sch k) p (\<lambda>q. q\<lparr>state := STATE_BLOCKED\<rparr>)"
        "kmem k' = kmem k" "devtable k' = devtable k" by auto
      have "kcore n k'" by (rule kcoreI [OF take_off(1) [OF assms(1), of "\<lambda>q. q\<lparr>state := STATE_BLOCKED\<rparr>"]])
        (use b take_off(1) [OF assms(1), of "\<lambda>q. q\<lparr>state := STATE_BLOCKED\<rparr>"] in \<open>auto simp: same_field_refl kcore_def\<close>)
      with b take_off(2) [OF assms(1), of "\<lambda>q. q\<lparr>state := STATE_BLOCKED\<rparr>"] show ?thesis by simp
    qed
    then have "ends_ok n (runnable k p - {p}) (if r = - 3 then resched k' else returns p (Inr (r, k')))"
      using resched_ok [of n k'] returns_ok [of n k' p "runnable k p - {p}" r]
      by (auto simp: runnable_others [OF assms(1)] runnable_def [of k'])
    then show ?thesis using False e k by (simp add: do_read_def)
  qed
qed

section \<open>The switch and the loop\<close>

text \<open>
  The requests the kernel can serve soundly. The exclusions are the requests on which the code is
  known to go wrong (each has a theorem of its own or runs off the end of an array) and a stack size
  or a string that no memory can hold.
\<close>

definition polite :: "platform \<Rightarrow> kernel \<Rightarrow> nat \<Rightarrow> u32 \<Rightarrow> bool" where
  "polite pl k p r \<longleftrightarrow>
     (r = SYS_KILL \<longrightarrow> (\<forall>t < MAX_PROC. findPCB (sch k) (arg k p 0) = Some t \<longrightarrow> state (proc k t) \<noteq> STATE_SLEEP)) \<and>
     (r = SYS_SLEEP \<longrightarrow> arg k p 0 = 0 \<or> 10 \<le> arg k p 0) \<and>
     (r = SYS_READ \<longrightarrow> device (fdt (proc k p) (unat (arg k p 0))) = Some 2 \<longrightarrow> \<not> eof_next k) \<and>
     (r = SYS_READ \<longrightarrow> read_ends k p (arg k p 0) (arg k p 2)) \<and>
     (r = SYS_SIGHANDLER \<longrightarrow> bad_addr pl (arg k p 1) \<or> 0 \<le> sint (arg k p 0) \<and> sint (arg k p 0) < 32) \<and>
     (r = SYS_PUTS \<longrightarrow> (\<exists>n. ram k (arg k p 0 + of_nat n) = 0)) \<and>
     (r = SYS_CREATE \<longrightarrow> unat (arg k p 1) \<le> 4294967264)"

text \<open>The processes a request may take off the processor or off the ready queue.\<close>

definition takes_off :: "kernel \<Rightarrow> nat \<Rightarrow> u32 \<Rightarrow> nat set" where
  "takes_off k p r =
    (if r = SYS_STOP \<or> r = SYS_SLEEP \<or> r = SYS_WAIT \<or> r = SYS_READ then {p}
     else if r = SYS_KILL then kill_target k (arg k p 0) (arg k p 1) - {p} else {})"

lemma kinv_less: "kinv (Suc n) k p \<Longrightarrow> kinv n k p"
  using kcore_less by (simp add: kinv_def)

lemma switch_keeps:
  assumes "kinv (Suc n) k p" and "polite pl k p r"
  shows "ends_ok n (runnable k p - takes_off k p r) (dispatch_switch pl lb io k p r)"
proof -
  note i = kinv_less [OF assms(1)]
  have t: "t < MAX_PROC" if "findPCB (sch k) x = Some t" for t x
    using that by (auto simp: findPCB_def dest!: find_SomeD)
  have pol: "r = SYS_CREATE \<Longrightarrow> unat (arg k p 1) \<le> 4294967264"
    "\<And>t. r = SYS_KILL \<Longrightarrow> findPCB (sch k) (arg k p 0) = Some t \<Longrightarrow> state (proc k t) \<noteq> STATE_SLEEP"
    "r = SYS_SLEEP \<Longrightarrow> arg k p 0 = 0 \<or> 10 \<le> unat (arg k p 0)"
    "r = SYS_READ \<Longrightarrow> device (fdt (proc k p) (unat (arg k p 0))) = Some 2 \<Longrightarrow> \<not> eof_next k"
    "r = SYS_READ \<Longrightarrow> read_ends k p (arg k p 0) (arg k p 2)"
    "r = SYS_SIGHANDLER \<Longrightarrow> bad_addr pl (arg k p 1) \<or> 0 \<le> sint (arg k p 0) \<and> sint (arg k p 0) < 32"
    "r = SYS_PUTS \<Longrightarrow> \<exists>n. ram k (arg k p 0 + of_nat n) = 0"
    using assms(2) t by (auto simp: polite_def word_le_nat_alt)
  show ?thesis
    using do_create_ok [OF assms(1) pol(1)] do_yield_ok [OF i] do_stop_ok [OF i] do_kill_ok [OF i pol(2)]
      do_cputimes_ok [OF i] do_puts_ok [OF i] pol(7) do_getpid_ok [OF i] do_sleep_ok [OF i pol(3)] do_timer_ok [OF i]
      do_sighandler_ok [OF i pol(6)] do_sigreturn_ok [OF i] do_wait_ok [OF i] do_open_ok [OF i] do_close_ok [OF i]
      do_read_ok [OF i pol(4,5)] do_write_ok [OF i] do_ioctl_ok [OF i] do_keyboard_ok [OF i] i
    unfolding dispatch_switch_def takes_off_def by auto
qed

text \<open>A context switch touches the saved stack pointer, return value and arguments of its process only.\<close>

lemma contextswitch_keeps:
  assumes "kinv n k p" and "contextswitch k p u = (r, k1)"
  shows "kinv n k1 p" "runnable k1 p = runnable k p" "same_queues (sch k) (sch k1)"
proof -
  obtain t rs m where "u (fst (switch_out k p)) (ram (snd (switch_out k p))) = (t, rs, m)" by (metis prod_cases3)
  then have si: "switch_in (k\<lparr>ram := m\<rparr>) p t rs = (r, k1)"
    using assms(2) by (simp add: contextswitch_def switch_out_def Let_def)
  note eq = switch_in_eq(2) [OF si]
  show "same_queues (sch k) (sch k1)"
    using switch_in_fields(6) [OF si] kcoreD(1) [OF kinvD(1) [OF assms(1)]] by simp
  define f where "f c = c\<lparr>esp := r_esp rs - 44, ret := (if t = 1 \<or> t = 2 then r_eax rs else ret c),
    args := (if t = 1 \<or> t = 2 then args c else r_edx rs)\<rparr>" for c :: pcb
  have e: "sch k1 = sch (upd k p f)" "devtable k1 = devtable k" "kmem k1 = kmem k"
    by (simp_all add: eq f_def)
  have g: "kinv n (upd k p f) p" "runnable (upd k p f) p = runnable k p"
    by (rule kinv_upd [OF assms(1)]; simp add: f_def)+
  show "kinv n k1 p" "runnable k1 p = runnable k p"
    using kinv_frame [OF g(1), of k1] g(2) e by simp_all
qed

end
