(* ===== verification/Init.thy ===== *)
theory Init
  imports Dispatch_Inv
begin

text \<open>
  The start of the system, \<open>c/init.c\<close>: \<open>initproc\<close> sets up memory, the process table and the device
  table, creates the idle process and the first user program, and enters the dispatcher. The
  addresses of the two process functions are arguments; \<open>contextinit\<close> (theory \<open>Ctsw_Asm\<close>) programs the interrupt
  table and the timer and has no part in the state. Each device's entry is filled in a block of its
  own and copied into the table; the block is not used again and its contents are not modelled.
\<close>

section \<open>Operations\<close>

definition sizeof_devsw :: u32 where [simp]: "sizeof_devsw = 24"

definition add_device :: "kernel \<Rightarrow> nat \<Rightarrow> devsw \<Rightarrow> kernel kres" where
  "add_device k i d =
    (case kmalloc (kmem k) sizeof_devsw of
       Inl e \<Rightarrow> Inl e
     | Inr (a, ms) \<Rightarrow>
         if a = 0 then Inl NullDeref else Inr (k\<lparr>kmem := ms, devtable := (devtable k)(i := d)\<rparr>))"

definition initdevices :: "kernel \<Rightarrow> kernel kres" where
  "initdevices k =
    (case add_device k 0 (dev_entry 0 ZeroDrv) of
       Inl e \<Rightarrow> Inl e
     | Inr k1 \<Rightarrow>
         (case add_device k1 1 (dev_entry 1 RandDrv) of
            Inl e \<Rightarrow> Inl e
          | Inr k2 \<Rightarrow> add_device k2 2 (dev_entry 2 KbdDrv)))"

definition initproc :: "platform \<Rightarrow> u32 \<Rightarrow> u32 \<Rightarrow> kernel \<Rightarrow> (nat \<times> kernel) kres" where
  "initproc pl idleproc initProgram k =
    (let k1 = k\<lparr>kmem := kmeminit pl (kmem k)\<rparr>;
         k2 = k1\<lparr>sch := dispatchinit (sch k1)\<rparr>
     in case initdevices k2 of
          Inl e \<Rightarrow> Inl e
        | Inr k3 \<Rightarrow>
            (case create pl k3 idleproc PROC_STACK of
               Inl e \<Rightarrow> Inl e
             | Inr (_, k4) \<Rightarrow>
                 (case create pl k4 initProgram PROC_STACK of
                    Inl e \<Rightarrow> Inl e
                  | Inr (_, k5) \<Rightarrow> resched k5)))"

section \<open>Memory at start-up\<close>

text \<open>The block at \<open>memSlot\<close> can serve \<open>m\<close> bytes.\<close>

definition slot_room :: "nat \<Rightarrow> memstate \<Rightarrow> bool" where
  "slot_room m s \<longleftrightarrow> memSlot s \<noteq> 0 \<and> m \<le> unat (mh_size (hdrs s (memSlot s)))"

lemma kmalloc_room:
  assumes "heap (Suc k) s rs" and "slot_room (unat n + 32 + m) s" and "0 < unat n"
  shows "\<exists>r s'. kmalloc s n = Inr (r, s') \<and> r \<noteq> 0 \<and> heap k s' (r # rs) \<and> slot_room m s'"
proof -
  let ?c = "memSlot s" and ?q = "aligned n"
  let ?sz = "mh_size (hdrs s ?c)" and ?n = "?c + 16 + ?q"
  from assms(1) obtain zs where fl: "fl (Suc k) s zs" by (auto simp: heap_def)
  have c: "?c \<noteq> 0" "unat n + 32 + m \<le> unat ?sz" using assms(2) by (auto simp: slot_room_def)
  have "?c \<in> set zs" using fl c(1) by (auto simp: fl_def split: if_splits)
  from fl_blk [OF fl this] have e: "unat ?c + 16 + unat ?sz < 4294967296" by (simp add: blk_end_def)
  have q: "unat n \<le> unat ?q" "unat ?q \<le> unat n + 15" using e c(2) by (auto simp: unat_aligned)
  then have q0: "?q \<noteq> 0" using assms(3) by auto
  have sm: "unat (?q + 16) = unat ?q + 16" "unat ?n = unat ?c + 16 + unat ?q" "unat (?sz - ?q) = unat ?sz - unat ?q"
    using e c(2) q by (auto simp: unat_word_ariths unat_sub word_le_nat_alt)
  have "?q + 16 < ?sz" using sm(1) q c(2) by (simp add: word_less_nat_alt)
  then have k: "kmalloc s n = Inr (kmalloc_split s ?q ?c)"
    using c(1) q0 by (simp add: kmalloc_def Let_def kmalloc_loop.simps [of s ?q ?c])
  have "unat ?n \<noteq> unat ?c" "unat ?n \<noteq> 0" using sm(2) by simp_all
  then have ne: "?n \<noteq> ?c" "?n \<noteq> 0" by (metis, metis unat_0)
  have f: "memSlot (snd (kmalloc_split s ?q ?c)) = ?n" "mh_size (hdrs (snd (kmalloc_split s ?q ?c)) ?n) = ?sz - ?q"
    "fst (kmalloc_split s ?q ?c) = ?c + 16"
    using ne by (auto simp: kmalloc_split_def Let_def completeHeader_def)
  have "unat (?c + 16) = unat ?c + 16" using e by (simp add: unat_word_ariths)
  then have "?c + 16 \<noteq> 0" by auto
  moreover have "slot_room m (snd (kmalloc_split s ?q ?c))"
    unfolding slot_room_def f using ne(2) sm(3) q(2) c(2) by simp
  ultimately show ?thesis
    using km.alloc_law [OF assms(1), of n] k f(3) e c(2) by (cases "kmalloc_split s ?q ?c") fastforce
qed

lemma add_device_ok:
  assumes "heap (Suc n) (kmem k) rs" and "slot_room (56 + m) (kmem k)"
  shows "\<exists>k' r. add_device k i d = Inr k' \<and> heap n (kmem k') (r # rs) \<and> slot_room m (kmem k') \<and>
    sch k' = sch k \<and> nextpid k' = nextpid k \<and> devtable k' = (devtable k)(i := d)"
  using kmalloc_room [OF assms(1), of 24 m] assms(2) by (auto simp: add_device_def)

lemma initdevices_ok:
  assumes "heap (Suc (Suc (Suc n))) (kmem k) rs" and "slot_room (168 + m) (kmem k)"
  shows "\<exists>k' rs'. initdevices k = Inr k' \<and> heap n (kmem k') rs' \<and> slot_room m (kmem k') \<and>
    sch k' = sch k \<and> nextpid k' = nextpid k \<and> devs_ok k'"
proof -
  from add_device_ok [OF assms(1), of "112 + m" 0 "dev_entry 0 ZeroDrv"] assms(2) obtain k1 r1 where
    1: "add_device k 0 (dev_entry 0 ZeroDrv) = Inr k1" "heap (Suc (Suc n)) (kmem k1) (r1 # rs)"
    "slot_room (112 + m) (kmem k1)" "sch k1 = sch k" "nextpid k1 = nextpid k"
    "devtable k1 = (devtable k)(0 := dev_entry 0 ZeroDrv)" by auto
  from add_device_ok [OF 1(2), of "56 + m" 1 "dev_entry 1 RandDrv"] 1 obtain k2 r2 where
    2: "add_device k1 1 (dev_entry 1 RandDrv) = Inr k2" "heap (Suc n) (kmem k2) (r2 # r1 # rs)"
    "slot_room (56 + m) (kmem k2)" "sch k2 = sch k" "nextpid k2 = nextpid k"
    "devtable k2 = (devtable k1)(1 := dev_entry 1 RandDrv)" by auto
  from add_device_ok [OF 2(2), of "m" 2 "dev_entry 2 KbdDrv"] 2 obtain k3 r3 where
    3: "add_device k2 2 (dev_entry 2 KbdDrv) = Inr k3" "heap n (kmem k3) (r3 # r2 # r1 # rs)"
    "slot_room m (kmem k3)" "sch k3 = sch k" "nextpid k3 = nextpid k"
    "devtable k3 = (devtable k2)(2 := dev_entry 2 KbdDrv)" by auto
  have "devs_ok k3"
    using 1(6) 2(6) 3(6) by (auto simp: devs_ok_def dev_driver_def less_Suc_eq numeral_3_eq_3)
  with 1 2 3 show ?thesis by (auto simp: initdevices_def)
qed

section \<open>The first processes\<close>

lemma slot_room_init:
  assumes "layout_ok 0 pl" and "unat (aligned (freemem pl)) + 16 + m \<le> unat (HOLESTART pl)"
  shows "slot_room m (kmeminit pl s)"
proof -
  let ?b = "aligned (freemem pl)"
  have ne: "?b \<noteq> HOLEEND pl" "?b \<noteq> 0" using assms(1) by (auto simp: layout_ok_def)
  moreover have "unat (HOLESTART pl - ?b - 16) = unat (HOLESTART pl) - unat ?b - 16"
    using assms(2) unat_sub_sub [of ?b 16 "HOLESTART pl"] by simp
  ultimately show ?thesis using assms(2) by (simp add: slot_room_def kmeminit_def Let_def)
qed

text \<open>\<open>create\<close> with a free slot next in turn and memory to spare.\<close>

lemma create_succeeds:
  assumes "sched_ok (sch k)" and "heap (Suc n) (kmem k) rs" and "slot_room (16416 + m) (kmem k)"
    and "state (proc k (unat (nextpid k + 1) mod MAX_PROC)) = STATE_STOPPED"
  shows "\<exists>k' blk. create pl k fp PROC_STACK = Inr (nextpid k + 1, k') \<and>
    created pl k fp (unat (nextpid k + 1) mod MAX_PROC) (nextpid k + 1) k' \<and> heap n (kmem k') (blk # rs) \<and>
    slot_room m (kmem k')"
proof -
  let ?r = "nextpid k + 1"
  let ?q = "unat ?r mod MAX_PROC"
  have "create_probe (Suc 63) (sch k) (nextpid k) = (Some ?q, ?r)"
    unfolding create_probe.simps Let_def using assms(4) by simp
  then have pr: "create_probe MAX_PROC (sch k) (nextpid k) = (Some ?q, ?r)" by simp
  from kmalloc_room [OF assms(2), of PROC_STACK m] assms(3) obtain a s where
    a: "kmalloc (kmem k) PROC_STACK = Inr (a, s)" "a \<noteq> 0" "slot_room m s" by auto
  obtain k' where k': "create pl k fp PROC_STACK = Inr (?r, k')" "kmem k' = s"
    using pr a(1,2) by (simp add: create_def Let_def ready_proctab)
  have "?q < MAX_PROC" by simp
  with assms(4) have "\<not> (\<forall>q < MAX_PROC. state (proc k q) \<noteq> STATE_STOPPED)" by blast
  with create_result [OF assms(1,2), of PROC_STACK pl fp] k'(1) a(1,2) obtain p blk where
    p: "created pl k fp p ?r k'" "heap n (kmem k') (blk # rs)" by auto
  moreover from p(1) have "p = ?q" by (simp add: created_def)
  ultimately show ?thesis using k' a(3) by auto
qed

lemma create_core:
  assumes "kcore (Suc n) k" and "create pl k fp sz = Inr (r, k')" and "created pl k fp p r k'"
    and "\<exists>rs. heap n (kmem k') rs"
  shows "kcore n k'"
proof -
  note c = kcoreD [OF assms(1)]
  have "devtable k' = devtable k \<and> same_fdts (sch k) (sch k')"
    by (cases rule: create_table [OF assms(2)]) (auto simp: same_field_def ready_proctab)
  with c assms(3,4) create_keeps_pids(1) [OF c(2) assms(2)] show ?thesis
    by (auto simp: kcore_def created_def devs_ok_def fds_ok_same)
qed

lemma create_others:
  assumes "create pl k fp sz = Inr (r, k')" and "i \<noteq> unat r mod MAX_PROC"
  shows "state (proc k' i) = state (proc k i)" "pid (proc k' i) = pid (proc k i)"
  using assms(2) by (cases rule: create_table [OF assms(1)]; simp add: ready_proctab)+

lemma boot_result:
  assumes "layout_ok (n + 5) pl" and "unat (aligned (freemem pl)) + 33016 \<le> unat (HOLESTART pl)"
  shows "\<exists>k. initproc pl idleproc initProgram (image m h) = Inr (1, k) \<and> kinv n k 1 \<and> readyq (sch k) = [2] \<and>
    sleepers (sch k) = [] \<and> pid (proc k 1) = 1 \<and> pid (proc k 2) = 2 \<and>
    (\<forall>i < MAX_PROC. i \<noteq> 1 \<longrightarrow> i \<noteq> 2 \<longrightarrow> state (proc k i) = STATE_STOPPED)"
proof -
  define k2 where "k2 = (image m h)\<lparr>kmem := kmeminit pl (kmem (image m h)), sch := boot_sched\<rparr>"
  have s2: "sch k2 = boot_sched" "nextpid k2 = 0" by (simp_all add: k2_def image_def)
  have z: "proc k2 i = zero_pcb" for i by (simp add: s2 boot_sched_def dispatchinit_def)
  have "heap (Suc (Suc (Suc (Suc (Suc n))))) (kmem k2) []"
    using kmeminit_fl [OF assms(1)] by (auto simp: heap_def k2_def eval_nat_numeral)
  moreover have "slot_room (168 + 32832) (kmem k2)"
    unfolding k2_def using slot_room_init [of pl 33000] assms by (simp add: layout_ok_def)
  ultimately obtain k3 rs where k3: "initdevices k2 = Inr k3" "heap (Suc (Suc n)) (kmem k3) rs"
    "slot_room (16416 + 16416) (kmem k3)" "sch k3 = boot_sched" "nextpid k3 = 0" "devs_ok k3"
    using initdevices_ok [of "Suc (Suc n)" k2 "[]" 32832] s2 by auto
  have c3: "kcore (Suc (Suc n)) k3"
    using k3 boot_sched_ok
    by (auto simp: kcore_def pids_ok_def fds_ok_def fd_ok_def boot_sched_def dispatchinit_def zero_pcb_def zero_fd_def)
  have z3: "state (proc k3 i) = STATE_STOPPED" for i using z by (simp add: k3(4) s2 zero_pcb_def)
  from create_succeeds [OF kcoreD(1) [OF c3] k3(2,3), of pl idleproc] z3 k3(5) obtain k4 b where
    k4: "create pl k3 idleproc PROC_STACK = Inr (1, k4)" "created pl k3 idleproc 1 1 k4"
    "heap (Suc n) (kmem k4) (b # rs)" "slot_room (16416 + 0) (kmem k4)" by auto
  have c4: "kcore (Suc n) k4" using create_core [OF c3 k4(1,2)] k4(3) by blast
  have t4: "nextpid k4 = 1" "readyq (sch k4) = [1]" "sleepers (sch k4) = []" "pid (proc k4 1) = 1"
    "\<And>i. i \<noteq> 1 \<Longrightarrow> state (proc k4 i) = STATE_STOPPED"
    using k4(2) k3(4) boot_sched_ok create_others(1) [OF k4(1)] z3 by (simp_all add: created_def)
  from create_succeeds [OF kcoreD(1) [OF c4] k4(3,4), of pl initProgram] t4 obtain k5 b' where
    k5: "create pl k4 initProgram PROC_STACK = Inr (2, k5)" "created pl k4 initProgram 2 2 k5"
    "heap n (kmem k5) (b' # b # rs)" by auto
  have c5: "kcore n k5" using create_core [OF c4 k5(1,2)] k5(3) by blast
  have t5: "readyq (sch k5) = [1, 2]" "sleepers (sch k5) = []" "pid (proc k5 2) = 2" "pid (proc k5 1) = 1"
    "\<And>i. i \<noteq> 1 \<Longrightarrow> i \<noteq> 2 \<Longrightarrow> state (proc k5 i) = STATE_STOPPED"
    using k5(2) t4 create_others [OF k5(1)] by (simp_all add: created_def)
  have "initproc pl idleproc initProgram (image m h) = resched k5"
    using k3(1) k4(1) k5(1)
    by (simp add: initproc_def Let_def k2_def image_def boot_sched_def dispatchinit_def)
  moreover obtain s where s: "next_proc (sch k5) = Inr (1, s)" "run_ok s 1" "readyq s = [2]" "sleepers s = []"
    using next_run [OF kcoreD(1) [OF c5] t5(1)] t5(2) by auto
  moreover have "kcore n (k5\<lparr>sch := s\<rparr>)"
    by (rule kcoreI [OF c5]) (use s run_okD(1) pids.kept_next fds.kept_next in auto)
  moreover have "pid (proctab s 1) = 1" "pid (proctab s 2) = 2"
    "\<And>i. i \<noteq> 1 \<Longrightarrow> i \<noteq> 2 \<Longrightarrow> state (proctab s i) = STATE_STOPPED"
    using t5 by (simp_all add: next_proc_fields [OF s(1)])
  ultimately show ?thesis by (simp add: resched_def kinv_def)
qed

section \<open>Properties\<close>

text \<open>
  C6. The kernel boots into a sound state. On any memory map with 33016 bytes between the start of free
  memory and the hole, and with \<open>n + 5\<close> spare headers, \<open>initproc\<close> reaches the dispatcher without a
  fault: the idle process (identifier 1) runs first, the initial program (identifier 2) is the only
  one queued, nobody sleeps, every other slot is free, the device table is filled, and the invariant of
  the dispatcher holds with \<open>n\<close> more allocations to go.
\<close>

theorem boot_ok:
  assumes "layout_ok (n + 5) pl" and "unat (aligned (freemem pl)) + 33016 \<le> unat (HOLESTART pl)"
  shows "\<exists>k. initproc pl idleproc initProgram (image m h) = Inr (1, k) \<and> kinv n k 1 \<and> readyq (sch k) = [2] \<and>
    sleepers (sch k) = [] \<and> pid (proc k 1) = 1 \<and> pid (proc k 2) = 2 \<and>
    (\<forall>i < MAX_PROC. i \<noteq> 1 \<longrightarrow> i \<noteq> 2 \<longrightarrow> state (proc k i) = STATE_STOPPED)"
  using assms by (rule boot_result)

lemma pc_room: "unat (aligned (freemem pc_platform)) + 33016 \<le> unat (HOLESTART pc_platform)"
  unfolding pc_aligned by (simp add: pc_platform_def)

theorem boot_ok_witness:
  "\<exists>k. initproc pc_platform 0x5000 0x6000 (image (\<lambda>_. 0) (hdrs raw_mem)) = Inr (1, k) \<and> kinv 62971 k 1"
proof -
  have "layout_ok (62971 + 5) pc_platform" by (rule pc_layout) simp
  from boot_ok [OF this pc_room, of "0x5000" "0x6000" "\<lambda>_. 0" "hdrs raw_mem"] show ?thesis by blast
qed

end
