(* ===== verification/State_Types.thy ===== *)
theory State_Types
  imports Init
begin

unbundle bit_operations_syntax

text \<open>
  The values the kernel's variables can take. C declares the state of a process, the status of a
  descriptor, the echo flag and the modifier state of the keyboard as plain integers; \<open>ktyped\<close> says which
  of them are meant. It holds at boot and is kept by every operation the dispatcher calls, also on
  requests that corrupt the queues: nothing is asked of the state but that it is typed itself. The one
  request that can break it is installing a handler under a signal number that is none, which stores
  the handler's address elsewhere in the process table (\<open>sighandler_overruns\<close>).
\<close>

section \<open>Typed states\<close>

definition fd_typed :: "fdStruct \<Rightarrow> bool" where
  "fd_typed f \<longleftrightarrow> dataBuffer f = 0 \<and>
     (status f = fd_OPEN \<and> (\<exists>d < MAX_DEV. device f = Some d) \<or> status f = fd_CLOSE \<and> device f = None)"

definition pcb_typed :: "pcb \<Rightarrow> bool" where
  "pcb_typed c \<longleftrightarrow> state c \<in> proc_states \<and> (\<forall>i < MAX_FDT. fd_typed (fdt c i))"

definition modifiers :: u32 where
  "modifiers = INCTL OR INSHIFT OR CAPSLOCK OR INMETA"

definition kbd_typed :: "kbdstate \<Rightarrow> bool" where
  "kbd_typed b \<longleftrightarrow> (echo b = ECHO_ON \<or> echo b = ECHO_OFF) \<and> kstate b AND NOT modifiers = 0"

definition ktyped :: "kernel \<Rightarrow> bool" where
  "ktyped k \<longleftrightarrow> (\<forall>i. pcb_typed (proc k i)) \<and> kbd_typed (kbd k)"

text \<open>An outcome of an operation: a fault, or a typed state.\<close>

definition ends_typed :: "('a \<times> kernel) kres \<Rightarrow> bool" where
  "ends_typed res \<longleftrightarrow> (case res of Inl e \<Rightarrow> True | Inr (v, k) \<Rightarrow> ktyped k)"

lemma ends_typed_simps [simp]: "ends_typed (Inl e)" "ends_typed (Inr (v, k)) \<longleftrightarrow> ktyped k"
  by (simp_all add: ends_typed_def)

interpretation typed: pcb_rel "\<lambda>c c'. pcb_typed c \<longrightarrow> pcb_typed c'"
  by unfold_locales (auto simp: pcb_typed_def)

abbreviation typed_rel :: "sched \<Rightarrow> sched \<Rightarrow> bool" where
  "typed_rel \<equiv> related (\<lambda>c c'. pcb_typed c \<longrightarrow> pcb_typed c')"

lemma ktyped_rel: "ktyped k \<Longrightarrow> typed_rel (sch k) (sch k') \<Longrightarrow> kbd k' = kbd k \<Longrightarrow> ktyped k'"
  by (simp add: ktyped_def related_def)

lemma ktyped_same: "sch k' = sch k \<Longrightarrow> kbd k' = kbd k \<Longrightarrow> ktyped k' = ktyped k"
  by (simp add: ktyped_def)

lemma ktyped_upd: "ktyped k \<Longrightarrow> (\<And>c. pcb_typed c \<Longrightarrow> pcb_typed (f c)) \<Longrightarrow> ktyped (upd k p f)"
  by (simp add: ktyped_def)

lemma pcb_typed_upd [simp]:
  "pcb_typed (c\<lparr>ret := v\<rparr>) = pcb_typed c" "pcb_typed (c\<lparr>esp := v\<rparr>) = pcb_typed c" "pcb_typed (c\<lparr>args := v\<rparr>) = pcb_typed c"
  "pcb_typed (c\<lparr>pid := v\<rparr>) = pcb_typed c" "pcb_typed (c\<lparr>cpuTime := v\<rparr>) = pcb_typed c" "pcb_typed (c\<lparr>sigtab := h\<rparr>) = pcb_typed c"
  "pcb_typed (c\<lparr>waitpid := v\<rparr>) = pcb_typed c" "pcb_typed (c\<lparr>sigmask := v\<rparr>) = pcb_typed c"
  "pcb_typed (c\<lparr>currSigLvl := v\<rparr>) = pcb_typed c"
  by (simp_all add: pcb_typed_def)

lemma pcb_typed_state: "pcb_typed c \<Longrightarrow> v \<in> proc_states \<Longrightarrow> pcb_typed (c\<lparr>state := v\<rparr>)"
  by (simp add: pcb_typed_def)

lemma pcb_typed_fd:
  assumes "pcb_typed c" and "fd_typed (fdt c i) \<Longrightarrow> fd_typed f"
  shows "pcb_typed (c\<lparr>fdt := (fdt c)(i := f)\<rparr>)"
  using assms by (auto simp: pcb_typed_def)

lemma ready_typed: "ktyped k \<Longrightarrow> ktyped (k\<lparr>sch := ready (sch k) p\<rparr>)"
  by (rule ktyped_rel) (simp_all add: typed.rel_ready)

lemma returns_typed: "ends_typed res \<Longrightarrow> ends_typed (returns p res)"
  by (auto simp: ends_typed_def returns_def intro!: ktyped_upd split: sum.splits)

lemma ktyped_sch: "ktyped k \<Longrightarrow> typed_rel (sch k) s \<Longrightarrow> ktyped (k\<lparr>sch := s\<rparr>)"
  by (rule ktyped_rel) simp_all

lemma resched_typed: "ktyped k \<Longrightarrow> ends_typed (resched k)"
  using ktyped_sch [OF _ typed.rel_next] by (auto simp: resched_def split: sum.splits)

section \<open>Processes and signals\<close>

lemma create_kbd: "create pl k fp sz = Inr (r, k') \<Longrightarrow> kbd k' = kbd k"
  by (auto simp: create_def Let_def split: option.splits sum.splits prod.splits if_splits)

lemma create_typed:
  assumes "ktyped k"
  shows "ends_typed (create pl k fp sz)"
proof -
  have "ktyped k'" if e: "create pl k fp sz = Inr (r, k')" for r k'
    using e
  proof (cases rule: create_table)
    case failed
    from ktyped_same [OF this(1) create_kbd [OF e]] assms show ?thesis by simp
  next
    case (made cf)
    have "pcb_typed c \<longrightarrow> pcb_typed (c\<lparr>esp := cf, state := STATE_READY, pid := r\<rparr>)" for c
      by (simp add: pcb_typed_def proc_states_def)
    from typed.rel_set_pcb [OF this] typed.rel_ready have "typed_rel (sch k) (sch k')"
      unfolding made(2) by (metis typed.related_trans)
    from ktyped_rel [OF assms this create_kbd [OF e]] show ?thesis .
  qed
  then show ?thesis by (auto simp: ends_typed_def split: sum.splits)
qed

lemma kill_kbd: "kill pl k pid' n = Inr (r, k') \<Longrightarrow> kbd k' = kbd k"
  by (auto simp: kill_def kill_wait_def kill_sleep_def kill_31_def signal_def Let_def
      split: if_splits option.splits sum.splits)

lemma kill_typed: "ktyped k \<Longrightarrow> ends_typed (kill pl k pid' n)"
  using ktyped_rel [OF _ typed.rel_kill kill_kbd] by (auto simp: ends_typed_def split: sum.splits)

lemma do_timer_typed:
  assumes "ktyped k"
  shows "ends_typed (do_timer k p)"
proof -
  have "ktyped (upd (k\<lparr>sch := s\<rparr>) p (\<lambda>c. c\<lparr>cpuTime := cpuTime c + 1\<rparr>))" if "tick (sch k) = Inr s" for s
    by (rule ktyped_upd [OF ktyped_sch [OF assms typed.rel_tick [OF that]]]) simp
  then show ?thesis
    by (auto simp: do_timer_def Let_def split: sum.splits simp del: upd_simps intro!: resched_typed ready_typed)
qed

lemma do_sleep_typed: "ktyped k \<Longrightarrow> ends_typed (do_sleep k p)"
  using ktyped_sch [OF _ typed.rel_sleep] by (auto simp: do_sleep_def split: sum.splits intro!: resched_typed)

section \<open>Devices\<close>

lemma ktyped_set_kbd: "ktyped k \<Longrightarrow> (\<And>b. kbd_typed b \<Longrightarrow> kbd_typed (f b)) \<Longrightarrow> ktyped (set_kbd k f)"
  by (simp add: ktyped_def)

lemma kbd_typed_upd [simp]:
  "kbd_typed (b\<lparr>irq_on := x\<rparr>) = kbd_typed b" "kbd_typed (b\<lparr>eof := v\<rparr>) = kbd_typed b"
  "kbd_typed (b\<lparr>kbdbuff := u\<rparr>) = kbd_typed b" "kbd_typed (kbd_put b) = kbd_typed b"
  "kbd_typed b \<Longrightarrow> kbd_typed (b\<lparr>echo := ECHO_ON\<rparr>)" "kbd_typed b \<Longrightarrow> kbd_typed (b\<lparr>echo := ECHO_OFF\<rparr>)"
  by (auto simp: kbd_typed_def kbd_put_def split: option.splits)

lemma fd_typed_upd:
  "fd_typed f \<Longrightarrow> d < MAX_DEV \<Longrightarrow> fd_typed (f\<lparr>status := fd_OPEN, device := Some d\<rparr>)"
  "fd_typed f \<Longrightarrow> fd_typed (f\<lparr>device := None, status := fd_CLOSE\<rparr>)"
  "fd_typed f \<Longrightarrow> fd_typed (f\<lparr>dataBuffer := 0\<rparr>)"
  by (auto simp: fd_typed_def)

lemma open_typed: "ktyped k \<Longrightarrow> i < MAX_DEV \<Longrightarrow> ktyped (snd (call_open d k p i))"
  by (cases d) (auto simp: zeroOpen_def randOpen_def kbdOpen_def split: option.splits
      intro!: ktyped_set_kbd ktyped_upd pcb_typed_fd fd_typed_upd(1) [simplified])

lemma close_typed: "ktyped k \<Longrightarrow> ktyped (snd (call_close d k p fd))"
  by (cases d) (auto simp: zeroClose_def randClose_def kbdClose_def kbd_typed_def
      intro!: ktyped_upd ktyped_set_kbd pcb_typed_fd fd_typed_upd(2) [simplified])

lemma ktyped_ram [simp]: "ktyped (k\<lparr>ram := m\<rparr>) = ktyped k" "ktyped (k\<lparr>rcalls := n\<rparr>) = ktyped k"
  "ktyped (k\<lparr>rseed := v\<rparr>) = ktyped k" "ktyped (k\<lparr>console := cs\<rparr>) = ktyped k"
  by (simp_all add: ktyped_def)

lemma write_ioctl_typed:
  "ktyped k \<Longrightarrow> ktyped (snd (call_write d k p fd b l))" "ktyped k \<Longrightarrow> ktyped (snd (call_ioctl d k fd b l))"
  by (cases d; auto simp: zeroWrite_def randWrite_def kbdWrite_def zeroIoctl_def randIoctl_def kbdIoctl_def
      intro!: ktyped_set_kbd simp del: ECHO_ON_def ECHO_OFF_def)+

lemma zeroRead_typed: "ktyped k \<Longrightarrow> ktyped (snd (zeroRead k p fd b l))"
  by (auto simp: zeroRead_def Let_def intro!: ktyped_upd pcb_typed_fd fd_typed_upd(3))

lemmas kbdClose_typed = close_typed [where d = KbdDrv, simplified]

lemma kbdRead_typed: "ktyped k \<Longrightarrow> ktyped (snd (kbdRead k p fd b l))"
  by (auto simp: kbdRead_def Let_def proc_states_def split: option.splits
      intro!: kbdClose_typed ready_typed ktyped_upd ktyped_set_kbd pcb_typed_state)

lemma ends_typed_pair: "ktyped (snd x) \<Longrightarrow> ends_typed (Inr x)"
  by (simp add: ends_typed_def split_beta)

lemma read_typed: "ktyped k \<Longrightarrow> ends_typed (call_read d lb k p fd b l)"
  by (cases d) (auto simp: zeroRead_typed kbdRead_typed randRead_def Let_def intro!: ends_typed_pair
      split: prod.splits option.splits)

text \<open>The modifier state keeps to its four bits; a prefix code has the bit of a released key.\<close>

lemma and_not_modifiers: "x AND NOT modifiers = (0 :: u32) \<Longrightarrow> x AND EXTENDED = 0"
proof -
  assume x: "x AND NOT modifiers = 0"
  have "EXTENDED = NOT modifiers AND EXTENDED" by (simp add: modifiers_def)
  then have "x AND EXTENDED = (x AND NOT modifiers) AND EXTENDED" by (metis and.assoc)
  with x show ?thesis by simp
qed

lemma kbtoa_typed:
  assumes "st AND NOT modifiers = 0" and "kbtoa st code = Inr (ch, st')"
  shows "st' AND NOT modifiers = 0"
proof -
  have off: "(st AND y) AND NOT modifiers = 0" for y
    using assms(1) by (metis and.assoc and.commute and_zero_eq)
  have on: "(st OR y) AND NOT modifiers = 0" if "y AND NOT modifiers = 0" for y
    using assms(1) that by (simp add: bit.conj_disj_distrib2)
  have "\<not> (code = EXTESC \<and> code AND KEY_UP = 0)" by auto
  then have "st' = st \<or> (\<exists>y. st' = st AND y) \<or> st' \<in> {st OR INSHIFT, st OR CAPSLOCK, st OR INCTL, st OR INMETA}"
    using assms(2) and_not_modifiers [OF assms(1)]
    by (auto simp: kbtoa_def kbtoa_up_def kbtoa_special_def Let_def split: if_splits sum.splits option.splits)
  with assms(1) off on show ?thesis by (auto simp: modifiers_def)
qed

lemma kbdHandler_typed:
  assumes "ktyped k" and "kbdHandler k p a b = Inr k'"
  shows "ktyped k'"
proof (cases "a AND 1 = 0")
  case True
  with assms show ?thesis by (simp add: kbdHandler_def)
next
  case False
  obtain ch st where t: "kbtoa (kstate (kbd k)) b = Inr (ch, st)"
    using assms(2) False by (auto simp: kbdHandler_def split: sum.splits)
  have "kbd_typed (kbd k)" using assms(1) by (simp add: ktyped_def)
  from kbtoa_typed [OF _ t] this have st: "st AND NOT modifiers = 0" by (simp add: kbd_typed_def)
  have k1: "ktyped (set_kbd k (\<lambda>b. b\<lparr>kstate := st\<rparr>))" "ktyped (set_kbd (set_kbd k (\<lambda>b. b\<lparr>kstate := st\<rparr>)) kbd_put)"
    using assms(1) by (auto intro!: ktyped_set_kbd) (auto simp: kbd_typed_def st)
  have "ktyped (set_kbd k0 (\<lambda>b. b\<lparr>echo := (if echo b = 0 then 1 else 0)\<rparr>))" if "ktyped k0" for k0
    by (rule ktyped_set_kbd [OF that]) (auto simp: kbd_typed_def)
  with assms(2) False t k1 show ?thesis
    by (auto simp: kbdHandler_def Let_def kbdClose_typed split: if_splits)
qed

section \<open>The switch and the loop\<close>

lemma di_typed:
  assumes "ktyped k"
  shows "ends_typed (di_open k p d)" "ends_typed (di_close k p fd)" "ends_typed (di_read pl lb k p fd b l)"
    "ends_typed (di_write pl k p fd b l)" "ends_typed (di_ioctl k p fd c x)"
proof -
  show "ends_typed (di_open k p d)"
    using assms by (auto simp: di_open_def find_Some_iff split: option.splits intro!: ends_typed_pair open_typed)
  show "ends_typed (di_close k p fd)" "ends_typed (di_read pl lb k p fd b l)" "ends_typed (di_write pl k p fd b l)"
    "ends_typed (di_ioctl k p fd c x)"
    using assms by (auto simp: di_close_def di_read_def di_write_def di_ioctl_def split: sum.splits
        intro!: ends_typed_pair close_typed read_typed write_ioctl_typed)
qed

lemma do_process_typed:
  assumes "ktyped k"
  shows "ends_typed (do_create pl k p)" "ends_typed (do_kill pl k p)" "ends_typed (do_yield k p)"
    "ends_typed (do_stop k p)" "ends_typed (do_wait k p)" "ends_typed (do_getpid k p)" "ends_typed (do_cputimes pl k p)"
    "ends_typed (do_puts k p)" "ends_typed (do_sigreturn k p)"
proof -
  have st: "ktyped (upd k p (\<lambda>c. c\<lparr>state := v, waitpid := w, ret := x\<rparr>))" if "v \<in> proc_states" for v w x
    by (rule ktyped_upd [OF assms]) (simp add: pcb_typed_def that)
  show "ends_typed (do_create pl k p)" "ends_typed (do_kill pl k p)"
    using assms by (simp_all add: do_create_def do_kill_def returns_typed create_typed kill_typed)
  show "ends_typed (do_yield k p)" "ends_typed (do_stop k p)" "ends_typed (do_wait k p)"
    using assms by (auto simp: do_yield_def do_stop_def do_wait_def Let_def proc_states_def
        intro!: resched_typed ready_typed returns_typed ktyped_upd pcb_typed_state st)
  show "ends_typed (do_getpid k p)" "ends_typed (do_cputimes pl k p)" "ends_typed (do_puts k p)"
    using assms by (auto simp: do_getpid_def do_cputimes_def do_puts_def Let_def split: prod.splits option.splits
        intro!: returns_typed)
  show "ends_typed (do_sigreturn k p)"
    using assms by (auto simp: do_sigreturn_def sigreturn_def intro!: ktyped_upd)
qed

text \<open>Installing a handler is the one request that may store a value of any kind anywhere in the table.\<close>

definition handler_in_range :: "platform \<Rightarrow> kernel \<Rightarrow> nat \<Rightarrow> u32 \<Rightarrow> bool" where
  "handler_in_range pl k p r \<longleftrightarrow>
     (r = SYS_SIGHANDLER \<longrightarrow> bad_addr pl (arg k p 1) \<or> 0 \<le> sint (arg k p 0) \<and> sint (arg k p 0) < int MAX_SIG)"

lemma do_sighandler_typed:
  assumes "ktyped k" and "handler_in_range pl k p SYS_SIGHANDLER"
  shows "ends_typed (do_sighandler pl k p)"
proof (cases "bad_addr pl (arg k p 1)")
  case True
  with assms(1) show ?thesis by (auto simp: do_sighandler_def sighandler_def intro!: ktyped_upd)
next
  case False
  with assms(2) have r: "0 \<le> sint (arg k p 0)" "sint (arg k p 0) < int MAX_SIG" by (simp_all add: handler_in_range_def)
  show ?thesis
  proof (cases "p < MAX_PROC")
    case True
    from sighandler_in_range [OF True r, of pl k "arg k p 1"] assms(1) False show ?thesis
      by (auto simp: do_sighandler_def intro!: ktyped_upd)
  next
    case out: False
    from sighandler_no_slot [OF out r False] show ?thesis by (simp add: do_sighandler_def)
  qed
qed

lemma do_device_typed:
  assumes "ktyped k"
  shows "ends_typed (do_open k p)" "ends_typed (do_close k p)" "ends_typed (do_read pl lb k p)"
    "ends_typed (do_write pl k p)" "ends_typed (do_ioctl k p)" "ends_typed (do_keyboard k p a b)"
proof -
  show "ends_typed (do_open k p)" "ends_typed (do_close k p)" "ends_typed (do_write pl k p)" "ends_typed (do_ioctl k p)"
    using assms by (simp_all add: do_open_def do_close_def do_write_def do_ioctl_def returns_typed di_typed)
  show "ends_typed (do_read pl lb k p)"
    using di_typed(3) [OF assms, of pl lb p "arg k p 0" "arg k p 1" "arg k p 2"]
    by (auto simp: do_read_def split: sum.splits intro!: resched_typed returns_typed)
  show "ends_typed (do_keyboard k p a b)"
    using kbdHandler_typed [OF assms] by (auto simp: do_keyboard_def split: sum.splits)
qed

lemma switch_typed: "ktyped k \<Longrightarrow> handler_in_range pl k p r \<Longrightarrow> ends_typed (dispatch_switch pl lb io k p r)"
  by (auto simp: dispatch_switch_def do_process_typed do_device_typed do_timer_typed do_sleep_typed do_sighandler_typed)

lemma contextswitch_typed:
  assumes "ktyped k" and "contextswitch k p u = (r, k1)"
  shows "ktyped k1"
proof -
  obtain t rs m where "u (fst (switch_out k p)) (ram (snd (switch_out k p))) = (t, rs, m)" by (metis prod_cases3)
  then have "switch_in (k\<lparr>ram := m\<rparr>) p t rs = (r, k1)"
    using assms(2) by (simp add: contextswitch_def switch_out_def Let_def)
  from switch_in_eq(2) [OF this] assms(1) show ?thesis by (simp add: ktyped_def)
qed

lemma initproc_typed: "ends_typed (initproc pl fi fp (image m h))"
proof -
  have z: "pcb_typed zero_pcb" by (simp add: pcb_typed_def zero_pcb_def zero_fd_def fd_typed_def proc_states_def)
  have dev: "ktyped k'" if "initdevices k = Inr k'" "ktyped k" for k k'
    using that by (auto simp: initdevices_def add_device_def ktyped_def split: sum.splits if_splits)
  have "ktyped ((image m h)\<lparr>kmem := ms, sch := dispatchinit (sch (image m h))\<rparr>)" for ms
    by (auto simp: ktyped_def image_def dispatchinit_def z kbd_typed_def kbd_image_def)
  note init = dev [OF _ this]
  have cr: "ktyped k \<Longrightarrow> create pl k f n = Inr (v, k') \<Longrightarrow> ktyped k'" for k f n v k'
    by (metis create_typed ends_typed_simps(2))
  show ?thesis
    unfolding initproc_def Let_def by (auto split: sum.splits intro!: resched_typed dest!: init intro: cr)
qed

end
