(* ===== verification/Msg.thy ===== *)
theory Msg
  imports Kernel
begin

text \<open>
  Message passing, \<open>c/msg.c\<close>. Its three handlers use four fields of the process structure and two
  process states that the repository's headers do not declare: the fields are kept beside the kernel's
  state, one \<open>msgpcb\<close> for each process, and the two states are the parameter \<open>msg_states\<close>. The
  processes blocked on sending to a process form a queue linked through \<open>senderNext\<close> that starts at its
  \<open>senderQueue\<close>; \<open>senders\<close> reads it as a list.
\<close>

section \<open>State\<close>

record msgpcb =
  waitingPid :: u32
  buffer_len :: u32
  senderQueue :: pptr
  senderNext :: pptr

record msg_states =
  STATE_BLOCKED_SEND :: u32
  STATE_BLOCKED_RECV :: u32

record msgs =
  ker :: kernel
  mpcb :: "nat \<Rightarrow> msgpcb"

text \<open>Assignment of fields of a process: those of \<open>pcb\<close>, and the four others.\<close>

definition set_p :: "msgs \<Rightarrow> nat \<Rightarrow> (pcb \<Rightarrow> pcb) \<Rightarrow> msgs" where
  "set_p s i f = s\<lparr>ker := upd (ker s) i f\<rparr>"

definition set_m :: "msgs \<Rightarrow> nat \<Rightarrow> (msgpcb \<Rightarrow> msgpcb) \<Rightarrow> msgs" where
  "set_m s i f = s\<lparr>mpcb := (mpcb s)(i := f (mpcb s i))\<rparr>"

definition msg_ready :: "msgs \<Rightarrow> nat \<Rightarrow> msgs" where
  "msg_ready s i = s\<lparr>ker := (ker s)\<lparr>sch := ready (sch (ker s)) i\<rparr>\<rparr>"

lemma set_p_simps [simp]:
  "mpcb (set_p s i f) = mpcb s" "ker (set_p s i f) = upd (ker s) i f"
  "ker (set_m s i g) = ker s" "mpcb (set_m s i g) = (mpcb s)(i := g (mpcb s i))"
  "mpcb (msg_ready s i) = mpcb s" "ker (msg_ready s i) = (ker s)\<lparr>sch := ready (sch (ker s)) i\<rparr>"
  by (simp_all add: set_p_def set_m_def msg_ready_def)

section \<open>Operations\<close>

text \<open>
  A transfer between a process's buffer and the other's: \<open>n\<close> bytes are copied, the blocked process gets
  \<open>n\<close> as its return value, and both become ready, the blocked one first.
\<close>

definition min_len :: "u32 \<Rightarrow> u32 \<Rightarrow> u32" where
  "min_len a b = (if sint a < sint b then a else b)"

definition transfer :: "msgs \<Rightarrow> nat \<Rightarrow> nat \<Rightarrow> u32 \<Rightarrow> u32 \<Rightarrow> u32 \<Rightarrow> msgs" where
  "transfer s blocked active dest source n =
    (let s1 = s\<lparr>ker := (ker s)\<lparr>ram := memCpy (ram (ker s)) dest source (unat n)\<rparr>\<rparr>;
         s2 = set_p s1 blocked (\<lambda>c. c\<lparr>ret := n\<rparr>)
     in msg_ready (msg_ready s2 blocked) active)"

text \<open>The loop to the last process of a sender queue.\<close>

partial_function (option) sender_tail :: "(nat \<Rightarrow> msgpcb) \<Rightarrow> nat \<Rightarrow> nat option" where
  "sender_tail m temp =
    (if senderNext (m temp) = None then Some temp else sender_tail m (the (senderNext (m temp))))"

definition send :: "msg_states \<Rightarrow> msgs \<Rightarrow> nat \<Rightarrow> nat \<Rightarrow> u32 \<Rightarrow> u32 \<Rightarrow> (u32 \<times> msgs) kres" where
  "send st s srcPcb dstPcb buf len =
    (if state (proc (ker s) dstPcb) = STATE_BLOCKED_RECV st \<and> waitingPid (mpcb s dstPcb) = pid (proc (ker s) srcPcb) \<or>
        waitingPid (mpcb s dstPcb) = - 1 then
       let minLen = min_len len (buffer_len (mpcb s dstPcb))
       in Inr (minLen, transfer s dstPcb srcPcb (buffer (proc (ker s) dstPcb)) buf minLen)
     else
       let s1 = set_p s srcPcb (\<lambda>c. c\<lparr>state := STATE_BLOCKED_SEND st\<rparr>);
           s2 = set_m s1 srcPcb (\<lambda>c. c\<lparr>waitingPid := pid (proc (ker s1) dstPcb), buffer_len := len\<rparr>);
           s3 = set_p s2 srcPcb (\<lambda>c. c\<lparr>buffer := buf\<rparr>)
       in case senderQueue (mpcb s3 dstPcb) of
            None \<Rightarrow> Inr (0, set_m s3 dstPcb (\<lambda>c. c\<lparr>senderQueue := Some srcPcb\<rparr>))
          | Some q \<Rightarrow>
              (case sender_tail (mpcb s3) q of
                 None \<Rightarrow> Inl Diverge
               | Some temp \<Rightarrow> Inr (0, set_m s3 temp (\<lambda>c. c\<lparr>senderNext := Some srcPcb\<rparr>))))"

text \<open>The loop that looks for the process before \<open>fromPcb\<close> in the queue, by its identifier.\<close>

partial_function (option) recv_find :: "sched \<Rightarrow> (nat \<Rightarrow> msgpcb) \<Rightarrow> u32 \<Rightarrow> nat \<Rightarrow> nat kres option" where
  "recv_find s m fpid temp =
    (if senderNext (m temp) = None then Some (Inl NullDeref)
     else if pid (proctab s (the (senderNext (m temp)))) = fpid then Some (Inr temp)
     else recv_find s m fpid (the (senderNext (m temp))))"

definition recv :: "msg_states \<Rightarrow> msgs \<Rightarrow> nat \<Rightarrow> nat \<Rightarrow> u32 \<Rightarrow> u32 \<Rightarrow> (u32 \<times> msgs) kres" where
  "recv st s srcPcb fromPcb buf len =
    (if state (proc (ker s) fromPcb) = STATE_BLOCKED_SEND st \<and> waitingPid (mpcb s fromPcb) = pid (proc (ker s) srcPcb) then
       let minLen = min_len len (buffer_len (mpcb s fromPcb));
           s1 = transfer s fromPcb srcPcb buf (buffer (proc (ker s) fromPcb)) minLen
       in case senderQueue (mpcb s1 srcPcb) of
            None \<Rightarrow> Inl NullDeref
          | Some q \<Rightarrow>
              if pid (proc (ker s1) q) = pid (proc (ker s1) fromPcb) then
                Inr (minLen, set_m s1 srcPcb (\<lambda>c. c\<lparr>senderQueue := senderNext (mpcb s1 fromPcb)\<rparr>))
              else
                (case recv_find (sch (ker s1)) (mpcb s1) (pid (proc (ker s1) fromPcb)) q of
                   None \<Rightarrow> Inl Diverge
                 | Some (Inl e) \<Rightarrow> Inl e
                 | Some (Inr temp) \<Rightarrow>
                     Inr (minLen, set_m s1 temp (\<lambda>c. c\<lparr>senderNext := senderNext (mpcb s1 fromPcb)\<rparr>)))
     else
       let s1 = set_p s srcPcb (\<lambda>c. c\<lparr>state := STATE_BLOCKED_RECV st\<rparr>);
           s2 = set_m s1 srcPcb (\<lambda>c. c\<lparr>waitingPid := pid (proc (ker s1) fromPcb), buffer_len := len\<rparr>)
       in Inr (0, set_p s2 srcPcb (\<lambda>c. c\<lparr>buffer := buf\<rparr>)))"

text \<open>\<open>recvAny\<close>; its parameter \<open>from_pid\<close> is only assigned to, and nothing is stored through it.\<close>

definition recvAny :: "msg_states \<Rightarrow> msgs \<Rightarrow> nat \<Rightarrow> u32 \<Rightarrow> u32 \<Rightarrow> u32 \<Rightarrow> (u32 \<times> msgs) kres" where
  "recvAny st s srcPcb from_pid buf len =
    (case senderQueue (mpcb s srcPcb) of
       Some temp \<Rightarrow>
         let minLen = min_len len (buffer_len (mpcb s temp));
             s1 = transfer s temp srcPcb buf (buffer (proc (ker s) temp)) minLen
         in Inr (minLen, set_m s1 srcPcb (\<lambda>c. c\<lparr>senderQueue := senderNext (mpcb s1 temp)\<rparr>))
     | None \<Rightarrow>
         let s1 = set_p s srcPcb (\<lambda>c. c\<lparr>state := STATE_BLOCKED_RECV st, buffer := buf\<rparr>)
         in Inr (0, set_m s1 srcPcb (\<lambda>c. c\<lparr>buffer_len := len, waitingPid := - 1\<rparr>)))"

section \<open>Sender queues\<close>

definition snext :: "msgs \<Rightarrow> nat \<Rightarrow> pptr" where
  "snext s i = senderNext (mpcb s i)"

definition senders :: "msgs \<Rightarrow> nat \<Rightarrow> nat list" where
  "senders s d = walk MAX_PROC (snext s) (senderQueue (mpcb s d))"

text \<open>The queue of \<open>d\<close> is well formed and holds \<open>xs\<close>.\<close>

definition sendq :: "msgs \<Rightarrow> nat \<Rightarrow> nat list \<Rightarrow> bool" where
  "sendq s d xs \<longleftrightarrow> chain (snext s) (senderQueue (mpcb s d)) xs \<and> (\<forall>x \<in> set xs. x < MAX_PROC)"

lemma sendq_senders: "sendq s d xs \<Longrightarrow> senders s d = xs"
  unfolding sendq_def senders_def using bounded_list_length chain_distinct by (blast intro: chain_walk)

lemma sendq_distinct: "sendq s d xs \<Longrightarrow> distinct xs"
  by (auto simp: sendq_def intro: chain_distinct)

lemma sender_tail_eq:
  assumes "chain (snext s) (snext s q) xs"
  shows "sender_tail (mpcb s) q = Some (last (q # xs))"
  using assms
proof (induction xs arbitrary: q)
  case Nil
  then show ?case by (simp add: sender_tail.simps [of _ q] snext_def)
next
  case (Cons x xs)
  then show ?case by (simp add: sender_tail.simps [of _ q] snext_def)
qed

lemma recv_find_eq:
  assumes "chain (snext s) (snext s q) (us @ x # vs)" and "pid (proctab t x) = fp"
    and "\<forall>u \<in> set us. pid (proctab t u) \<noteq> fp"
  shows "recv_find t (mpcb s) fp q = Some (Inr (last (q # us)))"
  using assms
proof (induction us arbitrary: q)
  case Nil
  then show ?case by (simp add: recv_find.simps [of _ _ _ q] snext_def)
next
  case (Cons u us)
  then show ?case by (simp add: recv_find.simps [of _ _ _ q] snext_def)
qed

lemma transfer_fields [simp]:
  "mpcb (transfer s b a d c n) = mpcb s"
  "ram (ker (transfer s b a d c n)) = memCpy (ram (ker s)) d c (unat n)"
  "pid (proc (ker (transfer s b a d c n)) i) = pid (proc (ker s) i)"
  "b \<noteq> a \<Longrightarrow> ret (proc (ker (transfer s b a d c n)) b) = n"
  by (simp_all add: transfer_def Let_def ready_proctab)

lemma transfer_sched:
  assumes "sched_ok (sch (ker s))" and "a \<noteq> b" and "a < MAX_PROC" and "b < MAX_PROC"
    and "a \<notin> set (readyq (sch (ker s)))" and "a \<notin> set (sleepq (sch (ker s)))"
    and "b \<notin> set (readyq (sch (ker s)))" and "b \<notin> set (sleepq (sch (ker s)))"
  shows "sched_ok (sch (ker (transfer s b a d c n)))"
    "readyq (sch (ker (transfer s b a d c n))) = readyq (sch (ker s)) @ [b, a]"
    "sleepers (sch (ker (transfer s b a d c n))) = sleepers (sch (ker s))"
proof -
  let ?s1 = "set_pcb (sch (ker s)) b (\<lambda>c. c\<lparr>ret := n\<rparr>)"
  have 1: "same_queues (sch (ker s)) ?s1" by (rule set_pcb_outside [OF assms(1,7,8)])
  have 2: "sched_ok (ready ?s1 b)" "readyq (ready ?s1 b) = readyq (sch (ker s)) @ [b]"
    "sleepq (ready ?s1 b) = sleepq (sch (ker s))" "sleepers (ready ?s1 b) = sleepers (sch (ker s))"
    using ready_sched [of ?s1 b] 1 assms(4,7,8) by (auto simp: same_queues_def)
  have "sch (ker (transfer s b a d c n)) = ready (ready ?s1 b) a" by (simp add: transfer_def Let_def)
  then show "sched_ok (sch (ker (transfer s b a d c n)))"
    "readyq (sch (ker (transfer s b a d c n))) = readyq (sch (ker s)) @ [b, a]"
    "sleepers (sch (ker (transfer s b a d c n))) = sleepers (sch (ker s))"
    using ready_sched [OF 2(1) assms(3)] 2 assms(2,5,6) by auto
qed

section \<open>The handlers over the abstraction\<close>

text \<open>When \<open>send\<close> finds its receiver waiting.\<close>

definition receiving :: "msg_states \<Rightarrow> msgs \<Rightarrow> nat \<Rightarrow> nat \<Rightarrow> bool" where
  "receiving st s d a \<longleftrightarrow> state (proc (ker s) d) = STATE_BLOCKED_RECV st \<and>
     waitingPid (mpcb s d) = pid (proc (ker s) a) \<or> waitingPid (mpcb s d) = - 1"

text \<open>The links outside \<open>L\<close> and what the processes outside \<open>W\<close> wait for are unchanged.\<close>

definition keeps_msg :: "msgs \<Rightarrow> msgs \<Rightarrow> nat set \<Rightarrow> nat set \<Rightarrow> bool" where
  "keeps_msg s s' L W \<longleftrightarrow> (\<forall>i. i \<notin> L \<longrightarrow> snext s' i = snext s i) \<and>
     (\<forall>i. i \<notin> W \<longrightarrow> waitingPid (mpcb s' i) = waitingPid (mpcb s i) \<and> buffer_len (mpcb s' i) = buffer_len (mpcb s i))"

lemma send_blocks:
  assumes "\<not> receiving st s d a" and "sendq s d xs" and "snext s a = None" and "a \<notin> set xs" and "a < MAX_PROC"
    and "d \<noteq> a"
  shows "\<exists>s'. send st s a d buf len = Inr (0, s') \<and> sendq s' d (xs @ [a]) \<and>
    state (proc (ker s') a) = STATE_BLOCKED_SEND st \<and> buffer (proc (ker s') a) = buf \<and>
    waitingPid (mpcb s' a) = pid (proc (ker s) d) \<and> buffer_len (mpcb s' a) = len \<and>
    ker s' = upd (ker s) a (\<lambda>c. c\<lparr>state := STATE_BLOCKED_SEND st, buffer := buf\<rparr>) \<and> keeps_msg s s' (set xs) {a}"
proof -
  let ?s3 = "set_p (set_m (set_p s a (\<lambda>c. c\<lparr>state := STATE_BLOCKED_SEND st\<rparr>)) a
    (\<lambda>c. c\<lparr>waitingPid := pid (proc (ker s) d), buffer_len := len\<rparr>)) a (\<lambda>c. c\<lparr>buffer := buf\<rparr>)"
  have k: "ker ?s3 = upd (ker s) a (\<lambda>c. c\<lparr>state := STATE_BLOCKED_SEND st, buffer := buf\<rparr>)"
    by (simp add: upd_def set_pcb_def)
  have nx: "snext ?s3 = snext s" "senderQueue (mpcb ?s3 d) = senderQueue (mpcb s d)"
    using assms(6) by (auto simp: snext_def)
  show ?thesis
  proof (cases xs)
    case Nil
    let ?s' = "set_m ?s3 d (\<lambda>c. c\<lparr>senderQueue := Some a\<rparr>)"
    have "send st s a d buf len = Inr (0, ?s')"
      using assms(1,2,6) Nil by (simp add: send_def receiving_def [symmetric] sendq_def Let_def)
    moreover have "sendq ?s' d [a]" using assms(3,5,6) by (simp add: sendq_def snext_def)
    moreover have "keeps_msg s ?s' {} {a}" by (simp add: keeps_msg_def snext_def)
    ultimately show ?thesis using Nil assms(6) k by (intro exI [of _ ?s']) simp
  next
    case (Cons q ys)
    have ch: "chain (snext s) (snext s q) ys" "senderQueue (mpcb s d) = Some q" using assms(2) Cons by (auto simp: sendq_def)
    let ?t = "last xs"
    let ?s' = "set_m ?s3 ?t (\<lambda>c. c\<lparr>senderNext := Some a\<rparr>)"
    have t: "?t \<noteq> a" using assms(4) Cons by (metis last_in_set list.discI)
    have "sender_tail (mpcb ?s3) q = Some ?t"
      using sender_tail_eq [of ?s3 q ys] ch(1) unfolding nx(1) Cons by blast
    then have "send st s a d buf len = Inr (0, ?s')"
      using assms(1,6) ch(2) by (simp add: send_def receiving_def [symmetric] Let_def)
    moreover have "snext ?s' = (snext s)(a := None, ?t := Some a)"
      using assms(3) t by (auto simp: snext_def fun_eq_iff)
    then have "sendq ?s' d (xs @ [a])"
      using assms(2,4,5) Cons chain_snoc [of "snext s" "senderQueue (mpcb s d)" xs a] assms(6)
      by (auto simp: sendq_def)
    moreover have "?t \<in> set xs" using Cons by simp
    then have "keeps_msg s ?s' (set xs) {a}" by (auto simp: keeps_msg_def snext_def)
    ultimately show ?thesis using k t by (intro exI [of _ ?s']) simp
  qed
qed

lemma recvAny_takes:
  assumes "sendq s d (x # xs)" and "x \<noteq> d"
  shows "\<exists>s'. recvAny st s d fp buf len = Inr (min_len len (buffer_len (mpcb s x)), s') \<and> sendq s' d xs \<and>
    ker s' = ker (transfer s x d buf (buffer (proc (ker s) x)) (min_len len (buffer_len (mpcb s x)))) \<and>
    keeps_msg s s' {} {}"
proof -
  let ?n = "min_len len (buffer_len (mpcb s x))"
  let ?s1 = "transfer s x d buf (buffer (proc (ker s) x)) ?n"
  let ?s' = "set_m ?s1 d (\<lambda>c. c\<lparr>senderQueue := snext s x\<rparr>)"
  have "recvAny st s d fp buf len = Inr (?n, ?s')"
    using assms(1) by (simp add: recvAny_def Let_def sendq_def snext_def)
  moreover have "snext ?s' = snext s" by (auto simp: snext_def)
  then have "sendq ?s' d xs" "keeps_msg s ?s' {} {}" using assms(1) by (simp_all add: sendq_def keeps_msg_def)
  ultimately show ?thesis by (intro exI [of _ ?s']) simp
qed

lemma recv_takes:
  assumes "sendq s d (us @ x # vs)" and "state (proc (ker s) x) = STATE_BLOCKED_SEND st"
    and "waitingPid (mpcb s x) = pid (proc (ker s) d)" and "\<forall>u \<in> set us. pid (proc (ker s) u) \<noteq> pid (proc (ker s) x)"
  shows "\<exists>s'. recv st s d x buf len = Inr (min_len len (buffer_len (mpcb s x)), s') \<and> sendq s' d (us @ vs) \<and>
    ker s' = ker (transfer s x d buf (buffer (proc (ker s) x)) (min_len len (buffer_len (mpcb s x)))) \<and>
    keeps_msg s s' (set us) {}"
proof -
  let ?n = "min_len len (buffer_len (mpcb s x))"
  let ?s1 = "transfer s x d buf (buffer (proc (ker s) x)) ?n"
  have ch: "chain (snext s) (senderQueue (mpcb s d)) (us @ x # vs)" "\<forall>i \<in> set (us @ x # vs). i < MAX_PROC"
    using assms(1) by (auto simp: sendq_def)
  show ?thesis
  proof (cases us)
    case Nil
    let ?s' = "set_m ?s1 d (\<lambda>c. c\<lparr>senderQueue := snext s x\<rparr>)"
    have "recv st s d x buf len = Inr (?n, ?s')"
      using assms(2,3) ch(1) Nil by (simp add: recv_def Let_def snext_def)
    moreover have "snext ?s' = snext s" by (auto simp: snext_def)
    then have "sendq ?s' d (us @ vs)" "keeps_msg s ?s' (set us) {}" using ch Nil by (simp_all add: sendq_def keeps_msg_def)
    ultimately show ?thesis by (intro exI [of _ ?s']) simp
  next
    case (Cons q ws)
    let ?s' = "set_m ?s1 (last us) (\<lambda>c. c\<lparr>senderNext := snext s x\<rparr>)"
    have q: "senderQueue (mpcb s d) = Some q" "chain (snext s) (snext s q) (ws @ x # vs)"
      using ch(1) Cons by simp_all
    have "recv_find (sch (ker ?s1)) (mpcb s) (pid (proc (ker s) x)) q = Some (Inr (last us))"
      using recv_find_eq [OF q(2), of "sch (ker ?s1)"] assms(4) Cons by simp
    then have "recv st s d x buf len = Inr (?n, ?s')"
      using assms(2-4) q(1) Cons by (simp add: recv_def Let_def snext_def)
    moreover have "snext ?s' = (snext s)(last us := snext s x)" by (auto simp: snext_def)
    moreover have "us @ x # vs = butlast us @ [last us, x] @ vs" "us @ vs = butlast us @ [last us] @ vs"
      using Cons by simp_all
    then have "chain ((snext s)(last us := snext s x)) (senderQueue (mpcb s d)) (us @ vs)"
      using chain_remove [of "snext s" "senderQueue (mpcb s d)" "butlast us" "last us" x vs] ch(1) by metis
    moreover have "keeps_msg s ?s' (set us) {}" using Cons by (auto simp: keeps_msg_def snext_def)
    ultimately show ?thesis using ch(2) by (intro exI [of _ ?s']) (auto simp: sendq_def)
  qed
qed

lemma min_len_commute: "min_len a b = min_len b a"
proof -
  have "a = b" if "sint a = sint b" using that by (rule signed_word_eqI)
  then show ?thesis unfolding min_len_def by (metis linorder_less_linear order_less_asym)
qed

text \<open>On a cycle the loop to the last sender never ends.\<close>

lemma sender_tail_avoids:
  assumes "sender_tail m t = Some r"
  shows "senderNext (m x) = Some y \<longrightarrow> senderNext (m y) = Some x \<longrightarrow> t \<noteq> x \<and> t \<noteq> y"
proof (rule sender_tail.raw_induct [OF _ assms])
  fix loop :: "(nat \<Rightarrow> msgpcb) \<Rightarrow> nat \<Rightarrow> nat option" and m t r
  assume "\<And>m t r. loop m t = Some r \<Longrightarrow> senderNext (m x) = Some y \<longrightarrow> senderNext (m y) = Some x \<longrightarrow> t \<noteq> x \<and> t \<noteq> y"
    and "(if senderNext (m t) = None then Some t else loop m (the (senderNext (m t)))) = Some r"
  then show "senderNext (m x) = Some y \<longrightarrow> senderNext (m y) = Some x \<longrightarrow> t \<noteq> x \<and> t \<noteq> y"
    by (metis option.distinct(1) option.sel)
qed

lemma send_diverges:
  assumes "\<not> receiving st s d a" and "d \<noteq> a" and "senderQueue (mpcb s d) = Some q"
    and "snext s q = Some p" and "snext s p = Some q"
  shows "send st s a d buf len = Inl Diverge"
proof -
  have "sender_tail ((mpcb s)(a := (mpcb s a)\<lparr>waitingPid := v, buffer_len := len\<rparr>)) q = None" for v
  proof -
    let ?m = "(mpcb s)(a := (mpcb s a)\<lparr>waitingPid := v, buffer_len := len\<rparr>)"
    have "senderNext (?m q) = Some p" "senderNext (?m p) = Some q" using assms(4,5) by (auto simp: snext_def)
    then show ?thesis using sender_tail_avoids [of ?m q _ q p] by (cases "sender_tail ?m q") auto
  qed
  then show ?thesis using assms(1-3) by (simp add: send_def receiving_def [symmetric] Let_def)
qed

section \<open>Properties\<close>

text \<open>
  What a completed transfer of \<open>n\<close> bytes from \<open>source\<close> to \<open>dest\<close> leaves: the bytes, the return value
  of the process that was blocked, and both processes at the end of the ready queue.
\<close>

definition delivered :: "msgs \<Rightarrow> msgs \<Rightarrow> nat \<Rightarrow> nat \<Rightarrow> u32 \<Rightarrow> u32 \<Rightarrow> u32 \<Rightarrow> bool" where
  "delivered s s' blocked active dest source n \<longleftrightarrow>
     (\<forall>i < unat n. ram (ker s') (dest + of_nat i) = ram (ker s) (source + of_nat i)) \<and>
     ret (proc (ker s') blocked) = n \<and> sched_ok (sch (ker s')) \<and>
     readyq (sch (ker s')) = readyq (sch (ker s)) @ [blocked, active] \<and> sleepers (sch (ker s')) = sleepers (sch (ker s))"

lemma transfer_delivered:
  assumes "same_queues t (sch (ker s))" and "ram (ker s) = ram k" and "t = sch k" and "a \<noteq> b" and "a < MAX_PROC" and "b < MAX_PROC"
    and "a \<notin> set (readyq t)" and "a \<notin> set (sleepq t)" and "b \<notin> set (readyq t)" and "b \<notin> set (sleepq t)"
    and "unat n \<le> unat (d - c)" and "ker s' = ker (transfer s b a d c n)" and "ker s0 = k"
  shows "delivered s0 s' b a d c n"
proof -
  have "ram (ker s') (d + of_nat i) = ram k (c + of_nat i)" if "i < unat n" for i
  proof -
    have "unat (of_nat i :: u32) = i" using that unat_u32_less [of n] by simp
    then show ?thesis
      using that assms(2,11,12) memCpy_nth [of "unat n" d c "ram k" "d + of_nat i"] unat_u32_less [of n]
      by (simp add: add.commute)
  qed
  moreover have "sched_ok (sch (ker s))" "readyq (sch (ker s)) = readyq t" "sleepq (sch (ker s)) = sleepq t"
    "sleepers (sch (ker s)) = sleepers t" using assms(1) by (auto simp: same_queues_def)
  moreover from this have "sched_ok (sch (ker s'))" "readyq (sch (ker s')) = readyq t @ [b, a]" "sleepers (sch (ker s')) = sleepers t"
    using transfer_sched [of s a b d c n] assms by auto
  ultimately show ?thesis using assms by (simp add: delivered_def)
qed

text \<open>
  C37. A message arrives whichever side comes first. Let \<open>a\<close> send to \<open>b\<close> and \<open>b\<close> receive from \<open>a\<close>, with
  no earlier sender waiting for \<open>b\<close> and neither already engaged with the other. If \<open>b\<close> receives first,
  it blocks and the send completes; if \<open>a\<close> sends first, it blocks and the receive completes. Either way
  both calls give the smaller of the two lengths, the one as its result and the other as the
  return value of the process that was blocked; that many bytes of the sender's buffer are in the
  receiver's; both processes are on the ready queue, in the order of their calls, with the queues well
  formed; and nobody is left in the sender queue.
\<close>

theorem rendezvous:
  assumes "sched_ok (sch (ker s))" and "a \<noteq> b" and "a < MAX_PROC" and "b < MAX_PROC"
    and "a \<notin> set (readyq (sch (ker s)))" and "a \<notin> set (sleepq (sch (ker s)))"
    and "b \<notin> set (readyq (sch (ker s)))" and "b \<notin> set (sleepq (sch (ker s)))"
    and "\<not> (state (proc (ker s) a) = STATE_BLOCKED_SEND st \<and> waitingPid (mpcb s a) = pid (proc (ker s) b))"
    and "\<not> receiving st s b a" and "sendq s b []" and "snext s a = None"
    and "n = min_len alen blen" and "unat n \<le> unat (bbuf - abuf)"
  shows "(\<exists>s1 s2. recv st s b a bbuf blen = Inr (0, s1) \<and> send st s1 a b abuf alen = Inr (n, s2) \<and>
       delivered s s2 b a bbuf abuf n \<and> senders s2 b = []) \<and>
    (\<exists>s1 s2. send st s a b abuf alen = Inr (0, s1) \<and> recv st s1 b a bbuf blen = Inr (n, s2) \<and>
       delivered s s2 a b bbuf abuf n \<and> senders s2 b = [])"
proof
  let ?s1 = "set_p (set_m (set_p s b (\<lambda>c. c\<lparr>state := STATE_BLOCKED_RECV st\<rparr>)) b
    (\<lambda>c. c\<lparr>waitingPid := pid (proc (ker s) a), buffer_len := blen\<rparr>)) b (\<lambda>c. c\<lparr>buffer := bbuf\<rparr>)"
  have r: "recv st s b a bbuf blen = Inr (0, ?s1)" using assms(2,9) by (auto simp: recv_def Let_def)
  let ?s2 = "transfer ?s1 b a bbuf abuf n"
  have t: "send st ?s1 a b abuf alen = Inr (n, ?s2)" using assms(2,13) by (simp add: send_def Let_def)
  have "same_queues (sch (ker s)) (sch (ker ?s1))"
    using set_pcb_outside [OF assms(1,7,8), of "\<lambda>c. c\<lparr>state := STATE_BLOCKED_RECV st, buffer := bbuf\<rparr>"]
    by (simp add: set_pcb_def)
  then have "delivered s ?s2 b a bbuf abuf n"
    by (rule transfer_delivered [where k = "ker s"]) (use assms in auto)
  moreover have "senders ?s2 b = []" using sendq_senders [of ?s2 b "[]"] assms(11) by (simp add: sendq_def)
  ultimately show "\<exists>s1 s2. recv st s b a bbuf blen = Inr (0, s1) \<and> send st s1 a b abuf alen = Inr (n, s2) \<and>
       delivered s s2 b a bbuf abuf n \<and> senders s2 b = []" using r t by blast
next
  from send_blocks [OF assms(10,11,12) _ assms(3)] assms(2) obtain s1 where
    s1: "send st s a b abuf alen = Inr (0, s1)" "sendq s1 b [a]" "state (proc (ker s1) a) = STATE_BLOCKED_SEND st"
    "buffer (proc (ker s1) a) = abuf" "waitingPid (mpcb s1 a) = pid (proc (ker s) b)" "buffer_len (mpcb s1 a) = alen"
    "ker s1 = upd (ker s) a (\<lambda>c. c\<lparr>state := STATE_BLOCKED_SEND st, buffer := abuf\<rparr>)" by auto
  have n: "min_len blen alen = n" using assms(13) min_len_commute by simp
  from recv_takes [of s1 b "[]" a "[]" st bbuf blen] s1 assms(2) n obtain s2 where
    s2: "recv st s1 b a bbuf blen = Inr (n, s2)" "sendq s2 b []" "ker s2 = ker (transfer s1 a b bbuf abuf n)" by auto
  have "same_queues (sch (ker s)) (sch (ker s1))" unfolding s1(7) using set_pcb_outside [OF assms(1,5,6)] by simp
  then have "delivered s s2 a b bbuf abuf n"
    by (rule transfer_delivered [where k = "ker s"]) (use assms s1(7) s2(3) in auto)
  with s1(1) s2 sendq_senders show "\<exists>s1 s2. send st s a b abuf alen = Inr (0, s1) \<and> recv st s1 b a bbuf blen = Inr (n, s2) \<and>
       delivered s s2 a b bbuf abuf n \<and> senders s2 b = []" by blast
qed

text \<open>Two idle processes on a fresh kernel, with the two process states of the message handlers.\<close>

definition msg_consts :: msg_states where
  "msg_consts = \<lparr>STATE_BLOCKED_SEND = 25, STATE_BLOCKED_RECV = 26\<rparr>"

definition no_msgs :: msgs where
  "no_msgs = \<lparr>ker = (image (\<lambda>a. ucast a) (\<lambda>_. \<lparr>mh_size = 0, mh_prev = 0, mh_next = 0, sanityCheck = 0\<rparr>)),
     mpcb = (\<lambda>_. \<lparr>waitingPid = 0, buffer_len = 0, senderQueue = None, senderNext = None\<rparr>)\<rparr>"

lemma no_msgs_ok:
  "sched_ok (sch (ker no_msgs))" "readyq (sch (ker no_msgs)) = []" "sleepq (sch (ker no_msgs)) = []"
  "state (proc (ker no_msgs) i) = 0" "waitingPid (mpcb no_msgs i) = 0" "sendq no_msgs i []" "snext no_msgs i = None"
proof -
  have "sch (ker no_msgs) = boot_sched" by (simp add: no_msgs_def image_def boot_sched_def dispatchinit_def)
  then show "sched_ok (sch (ker no_msgs))" "readyq (sch (ker no_msgs)) = []" "sleepq (sch (ker no_msgs)) = []"
    using boot_sched_ok by simp_all
  show "state (proc (ker no_msgs) i) = 0" "waitingPid (mpcb no_msgs i) = 0" "sendq no_msgs i []" "snext no_msgs i = None"
    by (simp_all add: no_msgs_def image_def zero_pcb_def sendq_def snext_def)
qed

theorem rendezvous_witness:
  "\<exists>s1 s2. send msg_consts no_msgs 1 2 0x30000 16 = Inr (0, s1) \<and> recv msg_consts s1 2 1 0x40000 4 = Inr (4, s2) \<and>
     delivered no_msgs s2 1 2 0x40000 0x30000 4"
proof -
  have "\<not> receiving msg_consts no_msgs 2 1" by (simp add: receiving_def no_msgs_ok msg_consts_def)
  with rendezvous [of no_msgs 1 2 msg_consts 4 16 4 "0x40000" "0x30000"] no_msgs_ok show ?thesis
    by (auto simp: msg_consts_def min_len_def)
qed

text \<open>
  The specification of a receiver's queue: a list of senders with the address and the length of their
  messages, next to the memory. A send joins at the end; \<open>recvAny\<close> takes the first message and \<open>recv\<close> that of
  one sender. \<open>None\<close> is a receive for which no message is there, which would block.
\<close>

datatype msg_op = Send nat u32 u32 | RecvAny u32 u32 | Recv nat u32 u32

type_synonym fifo = "(nat \<times> u32 \<times> u32) list \<times> ram"

fun fifo_step :: "msg_op \<Rightarrow> fifo \<Rightarrow> (u32 \<times> fifo) option" where
  "fifo_step (Send a buf len) (q, m) = Some (0, q @ [(a, buf, len)], m)"
| "fifo_step (RecvAny buf len) (q, m) =
    (case q of [] \<Rightarrow> None
     | (x, b, l) # q' \<Rightarrow> Some (min_len len l, q', memCpy m buf b (unat (min_len len l))))"
| "fifo_step (Recv x buf len) (q, m) =
    (case find (\<lambda>i. fst i = x) q of None \<Rightarrow> None
     | Some (_, b, l) \<Rightarrow> Some (min_len len l, filter (\<lambda>i. fst i \<noteq> x) q, memCpy m buf b (unat (min_len len l))))"

fun fifo_run :: "msg_op list \<Rightarrow> fifo \<Rightarrow> (u32 list \<times> fifo) option" where
  "fifo_run [] f = Some ([], f)"
| "fifo_run (op # ops) f =
    Option.bind (fifo_step op f) (\<lambda>(r, f1). Option.bind (fifo_run ops f1) (\<lambda>(rs, f2). Some (r # rs, f2)))"

text \<open>The same operations on the code's model, for receiver \<open>d\<close>.\<close>

fun msg_step :: "msg_states \<Rightarrow> nat \<Rightarrow> msg_op \<Rightarrow> msgs \<Rightarrow> (u32 \<times> msgs) kres" where
  "msg_step st d (Send a buf len) s = send st s a d buf len"
| "msg_step st d (RecvAny buf len) s = recvAny st s d 0 buf len"
| "msg_step st d (Recv x buf len) s = recv st s d x buf len"

fun msg_run :: "msg_states \<Rightarrow> nat \<Rightarrow> msg_op list \<Rightarrow> msgs \<Rightarrow> (u32 list \<times> msgs) kres" where
  "msg_run st d [] s = Inr ([], s)"
| "msg_run st d (op # ops) s =
    (case msg_step st d op s of
       Inl e \<Rightarrow> Inl e
     | Inr (r, s1) \<Rightarrow> (case msg_run st d ops s1 of Inl e \<Rightarrow> Inl e | Inr (rs, s2) \<Rightarrow> Inr (r # rs, s2)))"

fun op_sender :: "msg_op \<Rightarrow> nat list" where
  "op_sender (Send a buf len) = [a]" | "op_sender _ = []"

text \<open>
  The abstraction: \<open>d\<close>'s queue is well formed and each process on it is blocked with its message; \<open>d\<close> is not
  waiting for a message itself. \<open>as\<close> are the processes that have not sent yet.
\<close>

definition blocked_sender :: "msg_states \<Rightarrow> msgs \<Rightarrow> nat \<Rightarrow> nat \<times> u32 \<times> u32 \<Rightarrow> bool" where
  "blocked_sender st s d i \<longleftrightarrow> state (proc (ker s) (fst i)) = STATE_BLOCKED_SEND st \<and>
     waitingPid (mpcb s (fst i)) = pid (proc (ker s) d) \<and> buffer (proc (ker s) (fst i)) = fst (snd i) \<and>
     buffer_len (mpcb s (fst i)) = snd (snd i)"

definition fifo_abs :: "msg_states \<Rightarrow> nat \<Rightarrow> msgs \<Rightarrow> nat list \<Rightarrow> fifo \<Rightarrow> bool" where
  "fifo_abs st d s as f \<longleftrightarrow>
     sendq s d (map fst (fst f)) \<and> snd f = ram (ker s) \<and> distinct (d # map fst (fst f) @ as) \<and>
     (\<forall>i \<in> set (fst f). blocked_sender st s d i) \<and>
     state (proc (ker s) d) \<noteq> STATE_BLOCKED_RECV st \<and> waitingPid (mpcb s d) \<noteq> - 1 \<and>
     (\<forall>a \<in> set as. a < MAX_PROC \<and> snext s a = None) \<and>
     inj_on (\<lambda>i. pid (proc (ker s) i)) (set (map fst (fst f)) \<union> set as)"

lemma transfer_pcb:
  "i \<noteq> b \<Longrightarrow> i \<noteq> a \<Longrightarrow> state (proc (ker (transfer s b a x y n)) i) = state (proc (ker s) i)"
  "state (proc (ker (transfer s b a x y n)) a) = STATE_READY"
  "buffer (proc (ker (transfer s b a x y n)) i) = buffer (proc (ker s) i)"
  by (simp_all add: transfer_def Let_def ready_proctab)

text \<open>Taking a message off the queue.\<close>

lemma fifo_take:
  assumes "fifo_abs st d s as (us @ (x, b, l) # vs, m)" and "STATE_BLOCKED_RECV st \<noteq> STATE_READY"
    and "sendq s' d (map fst (us @ vs))" and "ker s' = ker (transfer s x d buf b n)" and "keeps_msg s s' (set (map fst us)) {}"
  shows "fifo_abs st d s' as (us @ vs, memCpy m buf b (unat n))"
proof -
  note a = assms(1) [unfolded fifo_abs_def]
  have pd: "pid (proc (ker s') i) = pid (proc (ker s) i)" for i by (simp add: assms(4))
  have k: "waitingPid (mpcb s' i) = waitingPid (mpcb s i)" "buffer_len (mpcb s' i) = buffer_len (mpcb s i)" for i
    using assms(5) by (simp_all add: keeps_msg_def)
  have nx: "snext s' i = snext s i" if "i \<in> set as" for i
  proof -
    have "i \<notin> set (map fst us)" using that a by auto
    then show ?thesis using assms(5) unfolding keeps_msg_def by blast
  qed
  have "blocked_sender st s' d i" if "i \<in> set (us @ vs)" for i
  proof -
    have "fst i \<noteq> x" "fst i \<noteq> d" "blocked_sender st s d i" using that a by auto
    then show ?thesis by (simp add: blocked_sender_def pd k) (simp add: assms(4) transfer_pcb)
  qed
  moreover have "inj_on (\<lambda>i. pid (proc (ker s) i)) (set (map fst (us @ vs)) \<union> set as)" using a by (auto elim!: inj_on_subset)
  moreover have "ram (ker s') = memCpy m buf b (unat n)" "state (proc (ker s') d) = STATE_READY"
    using a by (simp_all add: assms(4) transfer_pcb)
  ultimately show ?thesis using a assms(2,3) by (simp add: fifo_abs_def pd k nx)
qed

lemma fifo_step_refines:
  assumes "fifo_abs st d s (op_sender op @ as) f" and "STATE_BLOCKED_RECV st \<noteq> STATE_READY"
    and "fifo_step op f = Some (r, f1)"
  shows "\<exists>s1. msg_step st d op s = Inr (r, s1) \<and> fifo_abs st d s1 as f1"
proof (cases op)
  case (Send a buf len)
  obtain q m where f: "f = (q, m)" by fastforce
  note i = assms(1) [unfolded fifo_abs_def f Send, simplified]
  have "\<not> receiving st s d a" using i by (auto simp: receiving_def)
  from send_blocks [OF this, of "map fst q" buf len] i obtain s1 where
    s1: "send st s a d buf len = Inr (0, s1)" "sendq s1 d (map fst q @ [a])" "state (proc (ker s1) a) = STATE_BLOCKED_SEND st"
    "buffer (proc (ker s1) a) = buf" "waitingPid (mpcb s1 a) = pid (proc (ker s) d)" "buffer_len (mpcb s1 a) = len"
    "ker s1 = upd (ker s) a (\<lambda>c. c\<lparr>state := STATE_BLOCKED_SEND st, buffer := buf\<rparr>)" "keeps_msg s s1 (set (map fst q)) {a}"
    by auto
  have pd: "pid (proc (ker s1) j) = pid (proc (ker s) j)" for j by (simp add: s1(7))
  have nx: "snext s1 j = None" if "j \<in> set as" for j
  proof -
    have "j \<notin> set (map fst q)" using that i by auto
    with s1(8) have "snext s1 j = snext s j" unfolding keeps_msg_def by blast
    with that i show ?thesis by simp
  qed
  have oth: "waitingPid (mpcb s1 j) = waitingPid (mpcb s j)" "buffer_len (mpcb s1 j) = buffer_len (mpcb s j)"
    if "j \<noteq> a" for j using s1(8) that unfolding keeps_msg_def by blast+
  have same: "proc (ker s1) j = proc (ker s) j" if "j \<noteq> a" for j using that by (simp add: s1(7))
  have old: "blocked_sender st s1 d j" if "j \<in> set q" for j
  proof -
    have "fst j \<noteq> a" "blocked_sender st s d j" using that i by force+
    then show ?thesis using oth [of "fst j"] same [of "fst j"] by (simp add: blocked_sender_def pd)
  qed
  have new: "blocked_sender st s1 d (a, buf, len)" using s1(3-6) by (simp add: blocked_sender_def pd)
  have "ram (ker s1) = ram (ker s)" by (simp add: s1(7))
  then have "fifo_abs st d s1 as (q @ [(a, buf, len)], m)"
    using i s1(2) old new oth [of d] same [of d] nx by (auto simp: fifo_abs_def pd)
  with s1(1) assms(3) show ?thesis by (auto simp: Send f)
next
  case (RecvAny buf len)
  obtain q m where f: "f = (q, m)" by fastforce
  with assms(3) RecvAny obtain x b l q' where q: "q = (x, b, l) # q'" by (auto split: list.splits)
  note i = assms(1) [unfolded f RecvAny q, simplified]
  then have h: "sendq s d (x # map fst q')" "x \<noteq> d" "buffer (proc (ker s) x) = b" "buffer_len (mpcb s x) = l"
    by (auto simp: fifo_abs_def blocked_sender_def)
  from recvAny_takes [OF h(1,2), of st 0 buf len] h(3,4) obtain s1 where s1: "recvAny st s d 0 buf len = Inr (min_len len l, s1)"
    "sendq s1 d (map fst q')" "ker s1 = ker (transfer s x d buf b (min_len len l))" "keeps_msg s s1 {} {}" by auto
  have "fifo_abs st d s1 as (q', memCpy m buf b (unat (min_len len l)))"
    using fifo_take [of st d s as "[]" x b l q' m s1 buf "min_len len l"] i assms(2) s1 by simp
  with s1(1) assms(3) show ?thesis by (auto simp: RecvAny f q)
next
  case (Recv x buf len)
  obtain q m where f: "f = (q, m)" by fastforce
  with assms(3) Recv obtain b l where "find (\<lambda>i. fst i = x) q = Some (x, b, l)"
    by (auto split: option.splits dest: find_SomeD)
  note fd = this
  then have "(x, b, l) \<in> set q" by (auto dest: find_SomeD)
  then obtain us vs where q: "q = us @ (x, b, l) # vs" by (meson split_list)
  note i = assms(1) [unfolded f Recv q, simplified]
  then have h: "sendq s d (map fst us @ x # map fst vs)" "state (proc (ker s) x) = STATE_BLOCKED_SEND st"
    "waitingPid (mpcb s x) = pid (proc (ker s) d)" "buffer (proc (ker s) x) = b" "buffer_len (mpcb s x) = l"
    "x \<notin> set (map fst us)" "x \<notin> set (map fst vs)"
    "inj_on (\<lambda>i. pid (proc (ker s) i)) (insert x (set (map fst us)))"
    by (auto simp: fifo_abs_def blocked_sender_def elim!: inj_on_subset)
  have "\<forall>u \<in> set (map fst us). pid (proc (ker s) u) \<noteq> pid (proc (ker s) x)"
    using h(6,8) unfolding inj_on_def by blast
  from recv_takes [OF h(1-3) this, of buf len] h(4,5) obtain s1 where s1: "recv st s d x buf len = Inr (min_len len l, s1)"
    "sendq s1 d (map fst (us @ vs))" "ker s1 = ker (transfer s x d buf b (min_len len l))" "keeps_msg s s1 (set (map fst us)) {}"
    by auto
  have "filter (\<lambda>i. fst i \<noteq> x) us = us" "filter (\<lambda>i. fst i \<noteq> x) vs = vs"
    using h(6,7) by (auto simp: filter_id_conv)
  then have "f1 = (us @ vs, memCpy m buf b (unat (min_len len l)))" "r = min_len len l"
    using assms(3) fd by (auto simp: Recv f q)
  with fifo_take [OF i assms(2) s1(2-4)] s1(1) show ?thesis by (auto simp: Recv)
qed

text \<open>
  C38. The handlers implement a queue that is first in, first out, as long as no sender comes back. Take a
  receiver \<open>d\<close> that is not waiting for a message, with some senders on its queue, and any run of sends to \<open>d\<close>
  and of receives by \<open>d\<close> for which, in the specification, a message is there. Let each sender send at most once, be none of
  those on the queue and not \<open>d\<close> itself, have an identifier of its own and a NULL \<open>senderNext\<close> at the start. Then every call
  returns what the specification says (0 for a send, the shorter of both lengths for a receive), the memory holds the
  bytes copied in that order, and the queue ends with the senders the specification leaves. (Without the condition on
  \<open>senderNext\<close>, which no handler ever clears, it is false: C39.)
\<close>

theorem sender_queue_spec:
  assumes "fifo_abs st d s (concat (map op_sender ops)) f" and "STATE_BLOCKED_RECV st \<noteq> STATE_READY"
    and "fifo_run ops f = Some (rs, f')"
  shows "\<exists>s'. msg_run st d ops s = Inr (rs, s') \<and> senders s' d = map fst (fst f') \<and> ram (ker s') = snd f' \<and>
    fifo_abs st d s' [] f'"
  using assms(1,3)
proof (induction ops arbitrary: s f rs)
  case Nil
  then have "sendq s d (map fst (fst f'))" "ram (ker s) = snd f'" by (simp_all add: fifo_abs_def)
  with Nil sendq_senders show ?case by auto
next
  case (Cons op ops)
  from Cons.prems(2) obtain r f1 rs' where f1: "fifo_step op f = Some (r, f1)" "fifo_run ops f1 = Some (rs', f')" "rs = r # rs'"
    by (auto simp: bind_eq_Some_conv)
  from Cons.prems(1) have "fifo_abs st d s (op_sender op @ concat (map op_sender ops)) f" by simp
  from fifo_step_refines [OF this assms(2) f1(1)] obtain s1 where
    s1: "msg_step st d op s = Inr (r, s1)" "fifo_abs st d s1 (concat (map op_sender ops)) f1" by blast
  from Cons.IH [OF s1(2) f1(2)] s1(1) f1(3) show ?case by auto
qed

text \<open>Processes 1, 3 and 4 send to process 2, which then receives from 3 and from anybody.\<close>

definition four_procs :: msgs where
  "four_procs = no_msgs\<lparr>ker := (ker no_msgs)\<lparr>sch := (sch (ker no_msgs))
     \<lparr>proctab := (\<lambda>i. zero_pcb\<lparr>pid := of_nat i\<rparr>)\<rparr>\<rparr>\<rparr>"

theorem sender_queue_spec_witness:
  "\<exists>s'. msg_run msg_consts 2 [Send 1 0x30000 16, Send 3 0x30010 8, Send 4 0x30020 4, Recv 3 0x40000 64, RecvAny 0x40010 3]
     four_procs = Inr ([0, 0, 0, 8, 3], s') \<and> senders s' 2 = [4]"
proof -
  let ?ops = "[Send 1 0x30000 16, Send 3 0x30010 8, Send 4 0x30020 4, Recv 3 0x40000 64, RecvAny 0x40010 3]"
  have a: "fifo_abs msg_consts 2 four_procs (concat (map op_sender ?ops)) ([], ram (ker four_procs))"
    by (simp add: fifo_abs_def four_procs_def no_msgs_def sendq_def snext_def msg_consts_def zero_pcb_def)
  have c: "STATE_BLOCKED_RECV msg_consts \<noteq> STATE_READY" by (simp add: msg_consts_def)
  have "\<exists>m. fifo_run ?ops ([], ram (ker four_procs)) = Some ([0, 0, 0, 8, 3], [(4, 0x30020, 4)], m)"
    by (simp add: min_len_def)
  then obtain m where "fifo_run ?ops ([], ram (ker four_procs)) = Some ([0, 0, 0, 8, 3], [(4, 0x30020, 4)], m)" by blast
  from sender_queue_spec [OF a c this] show ?thesis by auto
qed

text \<open>
  C39. A sender that comes back ties the queue into a ring. Neither receive clears the \<open>senderNext\<close> of
  the process it takes, and \<open>send\<close> does not clear that of the process it adds. So when \<open>x\<close> and \<open>y\<close>
  wait to send to \<open>d\<close>, \<open>recvAny\<close> takes \<open>x\<close>, and \<open>x\<close> sends again before \<open>y\<close> is taken, the queue is
  the ring \<open>y\<close>, \<open>x\<close>, \<open>y\<close> and so on, and the next process that sends to \<open>d\<close> hangs the kernel.
\<close>

theorem second_send_hangs:
  assumes "sendq s d [x, y]" and "d \<notin> {x, y}" and "waitingPid (mpcb s d) \<noteq> - 1"
    and "STATE_BLOCKED_RECV st \<noteq> STATE_READY" and "z \<noteq> d" and "recvAny st s d fp buf len = Inr (r, s1)"
  shows "\<exists>s2. send st s1 x d buf' len' = Inr (0, s2) \<and> send st s2 z d buf'' len'' = Inl Diverge"
proof -
  have xy: "x \<noteq> y" using sendq_distinct [OF assms(1)] by simp
  have q: "senderQueue (mpcb s d) = Some x" "snext s x = Some y" "snext s y = None" using assms(1) by (auto simp: sendq_def)
  have s1: "s1 = set_m (transfer s x d buf (buffer (proc (ker s) x)) r) d (\<lambda>c. c\<lparr>senderQueue := Some y\<rparr>)"
    using assms(6) q by (auto simp: recvAny_def Let_def snext_def)
  have rd: "state (proc (ker s1) d) = STATE_READY" by (simp add: s1 transfer_def Let_def ready_proctab)
  have nr: "\<not> receiving st s1 d i" for i using rd assms(3,4) by (simp add: receiving_def) (simp add: s1)
  have m1: "senderQueue (mpcb s1 d) = Some y" "snext s1 x = Some y" "snext s1 y = None" "waitingPid (mpcb s1 d) = waitingPid (mpcb s d)"
    using q assms(2) by (auto simp: s1 snext_def)
  let ?s3 = "set_p (set_m (set_p s1 x (\<lambda>c. c\<lparr>state := STATE_BLOCKED_SEND st\<rparr>)) x
    (\<lambda>c. c\<lparr>waitingPid := pid (proc (ker s1) d), buffer_len := len'\<rparr>)) x (\<lambda>c. c\<lparr>buffer := buf'\<rparr>)"
  let ?s2 = "set_m ?s3 y (\<lambda>c. c\<lparr>senderNext := Some x\<rparr>)"
  have "sender_tail (mpcb ?s3) y = Some y" using m1(3) xy by (simp add: sender_tail.simps [of _ y] snext_def)
  then have 1: "send st s1 x d buf' len' = Inr (0, ?s2)"
    using nr [of x] m1(1) assms(2) xy by (simp add: send_def receiving_def [symmetric] Let_def)
  have "senderQueue (mpcb ?s2 d) = Some y" "snext ?s2 y = Some x" "snext ?s2 x = Some y"
    using m1(1,2) xy assms(2) by (simp_all add: snext_def)
  moreover have "\<not> receiving st ?s2 d z" using rd m1(4) assms(2-4) by (simp add: receiving_def)
  ultimately have "send st ?s2 z d buf'' len'' = Inl Diverge" using send_diverges assms(5) by metis
  with 1 show ?thesis by blast
qed

definition two_senders :: msgs where
  "two_senders = no_msgs\<lparr>mpcb := (mpcb no_msgs)
     (1 := (mpcb no_msgs 1)\<lparr>senderNext := Some 2\<rparr>, 3 := (mpcb no_msgs 3)\<lparr>senderQueue := Some 1\<rparr>)\<rparr>"

theorem second_send_hangs_witness:
  "\<exists>r s1 s2. recvAny msg_consts two_senders 3 0 0x40000 4 = Inr (r, s1) \<and>
     send msg_consts s1 1 3 0x30000 16 = Inr (0, s2) \<and> send msg_consts s2 4 3 0x30000 16 = Inl Diverge"
proof -
  have q: "sendq two_senders 3 [1, 2]" "waitingPid (mpcb two_senders 3) \<noteq> - 1"
    by (simp_all add: two_senders_def no_msgs_def sendq_def snext_def)
  have c: "STATE_BLOCKED_RECV msg_consts \<noteq> STATE_READY" by (simp add: msg_consts_def)
  obtain r s1 where r: "recvAny msg_consts two_senders 3 0 0x40000 4 = Inr (r, s1)"
    using recvAny_takes [OF q(1), of msg_consts 0 "0x40000" 4] by auto
  from second_send_hangs [OF q(1) _ q(2) c _ r, of 4 "0x30000" 16 "0x30000" 16] r show ?thesis by auto
qed

end
