(* ===== verification/User.thy ===== *)
theory User
  imports Syscalls
begin

text \<open>
  The processes of \<open>c/user.c\<close>, the idle process of \<open>c/init.c\<close> and \<open>sigtramp\<close> of \<open>c/signal.c\<close> as the sequences of actions they
  perform. An action is a system call stub or a call of a library or kernel routine; the rest of the
  program is a function of the value it returns, so that a program covers every behaviour of the
  kernel. The tree is a \<open>codatatype\<close>: the idle process, the shell and the end of \<open>root\<close> never finish.
  Addresses of local variables, string literals and functions are arguments (\<open>ulink\<close>), as is the address
  of the variable arguments that \<open>sysioctl\<close> passes on (\<open>va_rest\<close>).
\<close>

section \<open>Programs\<close>

datatype uact =
    Sys stub
  | Kprintf string "u32 list"
  | KprintfBuf u32
  | Sprintf u32 string "u32 list"
  | Load u32
  | Kmalloc u32
  | Memset u32 u32 u32
  | StoreChar u32 u32
  | CallPtr u32 u32
  | Strcmp u32 string
  | Create u32 u32

text \<open>
  \<open>Leave\<close> is the return from the process function, which enters \<open>sysstop\<close> through the initial frame; \<open>Wild\<close>
  is a program that has read outside an array, after which nothing is known of it.
\<close>

codatatype uprog = Leave | Wild | Act uact "u32 \<Rightarrow> uprog"

record ulink =
  lit :: "string \<Rightarrow> u32"
  buff :: u32
  psTab :: u32
  temp1 :: u32
  temp2 :: u32
  a_busy :: u32
  a_sleep1 :: u32
  a_sleep2 :: u32
  a_sleep3 :: u32
  a_producer :: u32
  a_consumer :: u32
  a_shell :: u32
  va_rest :: u32

abbreviation (input) act :: "uact \<Rightarrow> uprog \<Rightarrow> uprog" where
  "act a k \<equiv> Act a (\<lambda>_. k)"

abbreviation (input) sys :: "stub \<Rightarrow> uprog \<Rightarrow> uprog" where
  "sys st k \<equiv> Act (Sys st) (\<lambda>_. k)"

definition nl :: string where "nl = [CHR 0x0A]"

text \<open>\<open>sprintf(buff, ...)\<close> and \<open>sysputs(buff)\<close>, and \<open>sysputs\<close> of a literal.\<close>

definition putf :: "ulink \<Rightarrow> string \<Rightarrow> u32 list \<Rightarrow> uprog \<Rightarrow> uprog" where
  "putf l fmt as k = act (Sprintf (buff l) fmt as) (sys (sysputs (buff l)) k)"

definition puts :: "ulink \<Rightarrow> string \<Rightarrow> uprog \<Rightarrow> uprog" where
  "puts l str k = sys (sysputs (lit l str)) k"

section \<open>The idle process and the shell\<close>

primcorec yield_forever :: uprog where
  "yield_forever = Act (Sys sysyield) (\<lambda>_. yield_forever)"

definition idleproc :: uprog where
  "idleproc = yield_forever"

primcorec shell :: uprog where
  "shell = Act (Kprintf (''>'' @ nl) []) (\<lambda>_. shell)"

section \<open>Processes and sleeping\<close>

primrec busy_loop :: "ulink \<Rightarrow> u32 \<Rightarrow> nat \<Rightarrow> u32 \<Rightarrow> uprog" where
  "busy_loop l myPid 0 count = Leave"
| "busy_loop l myPid (Suc n) count =
    putf l (''My pid is %d'' @ nl) [myPid]
      (let rest = sys sysyield (busy_loop l myPid n (count + 1))
       in if myPid = 2 \<and> count = 1 then sys (syskill 3 9) rest else rest)"

definition busy :: "ulink \<Rightarrow> uprog" where
  "busy l = Act (Sys sysgetpid) (\<lambda>myPid. busy_loop l myPid 10 0)"

definition sleep1 :: "ulink \<Rightarrow> uprog" where
  "sleep1 l = Act (Sys sysgetpid) (\<lambda>myPid. putf l (''Sleeping 1000 is %d'' @ nl) [myPid]
     (sys (syssleep 1000) (putf l (''Awoke 1000 from my nap %d'' @ nl) [myPid] Leave)))"

definition sleep2 :: "ulink \<Rightarrow> uprog" where
  "sleep2 l = Act (Sys sysgetpid) (\<lambda>myPid. putf l (''Sleeping 2000 pid is %d'' @ nl) [myPid]
     (sys (syssleep 2000) (putf l (''Awoke 2000 from my nap %d'' @ nl) [myPid] Leave)))"

definition sleep3 :: "ulink \<Rightarrow> uprog" where
  "sleep3 l = Act (Sys sysgetpid) (\<lambda>myPid. putf l (''Sleeping 3000 pid is %d'' @ nl) [myPid]
     (sys (syssleep 3000) (putf l (''Awoke 3000 from my nap %d'' @ nl) [myPid] Leave)))"

primrec producer_nums :: "ulink \<Rightarrow> nat \<Rightarrow> u32 \<Rightarrow> uprog \<Rightarrow> uprog" where
  "producer_nums l 0 i k = k"
| "producer_nums l (Suc n) i k =
    putf l (''Producer %x and in hex %x %d'' @ nl) [i + 1, i, i + 1] (sys (syssleep 1500) (producer_nums l n (i + 1) k))"

primrec repeat_puts :: "ulink \<Rightarrow> string \<Rightarrow> u32 \<Rightarrow> nat \<Rightarrow> uprog \<Rightarrow> uprog" where
  "repeat_puts l str t 0 k = k"
| "repeat_puts l str t (Suc n) k = puts l str (sys (syssleep t) (repeat_puts l str t n k))"

definition producer :: "ulink \<Rightarrow> uprog" where
  "producer l = sys (syssleep 3000) (producer_nums l 20 0 (repeat_puts l ''P'' 1500 15
     (putf l (''Producer finished'' @ nl) [] (sys sysstop Leave))))"

primrec consumer_nums :: "ulink \<Rightarrow> nat \<Rightarrow> u32 \<Rightarrow> uprog \<Rightarrow> uprog" where
  "consumer_nums l 0 i k = k"
| "consumer_nums l (Suc n) i k =
    putf l (''Consumer %d'' @ nl) [i] (sys (syssleep 1500) (sys sysyield (consumer_nums l n (i + 1) k)))"

definition consumer :: "ulink \<Rightarrow> uprog" where
  "consumer l = sys (syssleep 3000) (consumer_nums l 10 0 (repeat_puts l ''C'' 700 40
     (putf l (''Consumer finished'' @ nl) [] (sys sysstop Leave))))"

section \<open>The root process\<close>

text \<open>\<open>root\<close>, part by part. \<open>spawn\<close> collects the identifiers of a number of new processes.\<close>

definition root_ready :: "ulink \<Rightarrow> uprog \<Rightarrow> uprog" where
  "root_ready l k =
    Act (Sys (syscreate (a_busy l) 1024)) (\<lambda>proc_pid.
    Act (Sys (syscreate (a_busy l) 1024)) (\<lambda>con_pid.
      sys sysyield (sys (syskill proc_pid 9) (sys sysyield (sys (syskill con_pid 9)
    (Act (Sys (syscreate (a_busy l) 1024)) (\<lambda>p0.
     Act (Sys (syscreate (a_busy l) 1024)) (\<lambda>p1.
     Act (Sys (syscreate (a_busy l) 1024)) (\<lambda>p2.
     Act (Sys (syscreate (a_busy l) 1024)) (\<lambda>p3.
     Act (Sys (syscreate (a_busy l) 1024)) (\<lambda>p4.
       sys sysyield (sys (syskill p3 9) (sys sysyield (sys (syskill p2 9) (sys (syskill p4 9)
       (sys sysyield (sys (syskill p0 9) (sys sysyield (sys (syskill p1 9) (sys sysyield
       (sys (syssleep 8000) k)))))))))))))))))))))"

definition spawn_sleepers :: "ulink \<Rightarrow> (u32 \<Rightarrow> u32 \<Rightarrow> u32 \<Rightarrow> uprog) \<Rightarrow> uprog" where
  "spawn_sleepers l f =
    Act (Sys (syscreate (a_sleep1 l) 1024)) (\<lambda>p0.
    Act (Sys (syscreate (a_sleep2 l) 1024)) (\<lambda>p1.
    Act (Sys (syscreate (a_sleep3 l) 1024)) (\<lambda>p2. f p0 p1 p2)))"

definition root_sleep :: "ulink \<Rightarrow> uprog \<Rightarrow> uprog" where
  "root_sleep l k =
    act (Kprintf (''***********Sleeping no kills *****'' @ nl) []) (spawn_sleepers l (\<lambda>_ _ _.
      sys sysyield (sys (syssleep 8000)
    (act (Kprintf (''***********Sleeping kill 2000 *****'' @ nl) []) (spawn_sleepers l (\<lambda>_ p1 _.
      sys (syssleep 110) (sys (syskill p1 9) (sys (syssleep 8000)
    (act (Kprintf (''***********Sleeping kill last 3000 *****'' @ nl) []) (spawn_sleepers l (\<lambda>_ _ p2.
      sys sysyield (sys (syskill p2 9) (sys (syssleep 8000)
    (act (Kprintf (''***********Sleeping kill first process 1000*****'' @ nl) []) (spawn_sleepers l (\<lambda>p0 _ _.
      sys (syssleep 100) (sys (syskill p0 9) (sys (syssleep 8000) k))))))))))))))))))"

definition root_single :: "ulink \<Rightarrow> uprog \<Rightarrow> uprog" where
  "root_single l k =
    act (Kprintf (''***********One sleeping process, killed***'' @ nl) [])
      (Act (Sys (syscreate (a_sleep2 l) 1024)) (\<lambda>p0. sys sysyield (sys (syskill p0 9) (sys (syssleep 8000)
    (act (Kprintf (''***********One sleeping process, not killed***'' @ nl) [])
      (Act (Sys (syscreate (a_sleep2 l) 1024)) (\<lambda>_. sys sysyield (sys (syssleep 8000) k))))))))"

text \<open>The listing: entries \<open>j\<close> to \<open>procs\<close> of the table \<open>sysgetcputimes\<close> filled, which has 64 of them.\<close>

function ps_loop :: "ulink \<Rightarrow> int \<Rightarrow> int \<Rightarrow> uprog \<Rightarrow> uprog" where
  "ps_loop l j procs k =
    (if j \<le> procs then
       if int MAX_PROC \<le> j then Wild else
       Act (Load (psTab l + 4 + 4 * word_of_int j)) (\<lambda>p.
       Act (Load (psTab l + 260 + 4 * word_of_int j)) (\<lambda>st.
       Act (Load (psTab l + 516 + 4 * word_of_int j)) (\<lambda>t.
         act (Sprintf (buff l) (''%4d    %4d    %10d'' @ nl) [p, st, t])
           (act (KprintfBuf (buff l)) (ps_loop l (j + 1) procs k)))))
     else k)"
  by pat_completeness auto
termination by (relation "measure (\<lambda>(l, j, procs, k). nat (procs + 1 - j))") auto

declare ps_loop.simps [simp del]

definition root_list :: "ulink \<Rightarrow> uprog \<Rightarrow> uprog" where
  "root_list l k = Act (Sys (sysgetcputimes (psTab l))) (\<lambda>procs. ps_loop l 0 (sint procs) k)"

definition root :: "ulink \<Rightarrow> uprog" where
  "root l =
    puts l (''Root has been called'' @ nl) (root_ready l (root_sleep l (root_single l
      (act (Kprintf (''***********Three sleeping processes***'' @ nl) []) (spawn_sleepers l (\<lambda>_ _ _.
       Act (Sys (syscreate (a_producer l) 4096)) (\<lambda>proc_pid.
       Act (Sys (syscreate (a_consumer l) 4096)) (\<lambda>con_pid.
       putf l (''Proc pid = %d Con pid = %d'' @ nl) [proc_pid, con_pid]
         (sys (syssleep 500) (root_list l (sys (syssleep 10000) (root_list l
         (putf l (''Root finished'' @ nl) [] (sys sysstop yield_forever))))))))))))))"

section \<open>Signals and devices\<close>

definition test1 :: "ulink \<Rightarrow> uprog" where
  "test1 l = puts l (''Test1 has been called'' @ nl) (sys (syssleep 50000) Leave)"

definition test2 :: "ulink \<Rightarrow> uprog" where
  "test2 l = puts l (''Test2 has been called'' @ nl) Leave"

definition test3 :: "ulink \<Rightarrow> uprog" where
  "test3 l = puts l (''Test3 has been called'' @ nl) (sys (syskill 1 31) Leave)"

definition test4 :: "ulink \<Rightarrow> uprog" where
  "test4 l = puts l (''Test4 has been called'' @ nl) (sys (syskill 2 25) Leave)"

definition invalidDeviceTest :: "ulink \<Rightarrow> uprog" where
  "invalidDeviceTest l =
    puts l (''Invalid Device tests are being called'' @ nl)
      (Act (Sys (sysopen 99)) (\<lambda>ret1. act (Kprintf (''return value of sysopen is %d'' @ nl) [ret1])
      (Act (Sys (syswrite 99 0 0)) (\<lambda>ret2. act (Kprintf (''return value of syswrite is %d'' @ nl) [ret2])
      (Act (Sys (sysopen 1)) (\<lambda>fd. Act (Sys (sysioctl fd 99 (va_rest l))) (\<lambda>ret3.
       act (Kprintf (''return value of sysioctl is %d'' @ nl) [ret3]) Leave)))))))"

primrec show_words :: "nat \<Rightarrow> u32 \<Rightarrow> uprog \<Rightarrow> uprog" where
  "show_words 0 a k = k"
| "show_words (Suc n) a k = Act (Load a) (\<lambda>v. act (Kprintf (''%d'' @ nl) [v]) (show_words n (a + 4) k))"

definition zeroDeviceTest :: "ulink \<Rightarrow> uprog" where
  "zeroDeviceTest l =
    puts l (''Zero Device test has been called'' @ nl)
      (Act (Sys (sysopen 0)) (\<lambda>fd. Act (Kmalloc 800) (\<lambda>sendBuff. Act (Kmalloc 800) (\<lambda>readBuff.
       act (Memset readBuff 8 40) (act (Kprintf (''Writing 16 bytes to zero dev'' @ nl) [])
      (Act (Sys (syswrite fd sendBuff 16)) (\<lambda>ret1. act (Kprintf (''Number of bytes written: %d'' @ nl) [ret1])
      (act (Kprintf (''memset 40 bytes to readBuff'' @ nl) [])
      (act (Kprintf (''First 20 bytes of readBuff before read:'' @ nl) [])
      (show_words 5 readBuff
      (act (Kprintf (''First 20 bytes of readBuff after read:'' @ nl) [])
      (sys (sysread fd readBuff 16) (show_words 5 readBuff Leave)))))))))))))"

definition keyboardTest :: uprog where
  "keyboardTest = act (Kprintf (''testing keyboard'' @ nl) []) Leave"

definition randomDeviceTest :: "ulink \<Rightarrow> uprog" where
  "randomDeviceTest l =
    puts l (''Random Device test has been called'' @ nl)
      (Act (Sys (sysopen 1)) (\<lambda>fd. Act (Kmalloc 800) (\<lambda>readBuff.
       act (Memset readBuff 0 40) (sys (sysread fd readBuff 16) Leave))))"

text \<open>The login: the second comparison is made only if the first one succeeds.\<close>

definition initProgram :: "ulink \<Rightarrow> uprog" where
  "initProgram l =
    act (StoreChar (temp1 l) 0) (act (StoreChar (temp2 l) 0)
      (act (Kprintf (''Welcome to Xeros 415 - A not very secure Kernel'' @ nl) [])
      (Act (Sys (sysopen 2)) (\<lambda>fd.
       act (Kprintf (''Username: '' @ nl) []) (sys (sysread fd (temp1 l) 4)
      (sys (sysioctl fd 55 (va_rest l)) (act (Kprintf (''Password: '' @ nl) [])
      (sys (sysread fd (temp2 l) 4)
      (Act (Strcmp (temp1 l) ''cs415'') (\<lambda>r1.
         if r1 = 0 then Act (Strcmp (temp2 l) ''hungryForKnowledge'') (\<lambda>r2.
           if r2 = 0 then Act (Create (a_shell l) PROC_STACK) (\<lambda>p. sys (syswait p) Leave) else Leave)
         else Leave))))))))))"

definition hello :: uprog where
  "hello = act (Kprintf (''hello world'' @ nl) []) Leave"

definition bye :: uprog where
  "bye = act (Kprintf (''goodbye world'' @ nl) []) Leave"

text \<open>\<open>sigtramp\<close> of \<open>c/signal.c\<close>, which a delivered signal enters with its five arguments on the stack.\<close>

definition sigtramp :: "u32 \<Rightarrow> u32 \<Rightarrow> u32 \<Rightarrow> u32 \<Rightarrow> u32 \<Rightarrow> uprog" where
  "sigtramp handler cntx old_sp old_ret sigLvl =
    act (CallPtr handler cntx) (sys (syssigreturn old_sp old_ret sigLvl) Leave)"

section \<open>Executions\<close>

text \<open>The actions of an execution so far, each with the value it returned.\<close>

inductive trace :: "uprog \<Rightarrow> (uact \<times> u32) list \<Rightarrow> bool" where
  trace_Nil: "trace p []"
| trace_Act: "trace (f v) t \<Longrightarrow> trace (Act a f) ((a, v) # t)"

inductive_cases trace_ActE: "trace (Act a f) t"
inductive_simps trace_Leave: "trace Leave t"
inductive_simps trace_Wild: "trace Wild t"

lemma trace_Cons: "trace (Act a f) ((b, v) # t) \<longleftrightarrow> a = b \<and> trace (f v) t"
  by (auto elim: trace_ActE intro: trace_Act)

lemma trace_snoc:
  "trace (Act a f) (t @ [(b, v)]) \<longleftrightarrow> t = [] \<and> a = b \<or> (\<exists>w t'. t = (a, w) # t' \<and> trace (f w) (t' @ [(b, v)]))"
  by (cases t) (auto simp: trace_Cons intro: trace_Nil)

text \<open>All actions a program can ever perform satisfy \<open>P\<close>.\<close>

coinductive always :: "(uact \<Rightarrow> bool) \<Rightarrow> uprog \<Rightarrow> bool" for P where
  always_Leave: "always P Leave"
| always_Wild: "always P Wild"
| always_Act: "P a \<Longrightarrow> (\<And>v. always P (f v)) \<Longrightarrow> always P (Act a f)"

inductive_simps always_simps [simp]: "always P Leave" "always P Wild" "always P (Act a f)"

lemma always_trace: "trace p t \<Longrightarrow> always P p \<Longrightarrow> (a, v) \<in> set t \<Longrightarrow> P a"
  by (induction rule: trace.induct) auto

lemma always_yield_forever: "P (Sys sysyield) \<Longrightarrow> always P yield_forever"
proof (coinduction rule: always.coinduct)
  case always
  then show ?case by (subst yield_forever.code) auto
qed

lemma always_shell: "P (Kprintf (''>'' @ nl) []) \<Longrightarrow> always P shell"
proof (coinduction rule: always.coinduct)
  case always
  then show ?case by (subst shell.code) auto
qed

lemmas user_parts = putf_def puts_def root_ready_def spawn_sleepers_def root_sleep_def root_single_def root_list_def
lemmas user_progs = idleproc_def busy_def sleep1_def sleep2_def sleep3_def producer_def consumer_def root_def test1_def
  test2_def test3_def test4_def invalidDeviceTest_def zeroDeviceTest_def keyboardTest_def randomDeviceTest_def
  initProgram_def hello_def bye_def sigtramp_def
lemmas stubs = syscreate_def sysyield_def sysstop_def sysgetpid_def sysputs_def syssleep_def syskill_def
  sysgetcputimes_def syssignal_def syssigreturn_def syswait_def sysopen_def sysclose_def syswrite_def sysread_def
  sysioctl_def

text \<open>
  The part of what the kernel needs of a request that depends on its arguments only: a sleep is 0 or
  at least one tick, a stack is one that memory can hold, a signal number is in range, a read is for
  fewer bytes than an \<open>int\<close> can count in steps of four.
\<close>

fun servable :: "uact \<Rightarrow> bool" where
  "servable (Sys (Trap r as)) \<longleftrightarrow>
     (r = SYS_SLEEP \<longrightarrow> (\<exists>t. as = [t] \<and> 10 \<le> t)) \<and>
     (r = SYS_CREATE \<longrightarrow> (\<exists>f n. as = [f, n] \<and> unat n \<le> 4294967264)) \<and>
     (r = SYS_KILL \<longrightarrow> (\<exists>p n. as = [p, n] \<and> n < 32)) \<and>
     (r = SYS_PUTS \<longrightarrow> (\<exists>a. as = [a])) \<and> (r = SYS_READ \<longrightarrow> (\<exists>fd b n. as = [fd, b, n] \<and> sint n \<le> 2147483644)) \<and>
     r \<noteq> SYS_SIGHANDLER \<and> length as \<le> 3"
| "servable a = True"

lemma servable_loops:
  "always servable (busy_loop l p n c)"
  "always servable k \<Longrightarrow> always servable (producer_nums l n i k)"
  "always servable k \<Longrightarrow> always servable (consumer_nums l n i k)"
  "always servable k \<Longrightarrow> 10 \<le> t \<Longrightarrow> always servable (repeat_puts l str t n k)"
  "always servable k \<Longrightarrow> always servable (show_words n i k)"
  by (induction n arbitrary: c i p) (simp_all add: user_parts stubs Let_def)

lemma servable_ps: "always servable k \<Longrightarrow> always servable (ps_loop l j procs k)"
  by (induction l j procs k rule: ps_loop.induct) (subst ps_loop.simps, simp)

definition user_programs :: "ulink \<Rightarrow> uprog list" where
  "user_programs l = [idleproc, busy l, sleep1 l, sleep2 l, sleep3 l, producer l, consumer l, root l, test1 l, test2 l,
     test3 l, test4 l, invalidDeviceTest l, zeroDeviceTest l, keyboardTest, randomDeviceTest l, initProgram l, shell,
     hello, bye]"

lemma servable_ends: "always servable yield_forever" "always servable shell"
  by (rule always_yield_forever always_shell; simp add: stubs)+

lemmas servable_simps = user_progs user_parts stubs servable_loops servable_ps servable_ends

lemma servable_each:
  "always servable idleproc" "always servable (busy l)" "always servable (sleep1 l)" "always servable (sleep2 l)"
  "always servable (sleep3 l)" "always servable (producer l)" "always servable (consumer l)" "always servable (root l)"
  "always servable (test1 l)" "always servable (test2 l)" "always servable (test3 l)" "always servable (test4 l)"
  "always servable (invalidDeviceTest l)" "always servable (zeroDeviceTest l)" "always servable keyboardTest"
  "always servable (randomDeviceTest l)" "always servable (initProgram l)" "always servable hello" "always servable bye"
  "always servable (sigtramp h cx sp rt lv)"
  by (simp_all add: servable_simps)

lemma servable_programs: "list_all (always servable) (user_programs l)"
  by (simp add: user_programs_def servable_each servable_ends)

text \<open>Which programs make which calls: no call \<open>r\<close>, and no signal 31.\<close>

fun no_call :: "u32 \<Rightarrow> uact \<Rightarrow> bool" where
  "no_call r (Sys (Trap r' as)) \<longleftrightarrow> r' \<noteq> r"
| "no_call r a = True"

fun no_stop_signal :: "uact \<Rightarrow> bool" where
  "no_stop_signal (Sys (Trap r as)) \<longleftrightarrow> (r = SYS_KILL \<longrightarrow> as ! 1 \<noteq> 31)"
| "no_stop_signal a = True"

lemma no_call_loops:
  "r = SYS_READ \<Longrightarrow> always (no_call r) (busy_loop l p n c)" "always no_stop_signal (busy_loop l p n c)"
  "r \<in> {SYS_READ, SYS_KILL} \<Longrightarrow> always (no_call r) k \<Longrightarrow> always (no_call r) (producer_nums l n i k)"
  "r \<in> {SYS_READ, SYS_KILL} \<Longrightarrow> always (no_call r) k \<Longrightarrow> always (no_call r) (consumer_nums l n i k)"
  "r \<in> {SYS_READ, SYS_KILL} \<Longrightarrow> always (no_call r) k \<Longrightarrow> always (no_call r) (repeat_puts l str t n k)"
  "always (no_call r) k \<Longrightarrow> always (no_call r) (show_words n i k)"
  by (induction n arbitrary: c i p) (auto simp: user_parts stubs Let_def)

lemma no_call_ps:
  "always (no_call r) k \<Longrightarrow> always (no_call r) (ps_loop l j procs k)"
  "always no_stop_signal k \<Longrightarrow> always no_stop_signal (ps_loop l j procs k)"
  by (induction l j procs k rule: ps_loop.induct) (subst ps_loop.simps, simp)+

lemma no_call_ends:
  "r \<noteq> SYS_YIELD \<Longrightarrow> always (no_call r) yield_forever" "always (no_call r) shell" "always no_stop_signal yield_forever"
  by (rule always_yield_forever always_shell; simp add: stubs)+

lemmas no_call_simps = user_progs user_parts stubs no_call_loops no_call_ps no_call_ends

lemma signal_users:
  assumes "prg \<in> set (user_programs l)"
  shows "always (no_call SYS_KILL) prg \<or> prg \<in> {root l, busy l, test3 l, test4 l}"
    "always (no_call SYS_READ) prg \<or> prg \<in> {zeroDeviceTest l, randomDeviceTest l, initProgram l}"
    "always (no_call SYS_KILL) prg \<or> always no_stop_signal prg \<or> prg = test3 l"
proof -
  let ?K = "\<lambda>p. always (no_call SYS_KILL) p \<or> p \<in> {root l, busy l, test3 l, test4 l}"
  let ?R = "\<lambda>p. always (no_call SYS_READ) p \<or> p \<in> {zeroDeviceTest l, randomDeviceTest l, initProgram l}"
  have k: "always (no_call SYS_KILL) idleproc" "always (no_call SYS_KILL) (sleep1 l)" "always (no_call SYS_KILL) (sleep2 l)"
    "always (no_call SYS_KILL) (sleep3 l)" "always (no_call SYS_KILL) (producer l)" "always (no_call SYS_KILL) (consumer l)"
    "always (no_call SYS_KILL) (test1 l)" "always (no_call SYS_KILL) (test2 l)" "always (no_call SYS_KILL) (invalidDeviceTest l)"
    "always (no_call SYS_KILL) (zeroDeviceTest l)" "always (no_call SYS_KILL) keyboardTest"
    "always (no_call SYS_KILL) (randomDeviceTest l)" "always (no_call SYS_KILL) (initProgram l)" "always (no_call SYS_KILL) shell"
    "always (no_call SYS_KILL) hello" "always (no_call SYS_KILL) bye"
    by (simp_all add: no_call_simps)
  have r: "always (no_call SYS_READ) idleproc" "always (no_call SYS_READ) (sleep1 l)" "always (no_call SYS_READ) (sleep2 l)"
    "always (no_call SYS_READ) (sleep3 l)" "always (no_call SYS_READ) (producer l)" "always (no_call SYS_READ) (consumer l)"
    "always (no_call SYS_READ) (test1 l)" "always (no_call SYS_READ) (test2 l)" "always (no_call SYS_READ) (test3 l)"
    "always (no_call SYS_READ) (test4 l)" "always (no_call SYS_READ) (busy l)" "always (no_call SYS_READ) (root l)"
    "always (no_call SYS_READ) (invalidDeviceTest l)" "always (no_call SYS_READ) keyboardTest" "always (no_call SYS_READ) shell"
    "always (no_call SYS_READ) hello" "always (no_call SYS_READ) bye"
    by (simp_all add: no_call_simps)
  have s: "always no_stop_signal (root l)" "always no_stop_signal (busy l)" "always no_stop_signal (test4 l)"
    by (simp_all add: no_call_simps)
  have "list_all ?K (user_programs l)" unfolding user_programs_def using k by simp
  with assms show kk: "always (no_call SYS_KILL) prg \<or> prg \<in> {root l, busy l, test3 l, test4 l}" unfolding list_all_iff by blast
  have "list_all ?R (user_programs l)" unfolding user_programs_def using r by simp
  with assms show "always (no_call SYS_READ) prg \<or> prg \<in> {zeroDeviceTest l, randomDeviceTest l, initProgram l}"
    unfolding list_all_iff by blast
  show "always (no_call SYS_KILL) prg \<or> always no_stop_signal prg \<or> prg = test3 l" using kk s by blast
qed

section \<open>Properties\<close>

text \<open>
  C40. The login program starts the shell only for the right user: in every execution of \<open>initProgram\<close>,
  whatever the kernel and the library return, a process is created only after the comparison of what
  was read with \<open>cs415\<close> and then that with the password have both found them equal, and the process
  created is the shell.
\<close>

theorem login_checked:
  assumes "trace (initProgram l) (t @ [(Create f n, v)])"
  shows "f = a_shell l \<and> n = PROC_STACK \<and>
    (\<exists>us. t = us @ [(Strcmp (temp1 l) ''cs415'', 0), (Strcmp (temp2 l) ''hungryForKnowledge'', 0)])"
proof -
  have "f = a_shell l \<and> n = PROC_STACK \<and>
      t = butlast (butlast t) @ [(Strcmp (temp1 l) ''cs415'', 0), (Strcmp (temp2 l) ''hungryForKnowledge'', 0)]"
    using assms unfolding initProgram_def by (auto simp: trace_snoc trace_Leave split: if_splits)
  then show ?thesis by blast
qed

definition some_link :: ulink where
  "some_link = \<lparr>lit = (\<lambda>s. 0x7000 + of_nat (length s)), buff = 0x30000, psTab = 0x31000, temp1 = 0x32000, temp2 = 0x32004,
     a_busy = 0x5000, a_sleep1 = 0x5100, a_sleep2 = 0x5200, a_sleep3 = 0x5300, a_producer = 0x5400,
     a_consumer = 0x5500, a_shell = 0x5600, va_rest = 0x33000\<rparr>"

theorem login_checked_witness:
  "\<exists>t f n. trace (initProgram some_link) (t @ [(Create f n, 3)]) \<and> f = a_shell some_link"
proof -
  let ?l = some_link
  let ?t = "[(StoreChar (temp1 ?l) 0, 0), (StoreChar (temp2 ?l) 0, 0),
    (Kprintf (''Welcome to Xeros 415 - A not very secure Kernel'' @ nl) [], 0), (Sys (sysopen 2), 0),
    (Kprintf (''Username: '' @ nl) [], 0), (Sys (sysread 0 (temp1 ?l) 4), 1), (Sys (sysioctl 0 55 (va_rest ?l)), 0),
    (Kprintf (''Password: '' @ nl) [], 0), (Sys (sysread 0 (temp2 ?l) 4), 1), (Strcmp (temp1 ?l) ''cs415'', 0),
    (Strcmp (temp2 ?l) ''hungryForKnowledge'', 0)]"
  have "trace (initProgram ?l) (?t @ [(Create (a_shell ?l) PROC_STACK, 3)])"
    unfolding initProgram_def by (simp add: trace_Cons trace_Nil del: PROC_STACK_def)
  with login_checked [OF this] show ?thesis by blast
qed

end
