(* ===== verification/Spec2Isabelle.thy ===== *)
theory Spec2Isabelle
  imports Mem_Free Ctsw_Asm State_Types Msg User
begin

text \<open>
  A verification library for a small teaching kernel for the Intel x86 (files \<open>c/*.c\<close> and \<open>h/*.h\<close> of
  the repository).

  \<^bold>\<open>The program.\<close> One address space holds the kernel and up to 64 processes. \<open>init.c\<close> sets up memory, the
  process table and the device table, creates the idle process and the login program and enters the
  dispatcher of \<open>disp.c\<close>. The dispatcher switches to a process (\<open>ctsw.c\<close>), gets back the number of the
  system call or interrupt that ended its run, serves it, and goes on with the same process or with
  the next one of the ready queue. Serving a request goes through process creation (\<open>create.c\<close>, which
  takes a stack from the memory manager \<open>mem.c\<close>), the sleep queue and the timer (\<open>sleep.c\<close>), signals
  (\<open>signal.c\<close> and \<open>kill\<close> of \<open>disp.c\<close>) and the device calls (\<open>di_calls.c\<close>), which reach the zero, random and
  keyboard drivers (\<open>zerorand.c\<close>, \<open>kbd.c\<close>) through the device table. \<open>syscall.c\<close> is the application's
  side of the system calls, \<open>user.c\<close> holds the programs, and \<open>msg.c\<close> three handlers for messages.

  \<^bold>\<open>Theories and what they model.\<close>
  \<^item> \<open>Prelude\<close>: machine words, outcomes that are not a value (\<open>fault\<close>, \<open>kres\<close>), pointer-linked lists as HOL
    lists (\<open>chain\<close>, \<open>walk\<close>).
  \<^item> \<open>Pcb\<close>: constants and structures of \<open>xeroskernel.h\<close>; the scheduler's state \<open>sched\<close> (process table, heads
    of both queues); \<open>platform\<close>, what the kernel takes from start-up code and linker.
  \<^item> \<open>ReadyQ\<close>: \<open>ready\<close>, \<open>next\<close> (here \<open>next_proc\<close>), \<open>removeFromReady\<close>, \<open>findPCB\<close>, \<open>getCPUtimes\<close> of \<open>disp.c\<close>.
  \<^item> \<open>SleepQ\<close>: \<open>sleep.c\<close>, with the queue of differences read as a list of absolute times (\<open>sleepers\<close>) and the
    interface \<open>timer_queue\<close>.
  \<^item> \<open>Scheduler\<close>: both queues together, \<open>run_ok\<close> for the process that runs, and the interface \<open>pcb_rel\<close> for
    relations on process table entries that every queue operation keeps, with \<open>kept_field\<close>, a field none
    of them touches, as a special case.
  \<^item> \<open>Mem\<close>, \<open>Mem_Free\<close>: \<open>mem.c\<close>, with the interface \<open>allocator\<close>.
  \<^item> \<open>Machine\<close>: byte memory, little-endian words, \<open>memset\<close>, \<open>memCpy\<close>, \<open>va_arg\<close>.
  \<^item> \<open>Kernel\<close>: the record of the whole state. \<open>Create\<close>: \<open>create.c\<close>. \<open>Context\<close>: \<open>contextswitch\<close> of \<open>ctsw.c\<close> as
    far as the process and the rest of the kernel see it. \<open>Ctsw_Asm\<close>: its assembly block, instruction by
    instruction, with the kernel's stack and the static variables, and \<open>contextinit\<close>. \<open>Signals\<close>: \<open>signal.c\<close> and
    \<open>kill\<close>. \<open>Devices\<close>, \<open>Keyboard\<close>: the drivers, with the interface \<open>device_driver\<close>. \<open>Di_Calls\<close>: \<open>di_calls.c\<close>.
    \<open>Syscalls\<close>: \<open>syscall.c\<close>.
  \<^item> \<open>Dispatch\<close>: one definition per arm of the dispatcher's \<open>switch\<close>, a round of its loop
    (\<open>dispatch_round\<close>) and the loop over a list of inputs (\<open>dispatch\<close>). \<open>Dispatch_Inv\<close>: that every arm
    keeps the invariant \<open>kinv\<close>. \<open>Init\<close>: \<open>initproc\<close>. \<open>State_Types\<close>: the values the kernel's integers can take
    (\<open>ktyped\<close>), kept by every arm on any request but that for a handler of a signal number that is none.
  \<^item> \<open>Msg\<close>: \<open>msg.c\<close>. \<open>User\<close>: \<open>user.c\<close>, the idle process and \<open>sigtramp\<close> as trees of actions.
  \<^item> This theory: runs of the dispatcher from boot and the properties of the whole kernel.

  \<^bold>\<open>How code and model correspond.\<close> A 32-bit value is a \<open>u32\<close>, compared with \<open>sint\<close> where C compares signed;
  a \<open>pcb *\<close> is an index into the table or \<open>None\<close>; a function of the kernel takes the state and gives
  back the new state with its value. Following a NULL pointer to a structure or a routine, an index outside an array, a loop
  that does not end and the deliberate endless loops are the faults \<open>NullDeref\<close>, \<open>OutOfBounds\<close>, \<open>Diverge\<close> and
  \<open>Halt\<close>. Bytes are another matter: the machine runs without paging, so that address 0 is ordinary memory and a copy of
  bytes to a NULL buffer (\<open>zeroWrite\<close>, \<open>kbdRead\<close>) stores them there, as it does on the machine. An unchecked signal
  number reaches the word of the process table it reaches in the code, as far as that word is not a pointer (\<open>sighandler\<close>). A function pointer of the device table is
  the driver it points to. What a process does between two traps is an arbitrary function of its registers and
  of memory (\<open>user_run\<close>); the bytes the keyboard's ports deliver are inputs of the round.

  \<^bold>\<open>What is shown.\<close> Both queues stay well formed under every operation, and a sleeper wakes at exactly its
  tick. Blocks handed out by \<open>kmalloc\<close> never overlap, and \<open>kfree\<close> returns a block to the free list. A
  context switch restores all registers; its assembly code does what its description says and gives the
  kernel its own registers back. After a signal's handler the process goes on in the registers it would have had without the signal, arguments of
  system calls arrive unchanged, and \<open>sysgetpid\<close>, \<open>sysopen\<close>, \<open>sysclose\<close> and \<open>sysioctl\<close> resume their caller with its registers. Device
  calls follow no NULL device or routine. The kernel boots into a sound state; every round of the dispatcher on a
  request it can serve keeps it sound and loses no runnable process; the processor is shared round robin;
  states, descriptors and flags keep to their declared values as long as handlers are installed under signal numbers
  that exist; the kernel does not run out of processes as long as the idle process is spared; and the programs of \<open>user.c\<close>
  make only requests it can serve, but for signals to sleeping processes and reads at the end of file. The message
  handlers implement a queue per receiver as long as no sender comes back. Where the code goes wrong, a theorem says how: sleeps of under a tick, signals to
  sleeping processes, signals sent twice, end of file at the keyboard, \<open>kfree\<close> next to the only free
  block, the size of a split block's remainder, stopping a process somebody waits for, a new process in a
  used slot, a sender that comes back, a handler for a signal number that is none, a read of the random device
  whose index overflows.

  \<^bold>\<open>Loops and bounds.\<close> Loops over linked lists are \<open>partial_function (option)\<close>: not ending is the value
  \<open>None\<close>, and the theorems on them say that they end. The abstractions \<open>readyq\<close>, \<open>sleepq\<close> and \<open>senders\<close>
  walk at most 64 links, which is enough for lists of distinct slots. \<open>create\<close> looks at 64 slots, as
  the code does. The execution of the assembly block is bounded by 40 instructions, more than the block
  has; \<open>ctsw_refines\<close> says that it runs through. A split block's remainder is recorded 16 bytes too large; the invariant
  \<open>heap n\<close> therefore asks for \<open>n\<close> headers' worth of unused bytes behind each free block, and each
  allocation uses one up: on the memory map of the code's own self-test the hole leaves room for 62976
  allocations, which is the \<open>n\<close> that bounds the number of rounds in the theorems on runs.

  \<^bold>\<open>What is not modelled.\<close> \<open>end_of_intr\<close> and \<open>enable_irq\<close> only program the interrupt hardware (of the last one
  the on/off state is kept); \<open>set_evec\<close> and \<open>initPIT\<close>, which \<open>contextinit\<close> calls, are parameters. The kernel's
  own stack is part of \<open>Ctsw_Asm\<close> only. Diagnostics printed with \<open>kprintf\<close> are dropped, apart from what \<open>sysputs\<close> and the keyboard's echo print.
  The headers of the memory manager live in a typed heap of their own, apart from the bytes of memory;
  likewise the kernel's static data are not addressable, so that a process that overwrites them, by its own
  stores or through a buffer it hands to \<open>sysread\<close> or \<open>sysgetcputimes\<close> (whose addresses the kernel checks only against the hole and the
  end of memory), is outside the model, as is one that calls \<open>kmalloc\<close> or \<open>kfree\<close> itself. \<open>rand\<close> and \<open>srand\<close> of the C
  library are the parameter \<open>lib\<close>. The programs of \<open>user.c\<close> are trees of actions and not machine code:
  \<open>user_requests_polite\<close> joins the two at the system call. The listings under \<open>test/\<close> are earlier
  copies of \<open>user.c\<close>. Prototypes carry no behaviour.
\<close>

section \<open>Runs of the dispatcher\<close>

text \<open>
  \<open>drun pl lb Q c is c'\<close>: from configuration \<open>c\<close> (the running process and the kernel's state) the rounds
  of the dispatcher on the inputs \<open>is\<close> lead to \<open>c'\<close>, and each request made on the way meets \<open>Q\<close>.
\<close>

inductive drun :: "platform \<Rightarrow> lib \<Rightarrow> (kernel \<Rightarrow> nat \<Rightarrow> u32 \<Rightarrow> bool) \<Rightarrow> nat \<times> kernel \<Rightarrow> input list \<Rightarrow> nat \<times> kernel \<Rightarrow> bool"
  for pl lb Q c0 where
  start: "drun pl lb Q c0 [] c0"
| round: "drun pl lb Q c0 is (p, k) \<Longrightarrow> contextswitch k p u = (r, k1) \<Longrightarrow> Q k1 p r \<Longrightarrow>
    dispatch_switch pl lb io k1 p r = Inr c \<Longrightarrow> drun pl lb Q c0 (is @ [(u, io)]) c"

inductive_simps drun_Nil: "drun pl lb Q c0 [] c"
inductive_cases drun_snocE: "drun pl lb Q c0 (is @ [i]) c"

lemma dispatch_append:
  "dispatch pl lb (is @ js) c = (case dispatch pl lb is c of Inl e \<Rightarrow> Inl e | Inr c' \<Rightarrow> dispatch pl lb js c')"
  by (induction "is" arbitrary: c) (auto split: sum.splits)

lemma drun_dispatch: "drun pl lb Q c0 is c \<Longrightarrow> dispatch pl lb is c0 = Inr c"
  by (induction rule: drun.induct) (auto simp: dispatch_append dispatch_round_def)

text \<open>A round on a sound state.\<close>

lemma round_keeps:
  assumes "kinv (Suc n) k p" and "contextswitch k p u = (r, k1)" and "polite pl k1 p r"
  shows "ends_ok n (runnable k p - takes_off k1 p r) (dispatch_round pl lb (u, io) (p, k))"
  using switch_keeps [OF contextswitch_keeps(1) [OF assms(1,2)] assms(3), of lb io]
    contextswitch_keeps(2) [OF assms(1,2)] by (simp add: dispatch_round_def assms(2))

lemma drun_keeps:
  assumes "drun pl lb Q c0 is c" and "kinv n (snd c0) (fst c0)" and "A \<subseteq> runnable (snd c0) (fst c0)"
    and "length is \<le> n" and "\<And>k p r. Q k p r \<Longrightarrow> polite pl k p r \<and> A \<inter> takes_off k p r = {}"
  shows "kinv (n - length is) (snd c) (fst c) \<and> A \<subseteq> runnable (snd c) (fst c)"
  using assms(1,4)
proof (induction rule: drun.induct)
  case start
  then show ?case using assms(2,3) by simp
next
  case (round "is" p k u r k1 io c)
  then have "kinv (Suc (n - length (is @ [(u, io)]))) k p" "A \<subseteq> runnable k p"
    by (simp_all add: Suc_diff_Suc)
  from round_keeps [OF this(1) round.hyps(2), of pl lb io] this(2) assms(5) [OF round.hyps(3)]
  have "ends_ok (n - length (is @ [(u, io)])) A (dispatch_round pl lb (u, io) (p, k))"
    by (auto elim!: ends_ok_mono)
  then show ?case using round.hyps(2,4) by (cases c) (simp add: dispatch_round_def)
qed

text \<open>A process that yields at once, on the start-up state of a 4 MB machine.\<close>

definition some_lib :: lib where
  "some_lib = \<lparr>rand_seq = (\<lambda>s n. s + of_nat n)\<rparr>"

definition yields :: user_run where
  "yields r m = syscall r m 0x9000 SYS_YIELD []"

lemma yields_switch: "\<exists>k1. contextswitch k p yields = (SYS_YIELD, k1)"
  by (simp add: contextswitch_def yields_def syscall_def switch_in_def switch_out_def Let_def split: prod.splits)

lemma pc_boot:
  "\<exists>k. initproc pc_platform 0x5000 0x6000 (image (\<lambda>_. 0) (hdrs raw_mem)) = Inr (1, k) \<and> kinv 10 k 1 \<and> 1 \<in> runnable k 1"
proof -
  have "layout_ok (10 + 5) pc_platform" by (rule pc_layout) simp
  from boot_result [OF this pc_room, of "0x5000" "0x6000" "\<lambda>_. 0" "hdrs raw_mem"] show ?thesis
    by (auto simp: runnable_def)
qed

lemma yield_polite: "polite pl k p SYS_YIELD" "takes_off k p SYS_YIELD = {}"
  by (simp_all add: polite_def takes_off_def)

lemma pc_yield_run:
  "\<exists>k c. initproc pc_platform 0x5000 0x6000 (image (\<lambda>_. 0) (hdrs raw_mem)) = Inr (1, k) \<and>
     drun pc_platform some_lib (polite pc_platform) (1, k) [(yields, 0, 0)] c"
proof -
  from pc_boot obtain k where k: "initproc pc_platform 0x5000 0x6000 (image (\<lambda>_. 0) (hdrs raw_mem)) = Inr (1, k)"
    "kinv (Suc 9) k 1" "1 \<in> runnable k 1" by (auto simp: eval_nat_numeral)
  obtain k1 where k1: "contextswitch k 1 yields = (SYS_YIELD, k1)" using yields_switch by blast
  have "dispatch_round pc_platform some_lib (yields, 0, 0) (1, k) = dispatch_switch pc_platform some_lib (0, 0) k1 1 SYS_YIELD"
    unfolding dispatch_round_def by (simp add: k1 [simplified])
  with round_keeps [OF k(2) k1 yield_polite(1), of pc_platform some_lib "(0, 0)"] k(3) yield_polite(2) obtain c where
    "dispatch_switch pc_platform some_lib (0, 0) k1 1 SYS_YIELD = Inr c"
    by (auto simp: ends_ok_def split: sum.splits)
  from drun.round [OF drun.start k1 _ this] yield_polite(1)
  have "drun pc_platform some_lib (polite pc_platform) (1, k) [(yields, 0, 0)] c" by fastforce
  with k(1) show ?thesis by blast
qed

text \<open>A turn: the process runs until the timer interrupts it or it yields.\<close>

definition gives_up :: "user_run \<Rightarrow> bool" where
  "gives_up u \<longleftrightarrow> (\<forall>r m. case u r m of (t, r', _) \<Rightarrow> t = 1 \<or> t = 0 \<and> r_eax r' = SYS_YIELD)"

lemma turn_round:
  assumes "kinv n k p" and "gives_up (fst inp)"
  shows "\<exists>q k' zs. dispatch_round pl lb inp (p, k) = Inr (q, k') \<and> kinv n k' q \<and>
    q # readyq (sch k') = readyq (sch k) @ zs @ [p]"
proof -
  obtain r k1 where s: "contextswitch k p (fst inp) = (r, k1)" by fastforce
  obtain t rs m where u: "fst inp (fst (switch_out k p)) (ram (snd (switch_out k p))) = (t, rs, m)" by (metis prod_cases3)
  have t: "t = 1 \<or> t = 0 \<and> r_eax rs = SYS_YIELD"
    using assms(2) [unfolded gives_up_def, rule_format, of "fst (switch_out k p)" "ram (snd (switch_out k p))"] u by simp
  from s u have "switch_in ((snd (switch_out k p))\<lparr>ram := m\<rparr>) p t rs = (r, k1)"
    by (simp add: contextswitch_def split_beta)
  from switch_in_fields(3) [OF this] t have "r = SYS_TIMER \<or> r = SYS_YIELD" by auto
  then have "dispatch_round pl lb inp (p, k) \<in> {do_timer k1 p, do_yield k1 p}"
    by (auto simp: dispatch_round_def dispatch_switch_def s)
  moreover have "readyq (sch k1) = readyq (sch k)" using contextswitch_keeps(3) [OF assms(1) s] by (simp add: same_queues_def)
  moreover note do_timer_step [OF contextswitch_keeps(1) [OF assms(1) s]] do_yield_step [OF contextswitch_keeps(1) [OF assms(1) s]]
  ultimately show ?thesis by (metis append_Nil insertE singletonD append.assoc)
qed

lemma turns:
  assumes "kinv n k p" and "\<forall>inp \<in> set is. gives_up (fst inp)" and "length is = Suc i" and "i < length (readyq (sch k))"
  shows "\<exists>k' ys. dispatch pl lb is (p, k) = Inr (readyq (sch k) ! i, k') \<and> kinv n k' (readyq (sch k) ! i) \<and>
    readyq (sch k') = drop (Suc i) (readyq (sch k)) @ ys \<and> insert p (set (take i (readyq (sch k)))) \<subseteq> set ys"
  using assms
proof (induction i arbitrary: "is" p k)
  case 0
  then obtain inp where i: "is = [inp]" by (cases "is") auto
  from turn_round [OF 0(1), of inp pl lb] 0(2) i obtain q k' zs where
    q: "dispatch_round pl lb inp (p, k) = Inr (q, k')" "kinv n k' q" "q # readyq (sch k') = readyq (sch k) @ zs @ [p]" by auto
  with 0(4) show ?case by (cases "readyq (sch k)") (auto simp: i)
next
  case (Suc i)
  then obtain inp js where i: "is = inp # js" "length js = Suc i" by (cases "is") auto
  from turn_round [OF Suc(2), of inp pl lb] Suc(3) i obtain q k' zs where
    q: "dispatch_round pl lb inp (p, k) = Inr (q, k')" "kinv n k' q" "q # readyq (sch k') = readyq (sch k) @ zs @ [p]" by auto
  obtain xs where xs: "readyq (sch k) = q # xs" "readyq (sch k') = xs @ zs @ [p]" "i < length xs"
    using q(3) Suc(5) by (cases "readyq (sch k)") auto
  from Suc.IH [OF q(2) _ i(2), unfolded xs(2)] Suc(3) i xs(3) obtain k'' ys where
    "dispatch pl lb js (q, k') = Inr (xs ! i, k'')" "kinv n k'' (xs ! i)"
    "readyq (sch k'') = drop (Suc i) xs @ zs @ p # ys" "insert q (set (take i xs)) \<subseteq> set ys"
    by (auto simp: nth_append)
  with xs(1) i(1) q(1) show ?case by (intro exI [of _ k''] exI [of _ "zs @ p # ys"]) auto
qed

text \<open>The calls that neither reschedule nor write to memory.\<close>

lemma device_ram:
  "ram (snd (call_open d k p i)) = ram k" "ram (snd (call_close d k p fd)) = ram k" "ram (snd (call_ioctl d k fd c x)) = ram k"
  by (cases d; simp add: zeroOpen_def randOpen_def kbdOpen_def zeroClose_def randClose_def kbdClose_def zeroIoctl_def
      randIoctl_def kbdIoctl_def split: option.splits)+

lemma only_fdt_esp: "only_fdt k p k' \<Longrightarrow> esp (proc k' p) = esp (proc k p)"
  by (auto simp: only_fdt_def)

lemma quiet_device:
  assumes "res \<in> {di_open k p d, di_close k p d, di_ioctl k p d c x}" and "res = Inr (v, k')"
  shows "ram k' = ram k \<and> esp (proc k' p) = esp (proc k p)"
proof -
  have "k' = k \<or> (\<exists>dr i. (v, k') = call_open dr k p i) \<or> (\<exists>dr. (v, k') = call_close dr k p d) \<or>
      (\<exists>dr. (v, k') = call_ioctl dr k d c x)"
    using assms by (auto simp: di_open_def di_close_def di_ioctl_def split: option.splits sum.splits if_splits)
  then show ?thesis
    using device_ram only_fdt_esp [OF drv.open_quiet] only_fdt_esp [OF drv.close_quiet] call_ioctl_quiet
    by (auto simp: only_fdt_esp) (metis snd_conv)+
qed

lemma quiet_call:
  assumes "dispatch_switch pl lb io k p r = Inr (q, k')" and "r \<in> {SYS_GETPID, SYS_OPEN, SYS_CLOSE, SYS_IOCTL}"
  shows "q = p \<and> ram k' = ram k \<and> esp (proc k' p) = esp (proc k p) \<and> (r = SYS_GETPID \<longrightarrow> ret (proc k' p) = pid (proc k p))"
proof (cases "r = SYS_GETPID")
  case True
  with assms(1) show ?thesis by (auto simp: dispatch_switch_def do_getpid_def returns_def)
next
  case False
  with assms have "\<exists>res \<in> {di_open k p (arg k p 0), di_close k p (arg k p 0), di_ioctl k p (arg k p 0) (arg k p 1) (arg k p 2)}.
      returns p res = Inr (q, k')"
    by (auto simp: dispatch_switch_def do_open_def do_close_def do_ioctl_def)
  then obtain res where "res \<in> {di_open k p (arg k p 0), di_close k p (arg k p 0), di_ioctl k p (arg k p 0) (arg k p 1) (arg k p 2)}"
    "returns p res = Inr (q, k')" by blast
  with quiet_device [OF this(1)] False show ?thesis by (auto simp: returns_def split: sum.splits)
qed

section \<open>Properties of the whole kernel\<close>

text \<open>
  C1. A round of the dispatcher is sound. With the invariant of the dispatcher holding and one
  allocation left, whatever the running process does until its next trap and whatever the keyboard
  delivers, a request the kernel can serve ends in one of two ways. The kernel halts for want of a
  process to run, and then every process that could run has been taken off by this very request. Or
  the round ends with some process running and the invariant holding again, and every process that could
  be scheduled before and was not taken off by the request still can. In particular no loop of the
  kernel runs forever, no NULL pointer to a process or a device is followed and no table is read out of bounds.
\<close>

theorem dispatch_round_sound:
  assumes "kinv (Suc n) k p" and "contextswitch k p u = (r, k1)" and "polite pl k1 p r"
  shows "dispatch_round pl lb (u, io) (p, k) = Inl Halt \<and> runnable k p \<subseteq> takes_off k1 p r \<or>
    (\<exists>q k'. dispatch_round pl lb (u, io) (p, k) = Inr (q, k') \<and> kinv n k' q \<and>
       runnable k p - takes_off k1 p r \<subseteq> runnable k' q)"
  using round_keeps [OF assms, of lb io] by (auto simp: ends_ok_def split: sum.splits)

theorem dispatch_round_sound_witness:
  "\<exists>k q k'. initproc pc_platform 0x5000 0x6000 (image (\<lambda>_. 0) (hdrs raw_mem)) = Inr (1, k) \<and>
     dispatch_round pc_platform some_lib (yields, 0, 0) (1, k) = Inr (q, k') \<and> kinv 9 k' q"
proof -
  from pc_boot obtain k where k: "initproc pc_platform 0x5000 0x6000 (image (\<lambda>_. 0) (hdrs raw_mem)) = Inr (1, k)"
    "kinv (Suc 9) k 1" "1 \<in> runnable k 1" by (auto simp: eval_nat_numeral)
  obtain k1 where "contextswitch k 1 yields = (SYS_YIELD, k1)" using yields_switch by blast
  from dispatch_round_sound [OF k(2) this yield_polite(1), of pc_platform some_lib "(0, 0)"] k(1,3) yield_polite(2)
  show ?thesis by blast
qed

text \<open>
  C3. Every state the kernel reaches is sound. Boot on any suitable memory map and run any number of
  rounds, up to the number of spare headers, in which processes make only requests the kernel can
  serve: the state reached satisfies the dispatcher's invariant, it is the one the dispatcher loop
  computes on those inputs, and a process once runnable is lost only if a request takes it off.
\<close>

theorem reachable_sound:
  assumes "layout_ok (n + 5) pl" and "unat (aligned (freemem pl)) + 33016 \<le> unat (HOLESTART pl)"
    and "initproc pl fp_idle fp_init (image m h) = Inr c0" and "drun pl lb (polite pl) c0 is c" and "length is \<le> n"
  shows "kinv (n - length is) (snd c) (fst c) \<and> dispatch pl lb is c0 = Inr c"
proof -
  from boot_result [OF assms(1,2), of fp_idle fp_init m h] assms(3)
  have "kinv n (snd c0) (fst c0)" by auto
  with drun_keeps [OF assms(4) this, of "{}"] assms(5) drun_dispatch [OF assms(4)] show ?thesis by simp
qed

theorem reachable_sound_witness:
  "\<exists>c0 c. initproc pc_platform 0x5000 0x6000 (image (\<lambda>_. 0) (hdrs raw_mem)) = Inr c0 \<and>
     dispatch pc_platform some_lib [(yields, 0, 0)] c0 = Inr c \<and> kinv 9 (snd c) (fst c)"
proof -
  have lay: "layout_ok (10 + 5) pc_platform" by (rule pc_layout) simp
  from pc_yield_run obtain k c where k: "initproc pc_platform 0x5000 0x6000 (image (\<lambda>_. 0) (hdrs raw_mem)) = Inr (1, k)"
    and "drun pc_platform some_lib (polite pc_platform) (1, k) [(yields, 0, 0)] c" by blast
  from reachable_sound [OF lay pc_room k this(2)] k show ?thesis
    by (intro exI [of _ "(1, k)"] exI [of _ c]) (simp del: dispatch.simps)
qed

text \<open>
  What the idle process, in slot 1, needs: that it only yields and is interrupted, and that nobody
  sends it signal 31.
\<close>

definition spares_idle :: "kernel \<Rightarrow> nat \<Rightarrow> u32 \<Rightarrow> bool" where
  "spares_idle k p r \<longleftrightarrow> (p = 1 \<longrightarrow> r \<in> {SYS_YIELD, SYS_TIMER, SYS_KEYBOARD}) \<and>
     \<not> (r = SYS_KILL \<and> arg k p 1 = 31 \<and> findPCB (sch k) (arg k p 0) = Some 1)"

lemma spares_idle_stays: "spares_idle k p r \<Longrightarrow> 1 \<notin> takes_off k p r"
  by (auto simp: spares_idle_def takes_off_def kill_target_def split: if_splits)

text \<open>
  C2. The kernel does not run out of processes while its idle process is spared. Boot a kernel whose memory has room
  for \<open>n\<close> more allocations, and let it serve fewer than \<open>n\<close> requests, each of which is one it can serve
  (\<open>polite\<close>), where the process in slot 1, the idle process, makes no request but to yield and nobody sends
  signal 31 to it. Then the idle process can be scheduled, and the dispatcher serves any further such request and finds a process
  to run next. (A user program can break the condition: \<open>test3\<close> sends signal 31 to process 1.)
\<close>

theorem never_out_of_processes:
  assumes "layout_ok (n + 5) pl" and "unat (aligned (freemem pl)) + 33016 \<le> unat (HOLESTART pl)"
    and "initproc pl fp_idle fp_init (image m h) = Inr c0"
    and "drun pl lb (\<lambda>k p r. polite pl k p r \<and> spares_idle k p r) c0 is (p, k)" and "length is < n"
    and "contextswitch k p u = (r, k1)" and "polite pl k1 p r" and "spares_idle k1 p r"
  shows "1 \<in> runnable k p \<and> (\<exists>q k'. dispatch_round pl lb (u, io) (p, k) = Inr (q, k') \<and> 1 \<in> runnable k' q)"
proof -
  from boot_result [OF assms(1,2), of fp_idle fp_init m h] assms(3)
  have c0: "kinv n (snd c0) (fst c0)" "{1} \<subseteq> runnable (snd c0) (fst c0)" by (auto simp: runnable_def)
  from drun_keeps [OF assms(4) c0] assms(5) spares_idle_stays have k: "kinv (n - length is) k p" "1 \<in> runnable k p" by auto
  then have "kinv (Suc (n - Suc (length is))) k p" using assms(5) by (simp add: Suc_diff_Suc)
  from round_keeps [OF this assms(6,7), of lb io] k(2) spares_idle_stays [OF assms(8)] show ?thesis
    by (auto simp: ends_ok_def split: sum.splits)
qed

theorem never_out_of_processes_witness:
  "\<exists>k q k'. initproc pc_platform 0x5000 0x6000 (image (\<lambda>_. 0) (hdrs raw_mem)) = Inr (1, k) \<and>
     dispatch_round pc_platform some_lib (yields, 0, 0) (1, k) = Inr (q, k') \<and> 1 \<in> runnable k' q"
proof -
  have lay: "layout_ok (10 + 5) pc_platform" by (rule pc_layout) simp
  from pc_boot obtain k where k: "initproc pc_platform 0x5000 0x6000 (image (\<lambda>_. 0) (hdrs raw_mem)) = Inr (1, k)" by auto
  obtain k1 where "contextswitch k 1 yields = (SYS_YIELD, k1)" using yields_switch by blast
  from never_out_of_processes [OF lay pc_room k drun.start _ this yield_polite(1), of some_lib "(0, 0)"] k
  show ?thesis by (auto simp: spares_idle_def)
qed

text \<open>Memory with a zero byte: addresses wrap around, so every string ends.\<close>

lemma string_ends: "(m :: ram) b = 0 \<Longrightarrow> \<exists>n. m (a + of_nat n) = 0"
  by (rule exI [of _ "unat (b - a)"]) simp

text \<open>
  C36. The requests of the user programs. Take any program of \<open>user.c\<close> or the idle process, any execution of
  it and any system call it makes, issued with its arguments in the process's stack frame, on a memory with a
  zero byte anywhere. The kernel sees that request with its arguments, and it is one the kernel can serve, with two exceptions: a signal to a process
  that is asleep, which only \<open>root\<close>, \<open>busy\<close>, \<open>test3\<close> and \<open>test4\<close> can send (\<open>root\<close> does so deliberately), and a read of the keyboard
  at the end-of-file character by one of the three programs that read. And it takes nobody but its caller off the
  processor, unless it is the signal 31 that \<open>test3\<close> sends.
\<close>

theorem user_requests_polite:
  assumes "prg \<in> set (user_programs l)" and "trace prg t" and "(Sys (Trap r as), v) \<in> set t"
    and "unat (ap - (esp (proc k p) + 44)) + 4 * length as < 4294967296 - 48"
    and "contextswitch k p (\<lambda>rg m. syscall rg m ap r as) = (rc, k1)" and "ram k1 b = 0"
  shows "rc = r \<and> (\<forall>i < length as. arg k1 p i = as ! i) \<and>
    (polite pl k1 p r \<or>
     r = SYS_KILL \<and> prg \<in> {root l, busy l, test3 l, test4 l} \<and>
       (\<exists>q. findPCB (sch k1) (as ! 0) = Some q \<and> state (proc k1 q) = STATE_SLEEP) \<or>
     r = SYS_READ \<and> prg \<in> {zeroDeviceTest l, randomDeviceTest l, initProgram l} \<and>
       device (fdt (proc k1 p) (unat (as ! 0))) = Some 2 \<and> eof_next k1) \<and>
    (takes_off k1 p r \<subseteq> {p} \<or> prg = test3 l)"
proof -
  have "always servable prg" using servable_programs [of l] assms(1) by (simp add: list_all_iff)
  from always_trace [OF assms(2) this assms(3)] have sv: "servable (Sys (Trap r as))" .
  note u = signal_users [OF assms(1)]
  have kl: "r = SYS_KILL \<Longrightarrow> prg \<in> {root l, busy l, test3 l, test4 l}" "r = SYS_KILL \<Longrightarrow> as ! 1 \<noteq> 31 \<or> prg = test3 l"
    using u(1,3) always_trace [OF assms(2) _ assms(3)] by force+
  have rd: "r = SYS_READ \<Longrightarrow> prg \<in> {zeroDeviceTest l, randomDeviceTest l, initProgram l}"
    using u(2) always_trace [OF assms(2) _ assms(3)] by force
  obtain rg m where so: "switch_out k p = (rg, k\<lparr>ram := m\<rparr>)" "r_esp rg = esp (proc k p) + 44"
    by (simp add: switch_out_def Let_def popa_iret_def)
  obtain t' rg' m' where sc: "syscall rg m ap r as = (t', rg', m')" by (metis prod_cases3)
  then have "switch_in (k\<lparr>ram := m'\<rparr>) p t' rg' = (rc, k1)" using assms(5) so by (simp add: contextswitch_def)
  from syscall_args [OF sc this] assms(4) so(2) have a: "rc = r" "\<forall>i < length as. arg k1 p i = as ! i"
    by (simp_all add: arg_def)
  have "polite pl k1 p r" if "r \<noteq> SYS_KILL" "r \<noteq> SYS_READ"
    using that sv a string_ends [of "ram k1", OF assms(6)] by (auto simp: polite_def)
  moreover have "polite pl k1 p SYS_KILL \<longleftrightarrow>
      (\<forall>t < MAX_PROC. findPCB (sch k1) (arg k1 p 0) = Some t \<longrightarrow> state (proc k1 t) \<noteq> STATE_SLEEP)"
    by (simp add: polite_def)
  moreover have "polite pl k1 p SYS_READ" if "r = SYS_READ" "device (fdt (proc k1 p) (unat (as ! 0))) = Some 2 \<longrightarrow> \<not> eof_next k1"
    using that sv a by (auto simp: polite_def read_ends_def)
  moreover have "arg k1 p 0 = as ! 0" "arg k1 p 1 = as ! 1" if "r = SYS_KILL" using that sv a(2) by auto
  then have "takes_off k1 p r \<subseteq> {p} \<or> prg = test3 l" using kl(2) by (auto simp: takes_off_def kill_target_def)
  moreover have "arg k1 p 0 = as ! 0" if "r = SYS_KILL" using that sv a(2) by auto
  ultimately show ?thesis using a kl(1) rd by metis
qed

theorem user_requests_polite_witness:
  "\<exists>k1. contextswitch fresh 1 (\<lambda>rg m. syscall rg m 44 SYS_SLEEP [50000]) = (SYS_SLEEP, k1) \<and> polite pc_platform k1 1 SYS_SLEEP"
proof -
  have p: "test1 some_link \<in> set (user_programs some_link)" by (simp add: user_programs_def)
  have t: "trace (test1 some_link) [(Sys (sysputs (lit some_link (''Test1 has been called'' @ nl))), 0), (Sys (Trap SYS_SLEEP [50000]), 0)]"
    by (simp add: test1_def puts_def syssleep_def trace_Cons trace_Nil)
  have e: "esp (proc fresh 1) = 0" by (simp add: fresh_def image_def zero_pcb_def)
  obtain rc k1 where c: "contextswitch fresh 1 (\<lambda>rg m. syscall rg m 44 SYS_SLEEP [50000]) = (rc, k1)" by fastforce
  have "ram k1 0x9000 = 0"
    using c by (auto simp: contextswitch_def syscall_def switch_in_def switch_out_def trap_pusha_def popa_iret_def Let_def
        store32_def fresh_def image_def zero_pcb_def split: prod.splits)
  from user_requests_polite [OF p t _ _ c this, of 0 pc_platform] c show ?thesis unfolding e by auto
qed

text \<open>
  C35. A process that stops does not end the waits for it. When a process stops, every process that
  waits for it is still waiting after the round, with the same \<open>waitpid\<close>: only signal 31 wakes
  waiting processes. Nor is the stack of the stopped process given back: the memory manager's state
  is unchanged.
\<close>

theorem stop_leaves_waiters:
  assumes "state (proc k q) = STATE_WAIT" and "waitpid (proc k q) = pid (proc k p)" and "q \<noteq> p"
    and "dispatch_switch pl lb io k p SYS_STOP = Inr (p', k')"
  shows "state (proc k' q) = STATE_WAIT \<and> waitpid (proc k' q) = pid (proc k' p) \<and> state (proc k' p) = STATE_STOPPED \<and>
    kmem k' = kmem k"
proof -
  have "do_stop k p = Inr (p', k')" using assms(4) by (simp add: dispatch_switch_def)
  then obtain s where s: "next_proc (set_pcb (sch k) p (\<lambda>c. c\<lparr>state := STATE_STOPPED\<rparr>)) = Inr (p', s)" "sch k' = s" "kmem k' = kmem k"
    by (auto simp: do_stop_def resched_def split: sum.splits)
  with assms(1-3) show ?thesis by (auto simp: next_proc_fields(3) [OF s(1)])
qed

definition one_waits :: kernel where
  "one_waits = upd (fresh\<lparr>sch := ready (sch fresh) 3\<rparr>) 2 (\<lambda>c. c\<lparr>state := STATE_WAIT\<rparr>)"

theorem stop_leaves_waiters_witness:
  "\<exists>k'. dispatch_switch pc_platform some_lib (0, 0) one_waits 1 SYS_STOP = Inr (3, k') \<and> state (proc k' 2) = STATE_WAIT"
proof -
  have w: "state (proc one_waits 2) = STATE_WAIT" "waitpid (proc one_waits 2) = pid (proc one_waits 1)"
    by (simp_all add: one_waits_def ready_proctab fresh_def image_def zero_pcb_def)
  have "\<exists>k'. dispatch_switch pc_platform some_lib (0, 0) one_waits 1 SYS_STOP = Inr (3, k')"
    by (simp add: dispatch_switch_def do_stop_def resched_def next_proc_def one_waits_def fresh_def image_def Let_def)
  then obtain k' where "dispatch_switch pc_platform some_lib (0, 0) one_waits 1 SYS_STOP = Inr (3, k')" by blast
  with stop_leaves_waiters [OF w _ this] show ?thesis by simp
qed

lemma drun_typed:
  assumes "drun pl lb (handler_in_range pl) c0 is c" and "ktyped (snd c0)"
  shows "ktyped (snd c)"
  using assms
proof (induction rule: drun.induct)
  case (round "is" p k u r k1 io c)
  have "ktyped k1" using contextswitch_typed round.IH round.prems round.hyps(2) by auto
  from switch_typed [OF this round.hyps(3), of lb io] round.hyps(4) show ?case by (cases c) simp
qed

text \<open>
  C5. The kernel's integers keep to their meaning. Start the kernel on any memory and let processes make
  any requests, also those that corrupt the queues, except that a handler is only installed for a signal
  number from 0 to 31 (any other number may overwrite what this is about: \<open>sighandler_overruns\<close>), and that no process writes to
  the kernel's own variables, through a pointer or through a buffer it passes, as those are not in the memory of the model. In every state the kernel reaches without a fault
  each process is stopped, ready, waiting, asleep or blocked (never \<open>STATE_RUNNING\<close>), each descriptor is open on one
  of the three devices or closed with no device and has no data buffer, echo is on or off, and the keyboard's state consists
  of the four modifier bits only: the mode for extended codes is never entered.
\<close>

theorem state_types:
  assumes "initproc pl fp_idle fp_init (image m h) = Inr c0" and "drun pl lb (handler_in_range pl) c0 is (p, k)"
  shows "state (proc k i) \<in> {STATE_STOPPED, STATE_READY, STATE_WAIT, STATE_SLEEP, STATE_BLOCKED} \<and>
    (\<forall>j < MAX_FDT. dataBuffer (fdt (proc k i) j) = 0 \<and> (case device (fdt (proc k i) j) of
       None \<Rightarrow> status (fdt (proc k i) j) = fd_CLOSE
     | Some d \<Rightarrow> status (fdt (proc k i) j) = fd_OPEN \<and> d < MAX_DEV)) \<and>
    (echo (kbd k) = ECHO_ON \<or> echo (kbd k) = ECHO_OFF) \<and>
    kstate (kbd k) AND NOT (INCTL OR INSHIFT OR CAPSLOCK OR INMETA) = 0 \<and> kstate (kbd k) AND EXTENDED = 0"
proof -
  have "ktyped (snd c0)" using initproc_typed [of pl fp_idle fp_init m h] assms(1) by (simp add: ends_typed_def split_beta)
  with drun_typed [OF assms(2)] have k: "ktyped k" by simp
  then have "state (proc k i) \<in> proc_states" "\<forall>j < MAX_FDT. fd_typed (fdt (proc k i) j)" "kbd_typed (kbd k)"
    by (simp_all add: ktyped_def pcb_typed_def)
  then show ?thesis
    using and_not_modifiers [of "kstate (kbd k)"]
    by (auto simp: proc_states_def fd_typed_def kbd_typed_def modifiers_def simp del: EXTENDED_def split: option.splits)
qed

lemma drun_mono: "drun pl lb Q c0 is c \<Longrightarrow> (\<And>k p r. Q k p r \<Longrightarrow> Q' k p r) \<Longrightarrow> drun pl lb Q' c0 is c"
  by (induction rule: drun.induct) (blast intro: drun.intros)+

theorem state_types_witness:
  "\<exists>c0 p k. initproc pc_platform 0x5000 0x6000 (image (\<lambda>_. 0) (hdrs raw_mem)) = Inr c0 \<and>
     dispatch pc_platform some_lib [(yields, 0, 0)] c0 = Inr (p, k) \<and> state (proc k 5) \<noteq> STATE_RUNNING"
proof -
  from pc_yield_run obtain k0 c where k: "initproc pc_platform 0x5000 0x6000 (image (\<lambda>_. 0) (hdrs raw_mem)) = Inr (1, k0)"
    and r: "drun pc_platform some_lib (polite pc_platform) (1, k0) [(yields, 0, 0)] c" by blast
  obtain p1 k1 where c: "c = (p1, k1)" by fastforce
  have "drun pc_platform some_lib (handler_in_range pc_platform) (1, k0) [(yields, 0, 0)] (p1, k1)"
    using r unfolding c by (rule drun_mono) (simp add: polite_def handler_in_range_def)
  from state_types [OF k this, of 5] have "state (proc k1 5) \<noteq> STATE_RUNNING" by auto
  with k drun_dispatch [OF r] show ?thesis unfolding c by blast
qed

text \<open>
  C4. The processor is shared round robin. In a sound state with process \<open>p\<close> running, let every process that runs
  do whatever it likes until the timer interrupts it or it yields. Then the process at place \<open>i\<close> of the ready
  queue runs after \<open>i + 1\<close> turns, that is after fewer than 64, and nobody who could run before is lost: the
  processes in front of it and \<open>p\<close> itself are back on the ready queue.
\<close>

theorem processor_shared:
  assumes "kinv n k p" and "\<forall>inp \<in> set is. gives_up (fst inp)" and "length is = Suc i" and "i < length (readyq (sch k))"
  shows "\<exists>k'. dispatch pl lb is (p, k) = Inr (readyq (sch k) ! i, k') \<and> kinv n k' (readyq (sch k) ! i) \<and>
    runnable k p \<subseteq> runnable k' (readyq (sch k) ! i) \<and> length is < MAX_PROC"
proof -
  let ?xs = "readyq (sch k)"
  from turns [OF assms, of pl lb] obtain k' ys where k: "dispatch pl lb is (p, k) = Inr (?xs ! i, k')"
    "kinv n k' (?xs ! i)" "readyq (sch k') = drop (Suc i) ?xs @ ys" "insert p (set (take i ?xs)) \<subseteq> set ys" by blast
  have "set ?xs = set (take i ?xs @ ?xs ! i # drop (Suc i) ?xs)" using id_take_nth_drop [OF assms(4)] by simp
  then have "runnable k p \<subseteq> runnable k' (?xs ! i)" using k(3,4) by (auto simp: runnable_def)
  moreover have "length ?xs < MAX_PROC" by (rule ready_length [OF kinvD(2) [OF assms(1)]])
  ultimately show ?thesis using k(1,2) assms(3,4) by auto
qed

theorem processor_shared_witness:
  "\<exists>k k'. initproc pc_platform 0x5000 0x6000 (image (\<lambda>_. 0) (hdrs raw_mem)) = Inr (1, k) \<and>
     dispatch pc_platform some_lib [(\<lambda>r m. (1, r, m), 0, 0)] (1, k) = Inr (2, k') \<and> 1 \<in> runnable k' 2"
proof -
  have "layout_ok (10 + 5) pc_platform" by (rule pc_layout) simp
  from boot_result [OF this pc_room, of "0x5000" "0x6000" "\<lambda>_. 0" "hdrs raw_mem"] obtain k where
    k: "initproc pc_platform 0x5000 0x6000 (image (\<lambda>_. 0) (hdrs raw_mem)) = Inr (1, k)" "kinv 10 k 1" "readyq (sch k) = [2]"
    by blast
  from processor_shared [OF k(2), of "[(\<lambda>r m. (1, r, m), 0, 0)]" 0 pc_platform some_lib] k(3)
  obtain k' where "dispatch pc_platform some_lib [(\<lambda>r m. (1, r, m), 0, 0)] (1, k) = Inr (2, k')" "runnable k 1 \<subseteq> runnable k' 2"
    by (auto simp: gives_up_def simp del: dispatch.simps)
  with k(1) show ?thesis by (auto simp: runnable_def simp del: dispatch.simps)
qed

text \<open>
  C34. A system call is a function call for its caller. A process that calls \<open>sysgetpid\<close>, \<open>sysopen\<close>, \<open>sysclose\<close> or
  \<open>sysioctl\<close> goes on running after the round, and it resumes with all the registers it had when it trapped but
  for \<open>eax\<close>, which is the value the kernel returns, and \<open>edx\<close>, which the stub has loaded with the argument
  pointer; \<open>sysgetpid\<close> returns the caller's identifier.
\<close>

theorem call_returns:
  assumes "contextswitch k p (\<lambda>rg m. syscall rg m ap r as) = (rc, k1)"
    and "r \<in> {SYS_GETPID, SYS_OPEN, SYS_CLOSE, SYS_IOCTL}" and "dispatch_switch pl lb io k1 p rc = Inr (q, k2)"
  shows "q = p \<and> fst (switch_out k2 q) = (fst (switch_out k p))\<lparr>r_eax := ret (proc k2 p), r_edx := ap\<rparr> \<and>
    (r = SYS_GETPID \<longrightarrow> ret (proc k2 p) = pid (proc k p))"
proof -
  obtain rg m where so: "switch_out k p = (rg, k\<lparr>ram := m\<rparr>)" by (simp add: switch_out_def Let_def)
  have si: "switch_in (k\<lparr>ram := store_words m ap as\<rparr>) p 0 (rg\<lparr>r_eax := r, r_edx := ap\<rparr>) = (rc, k1)"
    using assms(1) so by (simp add: contextswitch_def syscall_def)
  have rc: "rc = r" and pid: "pid (proc k1 p) = pid (proc k p)"
    using switch_in_fields(3,7) [OF si] by (simp_all add: same_pids_def)
  from quiet_call [OF assms(3) [unfolded rc] assms(2)]
  have q: "q = p" "ram k2 = ram k1" "esp (proc k2 p) = esp (proc k1 p)" "r = SYS_GETPID \<Longrightarrow> ret (proc k2 p) = pid (proc k1 p)"
    by blast+
  have "same_frame (ram k1) (ram k2) (esp (proc k1 p))" by (simp add: same_frame_def q(2))
  from switch_resume [OF si q(3) this] so q(1,4) pid show ?thesis by simp
qed

theorem call_returns_witness:
  "\<exists>k2. dispatch_round pc_platform some_lib (\<lambda>rg m. syscall rg m 0x30010 SYS_GETPID [], 0, 0) (1, handled) = Inr (1, k2) \<and>
     r_eax (fst (switch_out k2 1)) = 1"
proof -
  let ?u = "\<lambda>rg m. syscall rg m 0x30010 SYS_GETPID []"
  obtain rc k1 where c: "contextswitch handled 1 ?u = (rc, k1)" by fastforce
  then have "rc = SYS_GETPID" by (auto simp: contextswitch_def syscall_def switch_in_def Let_def split_beta)
  then obtain k2 where d: "dispatch_switch pc_platform some_lib (0, 0) k1 1 rc = Inr (1, k2)"
    by (simp add: dispatch_switch_def do_getpid_def returns_def)
  from call_returns [OF c _ d] have "r_eax (fst (switch_out k2 1)) = pid (proc handled 1)" by simp
  with c d show ?thesis by (simp add: dispatch_round_def handled_def)
qed

end
